(* ===== verification/Prelude.thy ===== *)
theory Prelude
  imports Main "HOL-Library.Sublist" "HOL-Library.Char_ord" "HOL-Library.List_Lexorder"
begin

text \<open>
  The shared base of the development: Python's exceptions and effectful code as
  state-and-exception functions, the string methods of the standard library that
  \<^verbatim>\<open>halt/\<close> calls, and the lemmas on them that the component theories share.

  Strings are lists of \<^typ>\<open>char\<close>, one per code point, so the model covers the code
  points below 256 (Latin-1). That is exactly the range of a decoded HTTP head
  (\<^verbatim>\<open>decode("latin-1")\<close>), and it holds every host name, path and identifier the
  rest of the program builds from ASCII. \<^verbatim>\<open>bytes\<close> are lists of \<^typ>\<open>char\<close> too, with
  \<^verbatim>\<open>latin-1\<close> decoding the identity.
\<close>

named_theorems py_simps \<open>rules that run a state-and-exception function\<close>

section \<open>Exceptions\<close>

text \<open>
  The exception classes the program raises, catches or lets pass. \<open>HTTPErrorC\<close> carries
  the \<^verbatim>\<open>code\<close> attribute that two handlers read; \<open>OtherErrorC\<close> is any other subclass of
  \<^verbatim>\<open>Exception\<close>, by its name; the last two are subclasses of \<^verbatim>\<open>BaseException\<close> only.
\<close>

datatype exn_class =
    NotImplementedErrorC | RuntimeErrorC | ValueErrorC | TypeErrorC | KeyErrorC
  | JSONDecodeErrorC | StructErrorC | OSErrorC | FileNotFoundErrorC | ProcessLookupErrorC
  | PermissionErrorC | TimeoutErrorC | SSLErrorC | HTTPErrorC int | OtherErrorC string
  | KeyboardInterruptC | SystemExitC

datatype py_exn = Exn (exn_class: exn_class) (exn_msg: string)

fun class_name :: "exn_class \<Rightarrow> string" where
  "class_name NotImplementedErrorC = ''NotImplementedError''"
| "class_name RuntimeErrorC = ''RuntimeError''"
| "class_name ValueErrorC = ''ValueError''"
| "class_name TypeErrorC = ''TypeError''"
| "class_name KeyErrorC = ''KeyError''"
| "class_name JSONDecodeErrorC = ''JSONDecodeError''"
| "class_name StructErrorC = ''error''"
| "class_name OSErrorC = ''OSError''"
| "class_name FileNotFoundErrorC = ''FileNotFoundError''"
| "class_name ProcessLookupErrorC = ''ProcessLookupError''"
| "class_name PermissionErrorC = ''PermissionError''"
| "class_name TimeoutErrorC = ''TimeoutError''"
| "class_name SSLErrorC = ''SSLError''"
| "class_name (HTTPErrorC code) = ''HTTPError''"
| "class_name (OtherErrorC n) = n"
| "class_name KeyboardInterruptC = ''KeyboardInterrupt''"
| "class_name SystemExitC = ''SystemExit''"

text \<open>What \<^verbatim>\<open>except Exception\<close> and \<^verbatim>\<open>except OSError\<close> catch.\<close>

definition is_Exception :: "py_exn \<Rightarrow> bool" where
  "is_Exception e \<longleftrightarrow> exn_class e \<notin> {KeyboardInterruptC, SystemExitC}"

fun is_OSError_class :: "exn_class \<Rightarrow> bool" where
  "is_OSError_class OSErrorC = True"
| "is_OSError_class FileNotFoundErrorC = True"
| "is_OSError_class ProcessLookupErrorC = True"
| "is_OSError_class PermissionErrorC = True"
| "is_OSError_class TimeoutErrorC = True"
| "is_OSError_class SSLErrorC = True"
| "is_OSError_class (HTTPErrorC code) = True"
| "is_OSError_class _ = False"

definition is_OSError :: "py_exn \<Rightarrow> bool" where
  "is_OSError e = is_OSError_class (exn_class e)"

lemma is_OSError_is_Exception: "is_OSError e \<Longrightarrow> is_Exception e"
  by (auto simp: is_OSError_def is_Exception_def)

section \<open>Effectful code: state passing with exceptions\<close>

text \<open>
  A method that reads and writes state and may raise. The state survives a raise: what
  was mutated before the exception stays mutated, as in Python.
\<close>

type_synonym ('s, 'a) py = "'s \<Rightarrow> (py_exn + 'a) \<times> 's"

definition py_return :: "'a \<Rightarrow> ('s, 'a) py" where
  "py_return x = (\<lambda>s. (Inr x, s))"

definition py_raise :: "py_exn \<Rightarrow> ('s, 'a) py" where
  "py_raise e = (\<lambda>s. (Inl e, s))"

definition py_bind :: "('s, 'a) py \<Rightarrow> ('a \<Rightarrow> ('s, 'b) py) \<Rightarrow> ('s, 'b) py" where
  "py_bind m f = (\<lambda>s. case m s of (Inl e, s') \<Rightarrow> (Inl e, s') | (Inr x, s') \<Rightarrow> f x s')"

definition py_seq :: "('s, 'a) py \<Rightarrow> ('s, 'b) py \<Rightarrow> ('s, 'b) py" where
  "py_seq m k = py_bind m (\<lambda>_. k)"

definition py_get :: "('s \<Rightarrow> 'a) \<Rightarrow> ('s, 'a) py" where
  "py_get f = (\<lambda>s. (Inr (f s), s))"

definition py_modify :: "('s \<Rightarrow> 's) \<Rightarrow> ('s, unit) py" where
  "py_modify f = (\<lambda>s. (Inr (), f s))"

text \<open>\<^verbatim>\<open>try: m  except <caught> as e: h(e)\<close> and \<^verbatim>\<open>try: m  finally: k\<close>.\<close>

definition py_except :: "(py_exn \<Rightarrow> bool) \<Rightarrow> ('s, 'a) py \<Rightarrow> (py_exn \<Rightarrow> ('s, 'a) py) \<Rightarrow> ('s, 'a) py" where
  "py_except caught m h =
     (\<lambda>s. case m s of (Inl e, s') \<Rightarrow> (if caught e then h e s' else (Inl e, s')) | (Inr x, s') \<Rightarrow> (Inr x, s'))"

definition py_finally :: "('s, 'a) py \<Rightarrow> ('s, unit) py \<Rightarrow> ('s, 'a) py" where
  "py_finally m k =
     (\<lambda>s. case m s of (r, s') \<Rightarrow> (case k s' of (Inl e, s'') \<Rightarrow> (Inl e, s'') | (Inr _, s'') \<Rightarrow> (r, s'')))"

text \<open>\<^verbatim>\<open>for x in xs: body(x)\<close>: stops at the first exception.\<close>

primrec py_for :: "'a list \<Rightarrow> ('a \<Rightarrow> ('s, unit) py) \<Rightarrow> ('s, unit) py" where
  "py_for [] body = py_return ()"
| "py_for (x # xs) body = py_seq (body x) (py_for xs body)"

text \<open>
  An object's method run on a field of a larger state: \<open>sel\<close> reads the object,
  \<open>upd\<close> writes it back.
\<close>

definition py_on :: "('s \<Rightarrow> 't) \<Rightarrow> ('t \<Rightarrow> 's \<Rightarrow> 's) \<Rightarrow> ('t, 'a) py \<Rightarrow> ('s, 'a) py" where
  "py_on sel upd m = (\<lambda>s. case m (sel s) of (r, t) \<Rightarrow> (r, upd t s))"

lemma py_return_run [py_simps]: "py_return x s = (Inr x, s)"
  by (simp add: py_return_def)

lemma py_raise_run [py_simps]: "py_raise e s = (Inl e, s)"
  by (simp add: py_raise_def)

lemma py_get_run [py_simps]: "py_get f s = (Inr (f s), s)"
  by (simp add: py_get_def)

lemma py_modify_run [py_simps]: "py_modify f s = (Inr (), f s)"
  by (simp add: py_modify_def)

lemma py_bind_run [py_simps]:
  "py_bind m f s = (case m s of (Inl e, s') \<Rightarrow> (Inl e, s') | (Inr x, s') \<Rightarrow> f x s')"
  by (simp add: py_bind_def)

lemma py_seq_run [py_simps]:
  "py_seq m k s = (case m s of (Inl e, s') \<Rightarrow> (Inl e, s') | (Inr x, s') \<Rightarrow> k s')"
  by (simp add: py_seq_def py_bind_def)

lemma py_except_run [py_simps]:
  "py_except caught m h s =
     (case m s of (Inl e, s') \<Rightarrow> (if caught e then h e s' else (Inl e, s')) | (Inr x, s') \<Rightarrow> (Inr x, s'))"
  by (simp add: py_except_def)

lemma py_finally_run [py_simps]:
  "py_finally m k s =
     (case m s of (r, s') \<Rightarrow> (case k s' of (Inl e, s'') \<Rightarrow> (Inl e, s'') | (Inr _, s'') \<Rightarrow> (r, s'')))"
  by (simp add: py_finally_def)

lemma py_on_run [py_simps]: "py_on sel upd m s = (case m (sel s) of (r, t) \<Rightarrow> (r, upd t s))"
  by (simp add: py_on_def)

lemma py_for_Cons_run [py_simps]:
  "py_for (x # xs) body s = (case body x s of (Inl e, s') \<Rightarrow> (Inl e, s') | (Inr _, s') \<Rightarrow> py_for xs body s')"
  by (simp add: py_seq_run)

lemma py_for_Nil_run [py_simps]: "py_for [] body s = (Inr (), s)"
  by (simp add: py_return_run)

declare py_for.simps [simp del]

text \<open>The outcome of a call: its value or the exception, and the state it leaves.\<close>

abbreviation outcome :: "(py_exn + 'a) \<times> 's \<Rightarrow> py_exn + 'a" where
  "outcome \<equiv> fst"

abbreviation state_after :: "(py_exn + 'a) \<times> 's \<Rightarrow> 's" where
  "state_after \<equiv> snd"

definition returns :: "(py_exn + 'a) \<times> 's \<Rightarrow> bool" where
  "returns r \<longleftrightarrow> (case fst r of Inl _ \<Rightarrow> False | Inr _ \<Rightarrow> True)"

lemma returns_Pair [simp]: "returns (Inr x, s)" "\<not> returns (Inl e, s)"
  by (simp_all add: returns_def)

lemma returnsE:
  assumes "returns r"
  obtains x s where "r = (Inr x, s)"
  using assms by (cases r) (auto simp: returns_def split: sum.splits)

lemma py_for_invariant:
  assumes "I s" and "\<And>x s. x \<in> set xs \<Longrightarrow> I s \<Longrightarrow> I (snd (body x s))"
  shows "I (snd (py_for xs body s))"
  using assms
proof (induction xs arbitrary: s)
  case Nil
  then show ?case by (simp add: py_simps)
next
  case (Cons x xs)
  obtain r s' where b: "body x s = (r, s')" by (cases "body x s")
  have "I s'" using Cons.prems b by (metis list.set_intros(1) snd_conv)
  then show ?case
    using Cons.IH [of s'] Cons.prems(2) b by (cases r) (auto simp: py_simps)
qed

section \<open>Strings\<close>

type_synonym bytes = string

abbreviation ord_of :: "char \<Rightarrow> nat" where
  "ord_of c \<equiv> (of_char c :: nat)"

lemma ord_of_less_256 [simp]: "ord_of c < 256"
proof -
  have "of_char c = (of_char c :: nat) mod 256" by simp
  then show ?thesis by (metis mod_less_divisor zero_less_numeral)
qed

definition CR :: char where "CR = CHR 0x0D"
definition LF :: char where "LF = CHR 0x0A"

primrec starts_with :: "string \<Rightarrow> string \<Rightarrow> bool" where
  "starts_with s [] = True"
| "starts_with s (p # ps) = (case s of [] \<Rightarrow> False | c # cs \<Rightarrow> c = p \<and> starts_with cs ps)"

lemma starts_with_prefix: "starts_with s p = prefix p s"
  by (induction p arbitrary: s) (auto split: list.splits)

lemma starts_with_iff: "starts_with s p \<longleftrightarrow> (\<exists>t. s = p @ t)"
  by (simp add: starts_with_prefix prefix_def)

lemma starts_with_append [simp]: "starts_with (p @ t) p"
  by (auto simp: starts_with_iff)

text \<open>
  \<^verbatim>\<open>str.isspace\<close> on Latin-1, which \<^verbatim>\<open>strip()\<close> and \<^verbatim>\<open>split()\<close> use; \<^verbatim>\<open>str.isdigit\<close>, true of the
  superscript digits 0xB2, 0xB3 and 0xB9 that \<^verbatim>\<open>int()\<close> refuses; \<^verbatim>\<open>str.isalnum\<close>;
  \<^verbatim>\<open>str.lower\<close>.
\<close>

definition is_space :: "char \<Rightarrow> bool" where
  "is_space c \<longleftrightarrow> (let n = ord_of c in (9 \<le> n \<and> n \<le> 13) \<or> (28 \<le> n \<and> n \<le> 32) \<or> n = 133 \<or> n = 160)"

definition is_decimal :: "char \<Rightarrow> bool" where
  "is_decimal c \<longleftrightarrow> (let n = ord_of c in 48 \<le> n \<and> n \<le> 57)"

definition is_digit_char :: "char \<Rightarrow> bool" where
  "is_digit_char c \<longleftrightarrow> is_decimal c \<or> ord_of c \<in> {178, 179, 185}"

definition is_alpha_char :: "char \<Rightarrow> bool" where
  "is_alpha_char c \<longleftrightarrow> (let n = ord_of c in (65 \<le> n \<and> n \<le> 90) \<or> (97 \<le> n \<and> n \<le> 122)
     \<or> n \<in> {170, 181, 186} \<or> (192 \<le> n \<and> n \<noteq> 215 \<and> n \<noteq> 247))"

definition is_alnum_char :: "char \<Rightarrow> bool" where
  "is_alnum_char c \<longleftrightarrow> is_alpha_char c \<or> is_digit_char c \<or> ord_of c \<in> {188, 189, 190}"

definition isdigit :: "string \<Rightarrow> bool" where
  "isdigit s \<longleftrightarrow> s \<noteq> [] \<and> list_all is_digit_char s"

definition lower_char :: "char \<Rightarrow> char" where
  "lower_char c = (let n = ord_of c in
     if (65 \<le> n \<and> n \<le> 90) \<or> (192 \<le> n \<and> n \<le> 222 \<and> n \<noteq> 215) then char_of (n + 32) else c)"

definition lower :: "string \<Rightarrow> string" where
  "lower s = map lower_char s"

definition strip :: "string \<Rightarrow> string" where
  "strip s = rev (dropWhile is_space (rev (dropWhile is_space s)))"

text \<open>\<^verbatim>\<open>s.split()\<close>: the maximal runs of non-space characters.\<close>

function split_ws :: "string \<Rightarrow> string list" where
  "split_ws s = (let t = dropWhile is_space s in
     if t = [] then []
     else takeWhile (\<lambda>c. \<not> is_space c) t # split_ws (dropWhile (\<lambda>c. \<not> is_space c) t))"
  by pat_completeness auto
termination
proof (relation "measure length", simp, goal_cases)
  case (1 s t)
  then have "t \<noteq> []" and t: "t = dropWhile is_space s" by auto
  obtain c cs where c: "t = c # cs" using \<open>t \<noteq> []\<close> by (cases t) auto
  then have "\<not> is_space c" using t by (metis hd_dropWhile list.sel(1) list.distinct(1))
  then have "length (dropWhile (\<lambda>c. \<not> is_space c) t) \<le> length cs"
    using c by (simp add: length_dropWhile_le)
  also have "\<dots> < length s" using c t length_dropWhile_le [of is_space s] by simp
  finally show ?case using t by simp
qed

declare split_ws.simps [simp del]

text \<open>
  The first occurrence of a separator, \<^verbatim>\<open>s.split(sep, 1)\<close>, and \<^verbatim>\<open>s.split(sep)\<close>.
  An empty separator is a \<^verbatim>\<open>ValueError\<close> in Python; the program only passes literals.
\<close>

fun split_once :: "string \<Rightarrow> string \<Rightarrow> (string \<times> string) option" where
  "split_once sep [] = None"
| "split_once sep (c # s) =
     (if starts_with (c # s) sep then Some ([], drop (length sep) (c # s))
      else map_option (\<lambda>(a, b). (c # a, b)) (split_once sep s))"

lemma split_once_append: "split_once sep s = Some (a, b) \<Longrightarrow> s = a @ sep @ b"
proof (induction s arbitrary: a)
  case (Cons c s)
  then show ?case
    by (auto simp: starts_with_iff split: if_splits)
qed simp

lemma split_once_None: "split_once sep s = None \<Longrightarrow> sep \<noteq> [] \<Longrightarrow> \<not> sublist sep s"
proof (induction s)
  case (Cons c s)
  then show ?case
    by (auto simp: starts_with_prefix sublist_Cons_right split: if_splits)
qed simp

lemma split_once_length: "split_once sep s = Some (a, b) \<Longrightarrow> sep \<noteq> [] \<Longrightarrow> length b < length s"
  by (drule split_once_append) (cases sep, auto)

function split_on :: "string \<Rightarrow> string \<Rightarrow> string list" where
  "split_on sep s =
     (if sep = [] then [s]
      else case split_once sep s of None \<Rightarrow> [s] | Some (a, b) \<Rightarrow> a # split_on sep b)"
  by pat_completeness auto
termination
  by (relation "measure (\<lambda>(sep, s). length s)") (auto dest: split_once_length)

declare split_on.simps [simp del]

lemma split_on_nonempty [simp]: "split_on sep s \<noteq> []"
  by (subst split_on.simps) (auto split: option.splits)

lemma split_once_single:
  "split_once [c] s = (if c \<in> set s then Some (takeWhile (\<lambda>x. x \<noteq> c) s, tl (dropWhile (\<lambda>x. x \<noteq> c) s)) else None)"
  by (induction s) auto

lemma split_on_single:
  "split_on [c] (a @ c # b) = split_on [c] a @ split_on [c] b"
proof (induction "[c]" a rule: split_on.induct)
  case (1 s)
  show ?case
  proof (cases "c \<in> set s")
    case False
    then have "split_once [c] (s @ c # b) = Some (s, b)" "split_once [c] s = None"
      by (auto simp: split_once_single takeWhile_append dropWhile_append)
    then show ?thesis by (simp add: split_on.simps [of "[c]" "s @ c # b"] split_on.simps [of "[c]" s])
  next
    case True
    then obtain x y where xy: "split_once [c] s = Some (x, y)" by (auto simp: split_once_single)
    then have "split_once [c] (s @ c # b) = Some (x, y @ c # b)"
      using True by (auto simp: split_once_single takeWhile_append dropWhile_append)
    then show ?thesis
      using 1 xy by (simp add: split_on.simps [of "[c]" "s @ c # b"] split_on.simps [of "[c]" s])
  qed
qed

definition intercalate :: "string \<Rightarrow> string list \<Rightarrow> string" where
  "intercalate sep xs = concat (case xs of [] \<Rightarrow> [] | y # ys \<Rightarrow> y # map (\<lambda>z. sep @ z) ys)"

lemma intercalate_Cons: "xs \<noteq> [] \<Longrightarrow> intercalate sep (x # xs) = x @ sep @ intercalate sep xs"
  by (cases xs) (auto simp: intercalate_def)

lemma intercalate_split_on: "intercalate sep (split_on sep s) = s"
proof (induction sep s rule: split_on.induct)
  case (1 sep s)
  show ?case
  proof (cases "sep = [] \<or> split_once sep s = None")
    case True
    then show ?thesis by (subst split_on.simps) (auto simp: intercalate_def)
  next
    case False
    then obtain a b where ab: "split_once sep s = Some (a, b)" and "sep \<noteq> []" by auto
    then have "intercalate sep (split_on sep b) = b" using "1.IH" by simp
    then show ?thesis
      using ab \<open>sep \<noteq> []\<close> split_once_append [OF ab]
      by (subst split_on.simps) (simp add: intercalate_Cons)
  qed
qed

lemma split_on_free: "c \<notin> set s \<Longrightarrow> split_on [c] s = [s]"
  by (simp add: split_on.simps split_once_single)

lemma split_on_intercalate:
  assumes "xs \<noteq> []" "\<forall>x \<in> set xs. c \<notin> set x"
  shows "split_on [c] (intercalate [c] xs) = xs"
  using assms
proof (induction xs)
  case (Cons x xs)
  then show ?case
    by (cases xs) (auto simp: split_on_free intercalate_Cons split_on_single [of c x]
        intercalate_def [of _ "[_]"])
qed simp

text \<open>\<^verbatim>\<open>s.rpartition(sep)\<close> for a one-character separator that occurs: the parts around its last occurrence.\<close>

definition rpartition :: "char \<Rightarrow> string \<Rightarrow> string \<times> string" where
  "rpartition c s = (let post = rev (takeWhile (\<lambda>x. x \<noteq> c) (rev s))
     in (take (length s - length post - 1) s, post))"

section \<open>Decimal numbers\<close>

definition digit_char :: "nat \<Rightarrow> char" where
  "digit_char d = char_of (48 + d)"

definition digit_val :: "char \<Rightarrow> nat" where
  "digit_val c = ord_of c - 48"

lemma digit_val_digit_char [simp]: "d < 10 \<Longrightarrow> digit_val (digit_char d) = d"
  by (simp add: digit_val_def digit_char_def)

lemma digit_char_0: "digit_char 0 = CHR ''0''"
  by (simp add: digit_char_def char_of_def bit_0)

lemma digit_char_eq_0: "d < 10 \<Longrightarrow> digit_char d = CHR ''0'' \<longleftrightarrow> d = 0"
  by (metis digit_char_0 digit_val_digit_char zero_less_numeral)

lemma is_decimal_digit_char [simp]: "d < 10 \<Longrightarrow> is_decimal (digit_char d)"
  by (simp add: is_decimal_def digit_char_def Let_def)

fun show_nat :: "nat \<Rightarrow> string" where
  "show_nat n = (if n < 10 then [digit_char n] else show_nat (n div 10) @ [digit_char (n mod 10)])"

declare show_nat.simps [simp del]

definition show_int :: "int \<Rightarrow> string" where
  "show_int i = (if i < 0 then CHR ''-'' # show_nat (nat (- i)) else show_nat (nat i))"

definition dec_val :: "string \<Rightarrow> nat" where
  "dec_val s = foldl (\<lambda>a c. 10 * a + digit_val c) 0 s"

lemma dec_val_append: "dec_val (s @ [c]) = 10 * dec_val s + digit_val c"
  by (simp add: dec_val_def)

lemma show_nat_nonempty [simp]: "show_nat n \<noteq> []"
  by (subst show_nat.simps) simp

lemma show_nat_decimal: "list_all is_decimal (show_nat n)"
proof (induction n rule: show_nat.induct)
  case (1 n)
  then show ?case
    by (subst show_nat.simps) (simp add: list_all_append)
qed

lemma dec_val_show_nat [simp]: "dec_val (show_nat n) = n"
proof (induction n rule: show_nat.induct)
  case (1 n)
  show ?case
  proof (cases "n < 10")
    case True
    then show ?thesis by (subst show_nat.simps) (simp add: dec_val_def)
  next
    case False
    with "1" have "dec_val (show_nat (n div 10)) = n div 10" by simp
    with False show ?thesis by (subst show_nat.simps) (simp add: dec_val_append)
  qed
qed

lemma show_nat_inj: "show_nat m = show_nat n \<longleftrightarrow> m = n"
  by (metis dec_val_show_nat)

text \<open>
  \<^verbatim>\<open>int(s)\<close>, as the program calls it: always on a string that passed \<^verbatim>\<open>isdigit()\<close>, so
  signs, blanks and underscores do not arise. It raises \<^verbatim>\<open>ValueError\<close> on a character
  that is not a decimal digit and, from Python 3.10.7 on, on more than 4300 digits.
\<close>

definition int_max_str_digits :: nat where "int_max_str_digits = 4300"

definition py_int :: "string \<Rightarrow> py_exn + int" where
  "py_int s =
     (if s \<noteq> [] \<and> list_all is_decimal s then
        if int_max_str_digits < length s
        then Inl (Exn ValueErrorC ''Exceeds the limit (4300 digits) for integer string conversion'')
        else Inr (int (dec_val s))
      else Inl (Exn ValueErrorC ''invalid literal for int() with base 10''))"

lemma isdigit_decimal: "list_all is_decimal s \<Longrightarrow> s \<noteq> [] \<Longrightarrow> isdigit s"
  by (auto simp: isdigit_def is_digit_char_def list_all_iff)

section \<open>Step relations that end\<close>

text \<open>One thread steps, and its rank falls.\<close>

lemma sum_list_step: "i < length xs \<Longrightarrow> f x < f (xs ! i) \<Longrightarrow> sum_list (map f (xs[i := x])) < (sum_list (map f xs) :: nat)"
  by (induction xs arbitrary: i) (auto split: nat.splits)

text \<open>
  The threads of the program are step relations. Where every step takes off a measure, runs
  are bounded by it and every run can be continued to a state in which nothing moves.
\<close>

locale ending_steps =
  fixes step :: "'a \<Rightarrow> 'a \<Rightarrow> bool" and work :: "'a \<Rightarrow> nat"
  assumes step_work: "step x y \<Longrightarrow> work y < work x"
begin

lemma steps_bounded: "(step ^^ n) x y \<Longrightarrow> n + work y \<le> work x"
proof (induction n arbitrary: y)
  case (Suc n)
  then obtain z where "(step ^^ n) x z" "step z y" by auto
  then show ?case using Suc.IH [of z] step_work [of z y] by simp
qed simp

lemma steps_halt: "\<exists>y. step\<^sup>*\<^sup>* x y \<and> (\<nexists>z. step y z)"
proof (induction "work x" arbitrary: x rule: less_induct)
  case less
  show ?case
  proof (cases "\<exists>z. step x z")
    case True
    then obtain z where z: "step x z" by blast
    then show ?thesis using less [OF step_work [OF z]] by (meson converse_rtranclp_into_rtranclp)
  qed blast
qed

end

section \<open>Step relations that refine one another\<close>

text \<open>
  A detailed step relation seen through \<open>view\<close>: each of its steps is a step of the abstract
  relation or does not show. Whatever the abstract relation keeps then holds of every view.
\<close>

locale stutter_simulation =
  fixes fine_step :: "'c \<Rightarrow> 'c \<Rightarrow> bool" and coarse_step :: "'a \<Rightarrow> 'a \<Rightarrow> bool"
    and view :: "'c \<Rightarrow> 'a" and sane :: "'c \<Rightarrow> bool"
  assumes sane_step: "sane c \<Longrightarrow> fine_step c d \<Longrightarrow> sane d"
    and shows_step: "sane c \<Longrightarrow> fine_step c d \<Longrightarrow> view d = view c \<or> coarse_step (view c) (view d)"
begin

lemma view_reachable: "fine_step\<^sup>*\<^sup>* c d \<Longrightarrow> sane c \<Longrightarrow> sane d \<and> coarse_step\<^sup>*\<^sup>* (view c) (view d)"
proof (induction rule: rtranclp_induct)
  case (step d e)
  then show ?case
    using sane_step [of d e] shows_step [of d e] by (metis rtranclp.rtrancl_into_rtrancl)
qed simp

end

end
