(* ===== verification/Json.thy ===== *)
theory Json
  imports Complex_Main Prelude "HOL-Library.AList"
begin

text \<open>
  JSON as \<^verbatim>\<open>json.dumps\<close> and \<^verbatim>\<open>json.loads\<close> of the standard library treat it, with their
  default options: the wire and file format of every event (\<^verbatim>\<open>sinks.py\<close>) and the body of
  a revocation request (\<^verbatim>\<open>credentials.py\<close>). The main result is the round trip
  \<open>loads_dumps\<close>.

  Floats are exact rationals. How CPython writes and reads a float's text
  (\<^verbatim>\<open>float.__repr__\<close>, \<^verbatim>\<open>float(s)\<close>) is a pair of parameters \<open>fr\<close>, \<open>fp\<close>;
  \<open>float_text\<close> is what a round trip relies on for one float. NaN and the infinities are
  not modelled. A dict is an association list in insertion order, so storing a key is
  \<^const>\<open>AList.update\<close>.
\<close>

datatype json =
    JNull
  | JBool bool
  | JInt int
  | JFloat rat
  | JStr string
  | JArr "json list"
  | JObj "(string \<times> json) list"

type_synonym dict = "(string \<times> json) list"

text \<open>\<^verbatim>\<open>{**a, **b}\<close>: the keys of \<open>a\<close> keep their place, \<open>b\<close> wins.\<close>

definition dict_merge :: "dict \<Rightarrow> dict \<Rightarrow> dict" where
  "dict_merge a b = foldl (\<lambda>d (k, v). AList.update k v d) a b"

lemma map_of_foldl_update:
  "map_of (foldl (\<lambda>d (k, v). AList.update k v d) a b) = map_of a ++ map_of (rev b)"
proof (induction b arbitrary: a)
  case (Cons p b)
  obtain k v where "p = (k, v)" by (cases p)
  then show ?case
    using Cons [of "AList.update k v a"] by (auto simp: update_conv' map_add_def fun_eq_iff split: option.splits)
qed simp

lemma map_of_rev_distinct: "distinct (map fst b) \<Longrightarrow> map_of (rev b) = map_of b"
  by (simp add: map_of_inject_set rev_map [symmetric])

lemma map_of_dict_merge: "distinct (map fst b) \<Longrightarrow> map_of (dict_merge a b) = map_of a ++ map_of b"
  by (simp add: dict_merge_def map_of_foldl_update map_of_rev_distinct)

lemma update_fresh: "k \<notin> fst ` set a \<Longrightarrow> AList.update k v a = a @ [(k, v)]"
  by (induction a) auto

lemma foldl_update_fresh:
  "distinct (map fst (a @ ms)) \<Longrightarrow> foldl (\<lambda>d (k, v). AList.update k v d) a ms = a @ ms"
proof (induction ms arbitrary: a)
  case (Cons p ms)
  obtain k v where p: "p = (k, v)" by (cases p)
  have "AList.update k v a = a @ [(k, v)]"
    using Cons.prems p by (intro update_fresh) auto
  then show ?case using Cons.IH [of "a @ [(k, v)]"] Cons.prems p by simp
qed simp

lemma distinct_dict_merge: "distinct (map fst a) \<Longrightarrow> distinct (map fst (dict_merge a b))"
  unfolding dict_merge_def
  by (induction b arbitrary: a) (auto simp: distinct_update)

section \<open>Writing\<close>

definition hex_digit :: "nat \<Rightarrow> char" where
  "hex_digit d = char_of (if d < 10 then 48 + d else 87 + d)"

text \<open>\<^verbatim>\<open>ensure_ascii\<close>: everything outside the printable ASCII range is escaped.\<close>

definition esc_char :: "char \<Rightarrow> string" where
  "esc_char c =
     (if c = CHR 0x22 then [CHR 0x5C, CHR 0x22]
      else if c = CHR 0x5C then [CHR 0x5C, CHR 0x5C]
      else if c = LF then [CHR 0x5C, CHR ''n'']
      else if c = CR then [CHR 0x5C, CHR ''r'']
      else if c = CHR 0x09 then [CHR 0x5C, CHR ''t'']
      else if c = CHR 0x0C then [CHR 0x5C, CHR ''f'']
      else if c = CHR 0x08 then [CHR 0x5C, CHR ''b'']
      else if ord_of c < 32 \<or> 126 < ord_of c
        then [CHR 0x5C, CHR ''u'', CHR ''0'', CHR ''0'', hex_digit (ord_of c div 16), hex_digit (ord_of c mod 16)]
      else [c])"

definition quote :: "string \<Rightarrow> string" where
  "quote s = CHR 0x22 # concat (map esc_char s) @ [CHR 0x22]"

fun dumps :: "(rat \<Rightarrow> string) \<Rightarrow> json \<Rightarrow> string"
  and dumps_items :: "(rat \<Rightarrow> string) \<Rightarrow> json list \<Rightarrow> string"
  and dumps_members :: "(rat \<Rightarrow> string) \<Rightarrow> dict \<Rightarrow> string" where
  "dumps fr JNull = ''null''"
| "dumps fr (JBool b) = (if b then ''true'' else ''false'')"
| "dumps fr (JInt i) = show_int i"
| "dumps fr (JFloat x) = fr x"
| "dumps fr (JStr s) = quote s"
| "dumps fr (JArr xs) = ''['' @ dumps_items fr xs @ '']''"
| "dumps fr (JObj ms) = ''{'' @ dumps_members fr ms @ ''}''"
| "dumps_items fr [] = []"
| "dumps_items fr [x] = dumps fr x"
| "dumps_items fr (x # y # xs) = dumps fr x @ '', '' @ dumps_items fr (y # xs)"
| "dumps_members fr [] = []"
| "dumps_members fr [(k, v)] = quote k @ '': '' @ dumps fr v"
| "dumps_members fr ((k, v) # m # ms) = quote k @ '': '' @ dumps fr v @ '', '' @ dumps_members fr (m # ms)"

text \<open>\<^verbatim>\<open>json.dumps\<close> raises when the value holds an integer that \<^verbatim>\<open>int.__repr__\<close> refuses to print.\<close>

fun dumpable :: "json \<Rightarrow> bool" where
  "dumpable (JInt i) = (length (show_nat (nat \<bar>i\<bar>)) \<le> int_max_str_digits)"
| "dumpable (JArr xs) = list_all dumpable xs"
| "dumpable (JObj ms) = list_all (\<lambda>m. dumpable (snd m)) ms"
| "dumpable _ = True"

definition int_too_long :: py_exn where
  "int_too_long = Exn ValueErrorC ''Exceeds the limit (4300 digits) for integer string conversion''"

section \<open>Reading\<close>

definition is_json_ws :: "char \<Rightarrow> bool" where
  "is_json_ws c \<longleftrightarrow> c = CHR '' '' \<or> c = CHR 0x09 \<or> c = LF \<or> c = CR"

abbreviation skip_ws :: "string \<Rightarrow> string" where
  "skip_ws \<equiv> dropWhile is_json_ws"

definition hex_val :: "char \<Rightarrow> nat option" where
  "hex_val c = (let n = ord_of c in
     if 48 \<le> n \<and> n \<le> 57 then Some (n - 48)
     else if 97 \<le> n \<and> n \<le> 102 then Some (n - 87)
     else if 65 \<le> n \<and> n \<le> 70 then Some (n - 55) else None)"

definition unescape :: "char \<Rightarrow> char option" where
  "unescape c =
     (if c = CHR 0x22 \<or> c = CHR 0x5C \<or> c = CHR ''/'' then Some c
      else if c = CHR ''n'' then Some LF else if c = CHR ''r'' then Some CR
      else if c = CHR ''t'' then Some (CHR 0x09) else if c = CHR ''f'' then Some (CHR 0x0C)
      else if c = CHR ''b'' then Some (CHR 0x08) else None)"

text \<open>
  The rest of a string literal after its opening quote. \<open>None\<close> is a
  \<^verbatim>\<open>JSONDecodeError\<close>, or a code point of 256 and above, which the model's strings do not
  hold.
\<close>

fun parse_str :: "string \<Rightarrow> (string \<times> string) option" where
  "parse_str [] = None"
| "parse_str (c # r) =
     (if c = CHR 0x22 then Some ([], r)
      else if c = CHR 0x5C then
        (case r of
           [] \<Rightarrow> None
         | e # r' \<Rightarrow>
           (if e = CHR ''u'' then
              (case r' of
                 h1 # h2 # h3 # h4 # r'' \<Rightarrow>
                   (case (hex_val h1, hex_val h2, hex_val h3, hex_val h4) of
                      (Some a, Some b, Some x, Some y) \<Rightarrow>
                        if a = 0 \<and> b = 0
                        then map_option (\<lambda>(t, q). (char_of (16 * x + y) # t, q)) (parse_str r'')
                        else None
                    | _ \<Rightarrow> None)
               | _ \<Rightarrow> None)
            else (case unescape e of
                    None \<Rightarrow> None
                  | Some d \<Rightarrow> map_option (\<lambda>(t, q). (d # t, q)) (parse_str r'))))
      else if ord_of c < 32 then None
      else map_option (\<lambda>(t, q). (c # t, q)) (parse_str r))"

text \<open>\<^verbatim>\<open>(-?(?:0|[1-9]\d*))(\.\d+)?([eE][-+]?\d+)?\<close>: the three groups and the rest.\<close>

definition scan_unsigned :: "string \<Rightarrow> (string \<times> string) option" where
  "scan_unsigned s =
     (case s of
        [] \<Rightarrow> None
      | c # r \<Rightarrow> if c = CHR ''0'' then Some ([c], r)
                 else if is_decimal c then Some (takeWhile is_decimal s, dropWhile is_decimal s)
                 else None)"

definition scan_integer :: "string \<Rightarrow> (string \<times> string) option" where
  "scan_integer s =
     (case s of
        c # r \<Rightarrow> if c = CHR ''-'' then map_option (\<lambda>(a, b). (c # a, b)) (scan_unsigned r) else scan_unsigned s
      | [] \<Rightarrow> None)"

definition scan_frac :: "string \<Rightarrow> string \<times> string" where
  "scan_frac s =
     (case s of
        c # r \<Rightarrow> if c = CHR ''.'' \<and> takeWhile is_decimal r \<noteq> []
                 then (c # takeWhile is_decimal r, dropWhile is_decimal r) else ([], s)
      | [] \<Rightarrow> ([], []))"

definition scan_sign :: "string \<Rightarrow> string \<times> string" where
  "scan_sign s = (case s of c # r \<Rightarrow> if c = CHR ''-'' \<or> c = CHR ''+'' then ([c], r) else ([], s) | [] \<Rightarrow> ([], []))"

definition scan_exp :: "string \<Rightarrow> string \<times> string" where
  "scan_exp s =
     (case s of
        c # r \<Rightarrow> let (sg, d) = scan_sign r in
                 if (c = CHR ''e'' \<or> c = CHR ''E'') \<and> takeWhile is_decimal d \<noteq> []
                 then (c # sg @ takeWhile is_decimal d, dropWhile is_decimal d) else ([], s)
      | [] \<Rightarrow> ([], []))"

definition scan_number :: "string \<Rightarrow> (string \<times> string \<times> string \<times> string) option" where
  "scan_number s =
     (case scan_integer s of
        None \<Rightarrow> None
      | Some (i, r) \<Rightarrow> let (f, r1) = scan_frac r; (e, r2) = scan_exp r1 in Some (i, f, e, r2))"

definition parse_int :: "string \<Rightarrow> int option" where
  "parse_int i =
     (let d = (case i of c # r \<Rightarrow> if c = CHR ''-'' then r else i | [] \<Rightarrow> []) in
      if int_max_str_digits < length d then None
      else Some (if i \<noteq> d then - int (dec_val d) else int (dec_val d)))"

definition parse_number :: "(string \<Rightarrow> rat option) \<Rightarrow> string \<Rightarrow> (json \<times> string) option" where
  "parse_number fp s =
     (case scan_number s of
        None \<Rightarrow> None
      | Some (i, f, e, r) \<Rightarrow>
          if f \<noteq> [] \<or> e \<noteq> [] then map_option (\<lambda>x. (JFloat x, r)) (fp (i @ f @ e))
          else map_option (\<lambda>x. (JInt x, r)) (parse_int i))"

text \<open>
  \<^verbatim>\<open>scan_once\<close> with its array and object loops. The fuel bounds the nesting of calls;
  \<open>parse_fuel_enough\<close> below shows that twice the length of the text never runs out.
\<close>

fun parse_value :: "(string \<Rightarrow> rat option) \<Rightarrow> nat \<Rightarrow> string \<Rightarrow> (json \<times> string) option"
  and parse_items :: "(string \<Rightarrow> rat option) \<Rightarrow> nat \<Rightarrow> string \<Rightarrow> (json list \<times> string) option"
  and parse_members :: "(string \<Rightarrow> rat option) \<Rightarrow> nat \<Rightarrow> string \<Rightarrow> (dict \<times> string) option" where
  "parse_value fp 0 s = None"
| "parse_value fp (Suc n) s =
     (case s of
        [] \<Rightarrow> None
      | c # r \<Rightarrow>
        if c = CHR 0x22 then map_option (\<lambda>(t, q). (JStr t, q)) (parse_str r)
        else if c = CHR ''{'' then
          (case skip_ws r of
             [] \<Rightarrow> None
           | d # q \<Rightarrow> if d = CHR ''}'' then Some (JObj [], q)
                      else map_option (\<lambda>(ms, q'). (JObj (foldl (\<lambda>a (k, v). AList.update k v a) [] ms), q'))
                             (parse_members fp n (d # q)))
        else if c = CHR ''['' then
          (case skip_ws r of
             [] \<Rightarrow> None
           | d # q \<Rightarrow> if d = CHR '']'' then Some (JArr [], q)
                      else map_option (\<lambda>(xs, q'). (JArr xs, q')) (parse_items fp n (d # q)))
        else if starts_with s ''null'' then Some (JNull, drop 4 s)
        else if starts_with s ''true'' then Some (JBool True, drop 4 s)
        else if starts_with s ''false'' then Some (JBool False, drop 5 s)
        else parse_number fp s)"
| "parse_items fp 0 s = None"
| "parse_items fp (Suc n) s =
     (case parse_value fp n s of
        None \<Rightarrow> None
      | Some (x, r) \<Rightarrow>
        (case skip_ws r of
           [] \<Rightarrow> None
         | d # q \<Rightarrow> if d = CHR '']'' then Some ([x], q)
                    else if d = CHR '','' then map_option (\<lambda>(xs, q'). (x # xs, q')) (parse_items fp n (skip_ws q))
                    else None))"
| "parse_members fp 0 s = None"
| "parse_members fp (Suc n) s =
     (case s of
        [] \<Rightarrow> None
      | c # s' \<Rightarrow>
        if c \<noteq> CHR 0x22 then None
        else (case parse_str s' of
          None \<Rightarrow> None
        | Some (k, r) \<Rightarrow>
          (case skip_ws r of
             [] \<Rightarrow> None
           | d # q \<Rightarrow>
             if d \<noteq> CHR '':'' then None
             else (case parse_value fp n (skip_ws q) of
               None \<Rightarrow> None
             | Some (v, r') \<Rightarrow>
               (case skip_ws r' of
                  [] \<Rightarrow> None
                | d' # q' \<Rightarrow>
                  if d' = CHR ''}'' then Some ([(k, v)], q')
                  else if d' = CHR '','' then map_option (\<lambda>(ms, z). ((k, v) # ms, z)) (parse_members fp n (skip_ws q'))
                  else None)))))"

definition loads :: "(string \<Rightarrow> rat option) \<Rightarrow> string \<Rightarrow> json option" where
  "loads fp s =
     (case parse_value fp (2 * length s) (skip_ws s) of
        None \<Rightarrow> None
      | Some (j, r) \<Rightarrow> if skip_ws r = [] then Some j else None)"

section \<open>The fuel is enough\<close>

lemma parse_str_shorter: "parse_str s = Some (t, r) \<Longrightarrow> length r < length s"
proof (induction s arbitrary: t r rule: parse_str.induct)
  case (2 c r0)
  then show ?case
    by (fastforce split: if_splits list.splits option.splits prod.splits)
qed simp

lemma scan_integer_shorter: "scan_integer s = Some (i, r) \<Longrightarrow> length r < length s"
proof -
  have u: "scan_unsigned s = Some (i, r) \<Longrightarrow> length r < length s" for s i r
    by (auto simp: scan_unsigned_def le_imp_less_Suc length_dropWhile_le split: list.splits if_splits)
  assume "scan_integer s = Some (i, r)"
  then show ?thesis
    by (auto simp: scan_integer_def dest: u split: list.splits if_splits)
qed

lemma scan_frac_shorter: "scan_frac s = (f, r) \<Longrightarrow> length r \<le> length s"
  by (auto simp: scan_frac_def le_SucI length_dropWhile_le split: list.splits if_splits)

lemma scan_exp_shorter: "scan_exp s = (f, r) \<Longrightarrow> length r \<le> length s"
  by (auto simp: scan_exp_def scan_sign_def le_SucI length_dropWhile_le split: list.splits if_splits prod.splits)

lemma parse_number_shorter: "parse_number fp s = Some (j, r) \<Longrightarrow> length r < length s"
  unfolding parse_number_def scan_number_def
  by (fastforce dest: scan_integer_shorter scan_frac_shorter scan_exp_shorter
      split: option.splits prod.splits if_splits)

text \<open>
  A value that parses with some fuel parses with any fuel from twice the characters it
  consumes on; the same for the rest of an array or object.
\<close>

definition enough :: "(nat \<Rightarrow> string \<Rightarrow> ('a \<times> string) option) \<Rightarrow> nat \<Rightarrow> string \<Rightarrow> bool" where
  "enough p n s \<longleftrightarrow> (\<forall>x r. p n s = Some (x, r) \<longrightarrow> length r < length s
     \<and> (\<forall>m \<ge> 2 * (length s - length r). p m s = Some (x, r)))"


lemma skip_ws_le: "length (skip_ws s) \<le> length s"
  by (rule length_dropWhile_le)

lemma enoughI:
  assumes "\<And>x r. p n s = Some (x, r) \<Longrightarrow> length r < length s \<and>
      (\<forall>m. 2 * (length s - length r) \<le> Suc m \<longrightarrow> p (Suc m) s = Some (x, r))"
  shows "enough p n s"
  unfolding enough_def
proof (intro allI impI)
  fix x r
  assume "p n s = Some (x, r)"
  note a = assms [OF this]
  show "length r < length s \<and> (\<forall>m\<ge>2 * (length s - length r). p m s = Some (x, r))"
  proof (intro conjI allI impI)
    show "length r < length s" using a by simp
    fix m
    assume "2 * (length s - length r) \<le> m"
    with a show "p m s = Some (x, r)" by (cases m) auto
  qed
qed

lemma enoughD:
  assumes "enough p n s" "p n s = Some (x, r)"
  shows "length r < length s" "2 * (length s - length r) \<le> m \<Longrightarrow> p m s = Some (x, r)"
  using assms by (auto simp: enough_def)

lemma enough_atom:
  assumes "parse_value fp (Suc n) (c # t) = Some (x, r)" "c \<noteq> CHR ''{''" "c \<noteq> CHR ''[''"
  shows "length r < length (c # t) \<and> parse_value fp (Suc m) (c # t) = Some (x, r)"
  using assms by (auto split: if_splits dest: parse_str_shorter parse_number_shorter)

lemma enough_value:
  assumes I: "\<And>s. enough (parse_items fp) n s" and M: "\<And>s. enough (parse_members fp) n s"
  shows "enough (parse_value fp) (Suc n) s"
proof (rule enoughI)
  fix x r
  assume e: "parse_value fp (Suc n) s = Some (x, r)"
  then obtain c t where s: "s = c # t" by (cases s) auto
  note le = skip_ws_le [of t]
  consider (atom) "c \<noteq> CHR ''{''" "c \<noteq> CHR ''[''" | (obj) "c = CHR ''{''" | (arr) "c = CHR ''[''" by blast
  then show "length r < length s \<and>
      (\<forall>m. 2 * (length s - length r) \<le> Suc m \<longrightarrow> parse_value fp (Suc m) s = Some (x, r))"
  proof cases
    case atom
    then show ?thesis using enough_atom [of fp n c t x r] e unfolding s by blast
  next
    case obj
    then obtain d q where q: "skip_ws t = d # q" using e s by (auto split: list.splits)
    show ?thesis
    proof (cases "d = CHR ''}''")
      case True
      then show ?thesis using e s obj q le by auto
    next
      case False
      then obtain ms where m: "parse_members fp n (d # q) = Some (ms, r)"
        and x: "x = JObj (foldl (\<lambda>a (k, v). AList.update k v a) [] ms)"
        using e s obj q by auto
      note d = enoughD [OF M m]
      show ?thesis using d s obj q le False x by auto
    qed
  next
    case arr
    then obtain d q where q: "skip_ws t = d # q" using e s by (auto split: list.splits)
    show ?thesis
    proof (cases "d = CHR '']''")
      case True
      then show ?thesis using e s arr q le by auto
    next
      case False
      then obtain xs where m: "parse_items fp n (d # q) = Some (xs, r)" and x: "x = JArr xs"
        using e s arr q by auto
      note d = enoughD [OF I m]
      show ?thesis using d s arr q le False x by auto
    qed
  qed
qed

lemma enough_items:
  assumes V: "\<And>s. enough (parse_value fp) n s" and I: "\<And>s. enough (parse_items fp) n s"
  shows "enough (parse_items fp) (Suc n) s"
proof (rule enoughI)
  fix x r
  assume e: "parse_items fp (Suc n) s = Some (x, r)"
  then obtain v t d q where v: "parse_value fp n s = Some (v, t)" and q: "skip_ws t = d # q"
    by (auto split: option.splits list.splits)
  note dv = enoughD [OF V v] and le = skip_ws_le [of t] skip_ws_le [of q]
  show "length r < length s \<and>
      (\<forall>m. 2 * (length s - length r) \<le> Suc m \<longrightarrow> parse_items fp (Suc m) s = Some (x, r))"
  proof (cases "d = CHR '']''")
    case True
    then show ?thesis using e v q dv le by auto
  next
    case False
    then obtain xs where xs: "parse_items fp n (skip_ws q) = Some (xs, r)"
        and d: "d = CHR '',''" "x = v # xs"
      using e v q by (auto split: if_splits)
    note di = enoughD [OF I xs]
    show ?thesis using d q dv di le by auto
  qed
qed

lemma enough_members:
  assumes V: "\<And>s. enough (parse_value fp) n s" and M: "\<And>s. enough (parse_members fp) n s"
  shows "enough (parse_members fp) (Suc n) s"
proof (rule enoughI)
  fix x r
  assume e: "parse_members fp (Suc n) s = Some (x, r)"
  then obtain s' k t q v u d p where s: "s = CHR 0x22 # s'" and k: "parse_str s' = Some (k, t)"
      and q: "skip_ws t = CHR '':'' # q" and v: "parse_value fp n (skip_ws q) = Some (v, u)"
      and p: "skip_ws u = d # p"
    by (auto split: option.splits list.splits if_splits)
  note dv = enoughD [OF V v] and le = skip_ws_le [of t] skip_ws_le [of q] skip_ws_le [of u]
    skip_ws_le [of p] parse_str_shorter [OF k]
  show "length r < length s \<and>
      (\<forall>m. 2 * (length s - length r) \<le> Suc m \<longrightarrow> parse_members fp (Suc m) s = Some (x, r))"
  proof (cases "d = CHR ''}''")
    case True
    then show ?thesis using e s k v q p dv le by auto
  next
    case False
    then obtain ms where ms: "parse_members fp n (skip_ws p) = Some (ms, r)"
        and d: "d = CHR '',''" "x = (k, v) # ms"
      using e s k v q p by (auto split: if_splits)
    note dm = enoughD [OF M ms]
    show ?thesis using d s k q p dv dm le by auto
  qed
qed

lemma parse_fuel_enough:
  "(\<forall>s. enough (parse_value fp) n s) \<and> (\<forall>s. enough (parse_items fp) n s)
     \<and> (\<forall>s. enough (parse_members fp) n s)"
proof (induction n)
  case 0
  then show ?case by (simp add: enough_def)
next
  case (Suc n)
  then show ?case by (blast intro: enough_value enough_items enough_members)
qed

lemma parse_value_any_fuel:
  assumes "parse_value fp n s = Some (j, r)" "2 * length s \<le> m"
  shows "parse_value fp m s = Some (j, r)"
proof -
  have "enough (parse_value fp) n s" using parse_fuel_enough by blast
  then show ?thesis using assms by (auto simp: enough_def)
qed

text \<open>So \<open>loads\<close> fails only where no amount of fuel would have helped.\<close>

lemma loads_iff:
  "loads fp s = Some j \<longleftrightarrow> (\<exists>n r. parse_value fp n (skip_ws s) = Some (j, r) \<and> skip_ws r = [])"
proof -
  have le: "2 * length (skip_ws s) \<le> 2 * length s" using skip_ws_le [of s] by simp
  show ?thesis
  proof
    assume "loads fp s = Some j"
    then obtain r where "parse_value fp (2 * length s) (skip_ws s) = Some (j, r)" "skip_ws r = []"
      by (auto simp: loads_def simp del: parse_value.simps dropWhile_eq_Nil_conv
          split: option.splits if_splits)
    then show "\<exists>n r. parse_value fp n (skip_ws s) = Some (j, r) \<and> skip_ws r = []"
      by blast
  next
    assume "\<exists>n r. parse_value fp n (skip_ws s) = Some (j, r) \<and> skip_ws r = []"
    then obtain n r where n: "parse_value fp n (skip_ws s) = Some (j, r)" and r: "skip_ws r = []"
      by blast
    show "loads fp s = Some j"
      using parse_value_any_fuel [OF n le] r by (simp add: loads_def del: parse_value.simps)
  qed
qed

section \<open>The round trip\<close>

text \<open>
  What is relied on for a float: its text is a JSON number with a fraction or an exponent,
  and reading it back gives the float. That is documented of \<^verbatim>\<open>float.__repr__\<close> for every
  finite float.
\<close>

definition float_text :: "(rat \<Rightarrow> string) \<Rightarrow> (string \<Rightarrow> rat option) \<Rightarrow> rat \<Rightarrow> bool" where
  "float_text fr fp x \<longleftrightarrow>
     (case scan_number (fr x) of
        None \<Rightarrow> False
      | Some (i, f, e, r) \<Rightarrow> r = [] \<and> (f \<noteq> [] \<or> e \<noteq> []) \<and> i @ f @ e = fr x \<and> fp (fr x) = Some x)"

lemma float_textE:
  assumes "float_text fr fp x"
  obtains i f e where "scan_number (fr x) = Some (i, f, e, [])" "i @ f @ e = fr x"
    "f \<noteq> [] \<or> e \<noteq> []" "fp (fr x) = Some x"
  using assms by (auto simp: float_text_def split: option.splits)

text \<open>
  The documents the round trip is about: dicts have no repeated key, integers have at
  most the 4300 digits \<^verbatim>\<open>str(int)\<close> prints, floats have a text.
\<close>

fun json_ok :: "(rat \<Rightarrow> string) \<Rightarrow> (string \<Rightarrow> rat option) \<Rightarrow> json \<Rightarrow> bool" where
  "json_ok fr fp (JInt i) = (length (show_nat (nat \<bar>i\<bar>)) \<le> int_max_str_digits)"
| "json_ok fr fp (JFloat x) = float_text fr fp x"
| "json_ok fr fp (JArr xs) = list_all (json_ok fr fp) xs"
| "json_ok fr fp (JObj ms) = (distinct (map fst ms) \<and> list_all (\<lambda>m. json_ok fr fp (snd m)) ms)"
| "json_ok fr fp _ = True"

lemma json_ok_dumpable: "json_ok fr fp j \<Longrightarrow> dumpable j"
  by (induction j rule: dumpable.induct) (auto simp: list_all_iff)

lemma hex_val_hex_digit [simp]: "d < 16 \<Longrightarrow> hex_val (hex_digit d) = Some d"
  by (auto simp: hex_val_def hex_digit_def Let_def)

lemma unescape_simps [simp]:
  "unescape (CHR 0x22) = Some (CHR 0x22)" "unescape (CHR 0x5C) = Some (CHR 0x5C)"
  "unescape (CHR ''n'') = Some LF" "unescape (CHR ''r'') = Some CR"
  "unescape (CHR ''t'') = Some (CHR 0x09)" "unescape (CHR ''f'') = Some (CHR 0x0C)"
  "unescape (CHR ''b'') = Some (CHR 0x08)"
  by (simp_all add: unescape_def)

lemma hex_val_0 [simp]: "hex_val (CHR ''0'') = Some 0"
  by (simp add: hex_val_def)

lemma parse_str_esc_char:
  "parse_str (esc_char c @ t) = map_option (\<lambda>(a, q). (c # a, q)) (parse_str t)"
proof -
  have "16 * (ord_of c div 16) + ord_of c mod 16 = ord_of c" by simp
  moreover have "ord_of c div 16 < 16"
    using ord_of_less_256 [of c] by (simp only: less_mult_imp_div_less)
  ultimately show ?thesis
    by (auto simp: esc_char_def)
qed

lemma parse_str_quote: "parse_str (concat (map esc_char s) @ CHR 0x22 # rest) = Some (s, rest)"
  by (induction s) (auto simp: parse_str_esc_char)

definition delim :: "string \<Rightarrow> bool" where
  "delim r \<longleftrightarrow> (case r of [] \<Rightarrow> True | c # _ \<Rightarrow> c = CHR '','' \<or> c = CHR '']'' \<or> c = CHR ''}'')"

lemma delim_simps [simp]:
  "delim []" "delim (CHR '','' # r)" "delim (CHR '']'' # r)" "delim (CHR ''}'' # r)"
  by (simp_all add: delim_def)

lemma delim_decimal:
  assumes "delim r"
  shows "takeWhile is_decimal (s @ r) = takeWhile is_decimal s"
    "dropWhile is_decimal (s @ r) = dropWhile is_decimal s @ r"
proof -
  have r: "takeWhile is_decimal r = []" "dropWhile is_decimal r = r"
    using assms by (auto simp: delim_def is_decimal_def split: list.splits)
  show "takeWhile is_decimal (s @ r) = takeWhile is_decimal s"
    by (induction s) (simp_all add: r)
  show "dropWhile is_decimal (s @ r) = dropWhile is_decimal s @ r"
    by (induction s) (simp_all add: r)
qed

lemma scan_integer_append:
  assumes "delim t"
  shows "scan_integer (s @ t) = map_option (\<lambda>(a, b). (a, b @ t)) (scan_integer s)"
proof -
  have u: "scan_unsigned (u @ t) = map_option (\<lambda>(a, b). (a, b @ t)) (scan_unsigned u)" for u
  proof (cases u)
    case Nil
    then show ?thesis
      using assms by (auto simp: scan_unsigned_def delim_def is_decimal_def split: list.splits)
  next
    case (Cons c r)
    then show ?thesis
      using delim_decimal [OF assms, of u] by (auto simp: scan_unsigned_def)
  qed
  show ?thesis
  proof (cases s)
    case Nil
    then show ?thesis
      using assms u [of "[]"]
      by (auto simp: scan_integer_def scan_unsigned_def delim_def is_decimal_def split: list.splits)
  next
    case (Cons c r)
    then show ?thesis
      using u [of r] u [of s] by (auto simp: scan_integer_def option.map_comp comp_def case_prod_beta)
  qed
qed

lemma scan_frac_append:
  "delim t \<Longrightarrow> scan_frac (s @ t) = (case scan_frac s of (a, b) \<Rightarrow> (a, b @ t))"
  by (cases s) (auto simp: scan_frac_def delim_decimal delim_def split: list.splits)

lemma scan_sign_append:
  "delim t \<Longrightarrow> scan_sign (s @ t) = (case scan_sign s of (a, b) \<Rightarrow> (a, b @ t))"
  by (cases s) (auto simp: scan_sign_def delim_def split: list.splits)

lemma scan_exp_append:
  assumes "delim t"
  shows "scan_exp (s @ t) = (case scan_exp s of (a, b) \<Rightarrow> (a, b @ t))"
proof (cases s)
  case Nil
  then show ?thesis
    using assms by (auto simp: scan_exp_def delim_def split: list.splits prod.splits)
next
  case (Cons c r)
  then show ?thesis
    using scan_sign_append [OF assms, of r] delim_decimal [OF assms]
    by (auto simp: scan_exp_def split: prod.splits)
qed

lemma scan_number_append:
  assumes "delim t"
  shows "scan_number (s @ t) = map_option (\<lambda>(i, f, e, r). (i, f, e, r @ t)) (scan_number s)"
  by (auto simp: scan_number_def scan_integer_append [OF assms] scan_frac_append [OF assms]
      scan_exp_append [OF assms] split: option.splits prod.splits)

text \<open>A number's text starts with a minus sign or a digit, so \<open>parse_value\<close> takes it for a number.\<close>

lemma scan_number_hd:
  assumes "scan_number s = Some z"
  obtains c t where "s = c # t" "c = CHR ''-'' \<or> is_decimal c"
  using assms that
  by (auto simp: scan_number_def scan_integer_def scan_unsigned_def is_decimal_def
      split: option.splits list.splits if_splits)

lemma parse_value_number:
  assumes "scan_number s = Some z"
  shows "parse_value fp (Suc n) s = parse_number fp s"
proof -
  obtain c t where s: "s = c # t" and c: "c = CHR ''-'' \<or> is_decimal c"
    using scan_number_hd [OF assms] .
  then have "c \<noteq> CHR 0x22" "c \<noteq> CHR ''{''" "c \<noteq> CHR ''[''" "c \<noteq> CHR ''n''" "c \<noteq> CHR ''t''"
      "c \<noteq> CHR ''f''"
    by (auto simp: is_decimal_def)
  then show ?thesis by (simp add: s)
qed

lemma hd_show_nat: "0 < n \<Longrightarrow> hd (show_nat n) \<noteq> CHR ''0''"
proof (induction n rule: show_nat.induct)
  case (1 n)
  show ?case
  proof (cases "n < 10")
    case True
    then show ?thesis using 1 by (subst show_nat.simps) (simp add: digit_char_eq_0)
  next
    case False
    with 1 show ?thesis by (subst show_nat.simps) simp
  qed
qed

lemma scan_unsigned_show_nat: "scan_unsigned (show_nat n) = Some (show_nat n, [])"
proof -
  obtain c t where s: "show_nat n = c # t" by (cases "show_nat n") auto
  have d: "\<forall>x \<in> set (show_nat n). is_decimal x"
    using show_nat_decimal [of n] by (simp add: list_all_iff)
  have "c = CHR ''0'' \<Longrightarrow> n = 0" using hd_show_nat [of n] s by (cases n) auto
  moreover have "show_nat 0 = [CHR ''0'']" by (simp add: show_nat.simps digit_char_0)
  ultimately have "c = CHR ''0'' \<Longrightarrow> t = []" using s by auto
  then show ?thesis
    using d by (auto simp: scan_unsigned_def s takeWhile_eq_all_conv)
qed

lemma scan_number_show_int: "scan_number (show_int i) = Some (show_int i, [], [], [])"
proof -
  obtain c t where s: "show_nat (nat i) = c # t" by (cases "show_nat (nat i)") auto
  have "is_decimal c" using show_nat_decimal [of "nat i"] s by simp
  then have "c \<noteq> CHR ''-''" by (auto simp: is_decimal_def)
  then have "scan_integer (show_int i) = Some (show_int i, [])"
    using scan_unsigned_show_nat [of "nat i"] scan_unsigned_show_nat [of "nat (- i)"]
    by (auto simp: show_int_def scan_integer_def s)
  then show ?thesis by (simp add: scan_number_def scan_frac_def scan_exp_def)
qed

lemma parse_int_show_int:
  assumes "length (show_nat (nat \<bar>i\<bar>)) \<le> int_max_str_digits"
  shows "parse_int (show_int i) = Some i"
proof -
  obtain c t where s: "show_nat (nat i) = c # t" by (cases "show_nat (nat i)") auto
  have "is_decimal c" using show_nat_decimal [of "nat i"] s by simp
  then have c: "c \<noteq> CHR ''-''" by (auto simp: is_decimal_def)
  show ?thesis
  proof (cases "i < 0")
    case True
    then show ?thesis using assms by (simp add: parse_int_def show_int_def Let_def)
  next
    case False
    then have "show_int i = c # t" "dec_val (c # t) = nat i"
      using s dec_val_show_nat [of "nat i"] by (simp_all add: show_int_def)
    then show ?thesis using assms False c s by (simp add: parse_int_def Let_def)
  qed
qed

lemma parse_value_float:
  assumes "float_text fr fp x" "delim t"
  shows "parse_value fp (Suc n) (fr x @ t) = Some (JFloat x, t)"
proof -
  obtain i f e where s: "scan_number (fr x) = Some (i, f, e, [])" and eq: "i @ f @ e = fr x"
      and ne: "f \<noteq> [] \<or> e \<noteq> []" and p: "fp (fr x) = Some x"
    using assms(1) by (rule float_textE)
  have st: "scan_number (fr x @ t) = Some (i, f, e, t)"
    by (simp add: scan_number_append [OF assms(2)] s)
  show ?thesis
    using ne p by (simp add: parse_value_number [OF st] parse_number_def st eq del: parse_value.simps)
qed

lemma parse_value_int:
  assumes "length (show_nat (nat \<bar>i\<bar>)) \<le> int_max_str_digits" "delim t"
  shows "parse_value fp (Suc n) (show_int i @ t) = Some (JInt i, t)"
proof -
  have st: "scan_number (show_int i @ t) = Some (show_int i, [], [], t)"
    by (simp add: scan_number_append [OF assms(2)] scan_number_show_int)
  show ?thesis
    by (simp add: parse_value_number [OF st] parse_number_def st parse_int_show_int [OF assms(1)]
        del: parse_value.simps)
qed

lemma is_json_ws_simps [simp]:
  "is_json_ws (CHR '' '')" "\<not> is_json_ws (CHR 0x22)" "\<not> is_json_ws (CHR '','')"
  "\<not> is_json_ws (CHR '':'')" "\<not> is_json_ws (CHR '']'')" "\<not> is_json_ws (CHR ''}'')"
  by (simp_all add: is_json_ws_def LF_def CR_def)

lemma number_char:
  "c = CHR ''-'' \<or> is_decimal c \<Longrightarrow> \<not> is_json_ws c \<and> c \<noteq> CHR '']'' \<and> c \<noteq> CHR ''}''"
  by (auto simp: is_json_ws_def is_decimal_def LF_def CR_def)

text \<open>A printed document starts with a character that is neither blank nor a closing bracket.\<close>

lemma dumps_hd:
  assumes "json_ok fr fp j"
  obtains c t where "dumps fr j = c # t" "\<not> is_json_ws c" "c \<noteq> CHR '']''" "c \<noteq> CHR ''}''"
proof (cases j)
  case (JInt i)
  obtain c t where "show_int i = c # t" "c = CHR ''-'' \<or> is_decimal c"
    using scan_number_hd [OF scan_number_show_int [of i]] .
  then show ?thesis using that number_char [of c] JInt by simp
next
  case (JFloat x)
  then obtain z where "scan_number (fr x) = Some z"
    using assms by (auto simp: float_text_def split: option.splits)
  then obtain c t where "fr x = c # t" "c = CHR ''-'' \<or> is_decimal c"
    by (rule scan_number_hd)
  then show ?thesis using that number_char [of c] JFloat by simp
next
  case (JBool b)
  then show ?thesis using that by (cases b) (auto simp: is_json_ws_def LF_def CR_def)
qed (use that in \<open>auto simp: is_json_ws_def quote_def LF_def CR_def\<close>)

lemma skip_ws_dumps: "json_ok fr fp j \<Longrightarrow> skip_ws (dumps fr j @ t) = dumps fr j @ t"
  by (erule dumps_hd [of fr fp j]) simp

lemma skip_ws_dumps_items:
  "json_ok fr fp x \<Longrightarrow> skip_ws (dumps_items fr (x # xs) @ t) = dumps_items fr (x # xs) @ t"
  by (cases xs) (use skip_ws_dumps in auto)

lemma skip_ws_quote [simp]: "skip_ws (quote s @ t) = quote s @ t"
  by (simp add: quote_def)

text \<open>
  With enough fuel a printed value, and the elements or members of a printed array or
  object with their closing bracket, parse back.
\<close>

definition eventually_parses :: "(nat \<Rightarrow> string \<Rightarrow> ('a \<times> string) option) \<Rightarrow> string \<Rightarrow> 'a \<Rightarrow> string \<Rightarrow> bool" where
  "eventually_parses p s x r \<longleftrightarrow> (\<exists>n. \<forall>m \<ge> n. p m s = Some (x, r))"

lemma eventually_parsesI: "(\<And>m. n \<le> m \<Longrightarrow> p (Suc m) s = Some (x, r)) \<Longrightarrow> eventually_parses p s x r"
  unfolding eventually_parses_def
  by (rule exI [of _ "Suc n"]) (metis Suc_le_D Suc_le_mono)

lemma eventually_parses2:
  assumes "eventually_parses p s x r" "eventually_parses q t y u"
  obtains n where "\<And>m. n \<le> m \<Longrightarrow> p m s = Some (x, r)" "\<And>m. n \<le> m \<Longrightarrow> q m t = Some (y, u)"
proof -
  obtain a b where "\<forall>m \<ge> a. p m s = Some (x, r)" "\<forall>m \<ge> b. q m t = Some (y, u)"
    using assms by (auto simp: eventually_parses_def)
  then show ?thesis using that [of "max a b"] by simp
qed

lemma eventually_parsesE:
  assumes "eventually_parses p s x r"
  obtains n where "\<And>m. n \<le> m \<Longrightarrow> p m s = Some (x, r)"
  using assms by (auto simp: eventually_parses_def)

lemma parse_members_step:
  "parse_members fp (Suc m) (quote k @ CHR '':'' # CHR '' '' # t) =
     (case parse_value fp m (skip_ws t) of
        None \<Rightarrow> None
      | Some (v, r') \<Rightarrow>
        (case skip_ws r' of
           [] \<Rightarrow> None
         | d' # q' \<Rightarrow>
           if d' = CHR ''}'' then Some ([(k, v)], q')
           else if d' = CHR '','' then map_option (\<lambda>(ms, z). ((k, v) # ms, z)) (parse_members fp m (skip_ws q'))
           else None))"
  by (simp add: quote_def parse_str_quote)

text \<open>The cases with a part to parse first: what is between the brackets, an element, a member.\<close>

lemma array_parses:
  assumes "eventually_parses (parse_items fp) (dumps_items fr xs @ '']'' @ t) xs t" "xs \<noteq> []" "list_all (json_ok fr fp) xs"
  shows "eventually_parses (parse_value fp) (dumps fr (JArr xs) @ t) (JArr xs) t"
proof -
  obtain y ys where xs: "xs = y # ys" using assms(2) by (cases xs) auto
  obtain n where n: "\<And>m. n \<le> m \<Longrightarrow> parse_items fp m (dumps_items fr xs @ '']'' @ t) = Some (xs, t)"
    using eventually_parsesE [OF assms(1)] by blast
  have y: "json_ok fr fp y" using assms(3) xs by simp
  obtain c u where u: "dumps_items fr xs = c # u" "\<not> is_json_ws c" "c \<noteq> CHR '']''"
    using dumps_hd [OF y] xs by (metis append_Cons dumps_items.simps(2,3) list.exhaust)
  show ?thesis by (intro eventually_parsesI [of n]) (use n u in simp)
qed

lemma object_parses:
  assumes "eventually_parses (parse_members fp) (dumps_members fr ms @ ''}'' @ t) ms t" "ms \<noteq> []" "distinct (map fst ms)"
  shows "eventually_parses (parse_value fp) (dumps fr (JObj ms) @ t) (JObj ms) t"
proof -
  obtain y ys where ms: "ms = y # ys" using assms(2) by (cases ms) auto
  obtain n where n: "\<And>m. n \<le> m \<Longrightarrow> parse_members fp m (dumps_members fr ms @ ''}'' @ t) = Some (ms, t)"
    using eventually_parsesE [OF assms(1)] by blast
  obtain u where u: "dumps_members fr ms = CHR 0x22 # u"
    using ms by (cases y; cases ys) (auto simp: quote_def)
  have "foldl (\<lambda>a (k, v). AList.update k v a) [] ms = ms"
    using foldl_update_fresh [of "[]" ms] assms(3) by simp
  then show ?thesis by (intro eventually_parsesI [of n]) (use n u in simp)
qed

lemma item_parses:
  assumes "eventually_parses (parse_value fp) (dumps fr x @ '']'' @ t) x ('']'' @ t)"
  shows "eventually_parses (parse_items fp) (dumps fr x @ '']'' @ t) [x] t"
proof -
  obtain n where "\<And>m. n \<le> m \<Longrightarrow> parse_value fp m (dumps fr x @ '']'' @ t) = Some (x, '']'' @ t)"
    using eventually_parsesE [OF assms] by blast
  then show ?thesis by (intro eventually_parsesI [of n]) (simp del: parse_value.simps)
qed

lemma more_items_parse:
  assumes "eventually_parses (parse_value fp) (dumps fr x @ '', '' @ dumps_items fr (y # xs) @ '']'' @ t) x
      ('', '' @ dumps_items fr (y # xs) @ '']'' @ t)"
    and "eventually_parses (parse_items fp) (dumps_items fr (y # xs) @ '']'' @ t) (y # xs) t" "json_ok fr fp y"
  shows "eventually_parses (parse_items fp) (dumps fr x @ '', '' @ dumps_items fr (y # xs) @ '']'' @ t) (x # y # xs) t"
proof -
  obtain n where
      "\<And>m. n \<le> m \<Longrightarrow> parse_value fp m (dumps fr x @ '', '' @ dumps_items fr (y # xs) @ '']'' @ t)
        = Some (x, '', '' @ dumps_items fr (y # xs) @ '']'' @ t)"
      "\<And>m. n \<le> m \<Longrightarrow> parse_items fp m (dumps_items fr (y # xs) @ '']'' @ t) = Some (y # xs, t)"
    using eventually_parses2 [OF assms(1,2)] by blast
  then show ?thesis by (intro eventually_parsesI [of n]) (use skip_ws_dumps_items [OF assms(3)] in simp)
qed

lemma member_parses:
  assumes "eventually_parses (parse_value fp) (dumps fr v @ ''}'' @ t) v (''}'' @ t)" "json_ok fr fp v"
  shows "eventually_parses (parse_members fp) (quote k @ '': '' @ dumps fr v @ ''}'' @ t) [(k, v)] t"
proof -
  obtain n where "\<And>m. n \<le> m \<Longrightarrow> parse_value fp m (dumps fr v @ ''}'' @ t) = Some (v, ''}'' @ t)"
    using eventually_parsesE [OF assms(1)] by blast
  then show ?thesis
    by (intro eventually_parsesI [of n])
       (use skip_ws_dumps [OF assms(2)] in \<open>simp add: parse_members_step del: parse_members.simps\<close>)
qed

lemma more_members_parse:
  assumes "eventually_parses (parse_value fp) (dumps fr v @ '', '' @ dumps_members fr (p # ms) @ ''}'' @ t) v
      ('', '' @ dumps_members fr (p # ms) @ ''}'' @ t)"
    and "eventually_parses (parse_members fp) (dumps_members fr (p # ms) @ ''}'' @ t) (p # ms) t" "json_ok fr fp v"
  shows "eventually_parses (parse_members fp) (quote k @ '': '' @ dumps fr v @ '', '' @ dumps_members fr (p # ms) @ ''}'' @ t)
    ((k, v) # p # ms) t"
proof -
  obtain n where n:
      "\<And>m. n \<le> m \<Longrightarrow> parse_value fp m (dumps fr v @ '', '' @ dumps_members fr (p # ms) @ ''}'' @ t)
        = Some (v, '', '' @ dumps_members fr (p # ms) @ ''}'' @ t)"
      "\<And>m. n \<le> m \<Longrightarrow> parse_members fp m (dumps_members fr (p # ms) @ ''}'' @ t) = Some (p # ms, t)"
    using eventually_parses2 [OF assms(1,2)] by blast
  obtain u where u: "dumps_members fr (p # ms) = CHR 0x22 # u"
    by (cases p; cases ms) (auto simp: quote_def)
  show ?thesis
    by (intro eventually_parsesI [of n])
       (use n in \<open>simp add: parse_members_step u skip_ws_dumps [OF assms(3)] del: parse_members.simps\<close>)
qed

lemma dumps_parses:
  "json_ok fr fp j \<Longrightarrow> delim t \<Longrightarrow> eventually_parses (parse_value fp) (dumps fr j @ t) j t"
  "list_all (json_ok fr fp) xs \<Longrightarrow> xs \<noteq> [] \<Longrightarrow>
     eventually_parses (parse_items fp) (dumps_items fr xs @ '']'' @ t) xs t"
  "list_all (\<lambda>m. json_ok fr fp (snd m)) ms \<Longrightarrow> ms \<noteq> [] \<Longrightarrow>
     eventually_parses (parse_members fp) (dumps_members fr ms @ ''}'' @ t) ms t"
proof (induction fr j and fr xs and fr ms arbitrary: t and t and t
    rule: dumps_dumps_items_dumps_members.induct)
  case (3 fr i)
  then show ?case
    by (intro eventually_parsesI) (simp add: parse_value_int del: parse_value.simps)
next
  case (4 fr x)
  then show ?case
    by (intro eventually_parsesI) (simp add: parse_value_float del: parse_value.simps)
next
  case (5 fr s)
  show ?case by (intro eventually_parsesI) (simp add: quote_def parse_str_quote)
next
  case (6 fr xs)
  show ?case
  proof (cases "xs = []")
    case True
    then show ?thesis by (intro eventually_parsesI) simp
  next
    case False
    then show ?thesis using "6.prems" array_parses [OF "6.IH" [of t]] by simp
  qed
next
  case (7 fr ms)
  show ?case
  proof (cases "ms = []")
    case True
    then show ?thesis by (intro eventually_parsesI) simp
  next
    case False
    then show ?thesis using "7.prems" object_parses [OF "7.IH" [of t]] by simp
  qed
next
  case (9 fr x)
  then show ?case using item_parses [OF "9.IH" [of "'']'' @ t"]] by simp
next
  case (10 fr x y xs)
  then show ?case using more_items_parse [OF "10.IH"(1) "10.IH"(2)] by simp
next
  case (12 fr k v)
  then show ?case using member_parses [OF "12.IH" [of "''}'' @ t"]] by simp
next
  case (13 fr k v p ms)
  then show ?case using more_members_parse [OF "13.IH"(1) "13.IH"(2)] by simp
qed (auto intro!: eventually_parsesI)

theorem loads_dumps: "json_ok fr fp j \<Longrightarrow> loads fp (dumps fr j) = Some j"
proof -
  assume ok: "json_ok fr fp j"
  obtain n where n: "parse_value fp n (dumps fr j) = Some (j, [])"
    using eventually_parsesE [OF dumps_parses(1) [OF ok, of "[]"]] by auto
  have "skip_ws (dumps fr j) = dumps fr j" using skip_ws_dumps [OF ok, of "[]"] by simp
  then show ?thesis
    unfolding loads_iff using n by (intro exI [of _ n] exI [of _ "[]"]) simp
qed

text \<open>Printed JSON is printable ASCII, so a line of it holds no line break.\<close>

definition printable :: "char \<Rightarrow> bool" where
  "printable c \<longleftrightarrow> 32 \<le> ord_of c \<and> ord_of c \<le> 126"

lemma printable_decimal: "is_decimal c \<Longrightarrow> printable c"
  by (auto simp: is_decimal_def printable_def Let_def)

lemma printable_hex_digit: "d < 16 \<Longrightarrow> printable (hex_digit d)"
  by (simp add: printable_def hex_digit_def)

lemma printable_esc_char: "c' \<in> set (esc_char c) \<Longrightarrow> printable c'"
proof -
  have "ord_of c div 16 < 16"
    using ord_of_less_256 [of c] by (simp only: less_mult_imp_div_less)
  then show "c' \<in> set (esc_char c) \<Longrightarrow> printable c'"
    by (auto simp: esc_char_def printable_hex_digit split: if_splits) (auto simp: printable_def)
qed

lemma printable_quote: "c \<in> set (quote s) \<Longrightarrow> printable c"
  by (auto simp: quote_def dest: printable_esc_char) (auto simp: printable_def)

lemma printable_show_int: "c \<in> set (show_int i) \<Longrightarrow> printable c"
  using show_nat_decimal [of "nat i"] show_nat_decimal [of "nat (- i)"]
  by (auto simp: show_int_def list_all_iff dest: printable_decimal split: if_splits)
     (auto simp: printable_def)

lemma printable_scan_number:
  assumes "scan_number s = Some (i, f, e, r)" "c \<in> set (i @ f @ e)"
  shows "printable c"
proof -
  have pc: "printable (CHR ''-'')" "printable (CHR ''+'')" "printable (CHR ''.'')"
    "printable (CHR ''e'')" "printable (CHR ''E'')" "printable (CHR ''0'')"
    by (simp_all add: printable_def)
  have u: "scan_unsigned u = Some (a, b) \<Longrightarrow> c \<in> set a \<Longrightarrow> printable c" for u a b
    using pc by (auto simp: scan_unsigned_def split: list.splits if_splits)
      (metis set_takeWhileD printable_decimal)+
  have "scan_integer u = Some (a, b) \<Longrightarrow> c \<in> set a \<Longrightarrow> printable c" for u a b
    using pc by (auto simp: scan_integer_def dest: u split: list.splits if_splits)
  moreover have "scan_frac u = (a, b) \<Longrightarrow> c \<in> set a \<Longrightarrow> printable c" for u a b
    using pc by (auto simp: scan_frac_def split: list.splits if_splits)
      (metis set_takeWhileD printable_decimal)+
  moreover have "scan_exp u = (a, b) \<Longrightarrow> c \<in> set a \<Longrightarrow> printable c" for u a b
    using pc by (auto simp: scan_exp_def scan_sign_def split: list.splits if_splits prod.splits)
      (metis set_takeWhileD printable_decimal)+
  ultimately show ?thesis
    using assms unfolding scan_number_def by (auto split: option.splits prod.splits)
qed

lemma dumps_printable:
  "json_ok fr fp j \<Longrightarrow> c \<in> set (dumps fr j) \<Longrightarrow> printable c"
  "list_all (json_ok fr fp) xs \<Longrightarrow> c \<in> set (dumps_items fr xs) \<Longrightarrow> printable c"
  "list_all (\<lambda>m. json_ok fr fp (snd m)) ms \<Longrightarrow> c \<in> set (dumps_members fr ms) \<Longrightarrow> printable c"
proof (induction fr j and fr xs and fr ms rule: dumps_dumps_items_dumps_members.induct)
  case (4 fr x)
  then have "float_text fr fp x" by simp
  then obtain i f e where "scan_number (fr x) = Some (i, f, e, [])" "i @ f @ e = fr x"
    by (rule float_textE)
  moreover have "c \<in> set (fr x)" using 4 by simp
  ultimately show ?case by (metis printable_scan_number)
qed (auto simp: printable_show_int dest: printable_quote split: if_splits,
     auto simp: printable_def)

end
