(* ===== verification/Events.thy ===== *)
theory Events
  imports Json
begin

text \<open>
  \<^verbatim>\<open>halt/events.py\<close>: the event every fuse produces, the supervisor consumes and the
  sinks write. \<^verbatim>\<open>uuid.uuid4()\<close> and \<^verbatim>\<open>time.time()\<close>, the defaults of \<^verbatim>\<open>event_id\<close> and
  \<^verbatim>\<open>ts\<close>, are inputs: a \<open>stamp\<close> is what the two calls returned for one event.
\<close>

datatype severity = INFO | WARN | KILL

datatype fuse_kind = NETWORK | CREDENTIAL | WATCHDOG

fun severity_value :: "severity \<Rightarrow> string" where
  "severity_value INFO = ''info''"
| "severity_value WARN = ''warn''"
| "severity_value KILL = ''kill''"

fun fuse_value :: "fuse_kind \<Rightarrow> string" where
  "fuse_value NETWORK = ''network''"
| "fuse_value CREDENTIAL = ''credential''"
| "fuse_value WATCHDOG = ''watchdog''"

text \<open>The order of the severities: only \<open>KILL\<close>, the greatest, demands a kill.\<close>

instantiation severity :: linorder
begin

fun severity_rank :: "severity \<Rightarrow> nat" where
  "severity_rank INFO = 0" | "severity_rank WARN = 1" | "severity_rank KILL = 2"

definition less_eq_severity :: "severity \<Rightarrow> severity \<Rightarrow> bool" where
  "a \<le> b \<longleftrightarrow> severity_rank a \<le> severity_rank b"

definition less_severity :: "severity \<Rightarrow> severity \<Rightarrow> bool" where
  "a < b \<longleftrightarrow> severity_rank a < severity_rank b"

instance
proof
  fix a b :: severity
  show "a \<le> b \<Longrightarrow> b \<le> a \<Longrightarrow> a = b"
    by (cases a; cases b) (simp_all add: less_eq_severity_def)
qed (auto simp: less_eq_severity_def less_severity_def)

end

lemma KILL_top [simp]: "KILL \<le> s \<longleftrightarrow> s = KILL" "s \<le> KILL"
  by (cases s; simp add: less_eq_severity_def)+

text \<open>\<^verbatim>\<open>Severity(v)\<close> and \<^verbatim>\<open>FuseKind(v)\<close>: look a member up by its value.\<close>

definition severity_of :: "json \<Rightarrow> py_exn + severity" where
  "severity_of v =
     (if v = JStr ''info'' then Inr INFO else if v = JStr ''warn'' then Inr WARN
      else if v = JStr ''kill'' then Inr KILL else Inl (Exn ValueErrorC ''is not a valid Severity''))"

definition fuse_kind_of :: "json \<Rightarrow> py_exn + fuse_kind" where
  "fuse_kind_of v =
     (if v = JStr ''network'' then Inr NETWORK else if v = JStr ''credential'' then Inr CREDENTIAL
      else if v = JStr ''watchdog'' then Inr WATCHDOG else Inl (Exn ValueErrorC ''is not a valid FuseKind''))"

record trip_event =
  te_fuse :: fuse_kind
  te_severity :: severity
  te_reason :: string
  te_evidence :: dict
  te_org_id :: string
  te_run_id :: string
  te_event_id :: string
  te_ts :: rat

record stamp =
  st_event_id :: string
  st_ts :: rat

definition make_event ::
  "stamp \<Rightarrow> fuse_kind \<Rightarrow> severity \<Rightarrow> string \<Rightarrow> dict \<Rightarrow> string \<Rightarrow> string \<Rightarrow> trip_event" where
  "make_event st f sev rsn ev org run =
     \<lparr>te_fuse = f, te_severity = sev, te_reason = rsn, te_evidence = ev, te_org_id = org, te_run_id = run,
      te_event_id = st_event_id st, te_ts = st_ts st\<rparr>"

definition to_dict :: "trip_event \<Rightarrow> dict" where
  "to_dict e =
     [(''event_id'', JStr (te_event_id e)),
      (''ts'', JFloat (te_ts e)),
      (''org_id'', JStr (te_org_id e)),
      (''run_id'', JStr (te_run_id e)),
      (''fuse'', JStr (fuse_value (te_fuse e))),
      (''severity'', JStr (severity_value (te_severity e))),
      (''reason'', JStr (te_reason e)),
      (''evidence'', JObj (te_evidence e))]"

text \<open>
  \<^verbatim>\<open>d[k]\<close> and \<^verbatim>\<open>d.get(k, default)\<close>. \<^verbatim>\<open>from_dict\<close> does not check the types of the values
  it stores; the record's fields are typed, so a value of another type than the field
  declares is the error \<open>undeclared_type\<close> here, which marks it as outside the model.
\<close>

definition undeclared_type :: py_exn where
  "undeclared_type = Exn (OtherErrorC ''undeclared type'') ''''"

definition dict_item :: "dict \<Rightarrow> string \<Rightarrow> py_exn + json" where
  "dict_item d k = (case map_of d k of None \<Rightarrow> Inl (Exn KeyErrorC k) | Some v \<Rightarrow> Inr v)"

definition dict_get :: "dict \<Rightarrow> string \<Rightarrow> json \<Rightarrow> json" where
  "dict_get d k v = (case map_of d k of None \<Rightarrow> v | Some w \<Rightarrow> w)"

fun as_str :: "json \<Rightarrow> py_exn + string" where
  "as_str (JStr s) = Inr s" | "as_str _ = Inl undeclared_type"

fun as_float :: "json \<Rightarrow> py_exn + rat" where
  "as_float (JFloat x) = Inr x" | "as_float _ = Inl undeclared_type"

fun as_dict :: "json \<Rightarrow> py_exn + dict" where
  "as_dict (JObj d) = Inr d" | "as_dict _ = Inl undeclared_type"

definition bind_sum :: "('e + 'a) \<Rightarrow> ('a \<Rightarrow> 'e + 'b) \<Rightarrow> 'e + 'b" where
  "bind_sum m f = (case m of Inl e \<Rightarrow> Inl e | Inr x \<Rightarrow> f x)"

lemma bind_sum_simps [simp]: "bind_sum (Inl e) f = Inl e" "bind_sum (Inr x) f = f x"
  by (simp_all add: bind_sum_def)

definition from_dict :: "dict \<Rightarrow> py_exn + trip_event" where
  "from_dict d =
     bind_sum (bind_sum (dict_item d ''fuse'') fuse_kind_of) (\<lambda>f.
     bind_sum (bind_sum (dict_item d ''severity'') severity_of) (\<lambda>sev.
     bind_sum (bind_sum (dict_item d ''reason'') as_str) (\<lambda>rsn.
     bind_sum (as_dict (dict_get d ''evidence'' (JObj []))) (\<lambda>ev.
     bind_sum (as_str (dict_get d ''org_id'' (JStr ''local''))) (\<lambda>org.
     bind_sum (as_str (dict_get d ''run_id'' (JStr ''unknown''))) (\<lambda>run.
     bind_sum (bind_sum (dict_item d ''event_id'') as_str) (\<lambda>eid.
     bind_sum (bind_sum (dict_item d ''ts'') as_float) (\<lambda>ts.
     Inr \<lparr>te_fuse = f, te_severity = sev, te_reason = rsn, te_evidence = ev, te_org_id = org,
          te_run_id = run, te_event_id = eid, te_ts = ts\<rparr>))))))))"

lemma severity_of_value [simp]: "severity_of (JStr (severity_value s)) = Inr s"
  by (cases s) (simp_all add: severity_of_def)

lemma fuse_kind_of_value [simp]: "fuse_kind_of (JStr (fuse_value f)) = Inr f"
  by (cases f) (simp_all add: fuse_kind_of_def)

text \<open>
  An event survives the trip through its dictionary: \<^verbatim>\<open>TripEvent.from_dict\<close> rebuilds
  exactly the event \<^verbatim>\<open>to_dict\<close> was called on, every field included.
\<close>
theorem from_dict_to_dict: "from_dict (to_dict e) = Inr e"
  by (simp add: from_dict_def to_dict_def dict_item_def dict_get_def)

text \<open>The events whose dictionary is a document the JSON round trip covers.\<close>

definition event_ok :: "(rat \<Rightarrow> string) \<Rightarrow> (string \<Rightarrow> rat option) \<Rightarrow> trip_event \<Rightarrow> bool" where
  "event_ok fr fp e \<longleftrightarrow> float_text fr fp (te_ts e) \<and> json_ok fr fp (JObj (te_evidence e))"

lemma to_dict_json_ok: "event_ok fr fp e \<Longrightarrow> json_ok fr fp (JObj (to_dict e))"
  by (simp add: event_ok_def to_dict_def)

end
