(* ===== verification/Http.thy ===== *)
theory Http
  imports Complex_Main Prelude Json
begin

text \<open>
  What \<^verbatim>\<open>credentials.py\<close> and \<^verbatim>\<open>sinks.py\<close> use of \<^verbatim>\<open>urllib.request\<close>: building a POST
  request, opening it through the injected opener and reading its status.
\<close>

record http_request =
  rq_url :: string
  rq_data :: bytes
  rq_headers :: "(string \<times> string) list"
  rq_method :: string

text \<open>
  What a response's \<^verbatim>\<open>status\<close> attribute can be: a number, missing (the code then takes
  200) or \<^verbatim>\<open>None\<close>, which \<^verbatim>\<open>urllib\<close>'s non-HTTP handlers set.
\<close>

datatype http_response = RespStatus int | RespNoStatus | RespStatusNone

fun response_status :: "http_response \<Rightarrow> int option" where
  "response_status (RespStatus n) = Some n"
| "response_status RespNoStatus = Some 200"
| "response_status RespStatusNone = None"

text \<open>
  The opener, \<^verbatim>\<open>urlopen\<close> by default: a call on the outside world \<open>'h\<close> with the request
  and the timeout. An exception anywhere in the \<^verbatim>\<open>with\<close> statement is its outcome.
\<close>

type_synonym 'h opener = "http_request \<Rightarrow> rat \<Rightarrow> ('h, http_response) py"

text \<open>
  \<^verbatim>\<open>Request(url, ...)\<close> strips the URL, unwraps \<^verbatim>\<open><URL:...>\<close>, cuts the fragment off and
  raises \<^verbatim>\<open>ValueError\<close> when no scheme is left. Whatever else \<^verbatim>\<open>urllib.parse\<close> may object
  to (brackets of an IPv6 host, non-ASCII netloc) is the parameter \<open>uc\<close>.
\<close>

definition unwrap_url :: "string \<Rightarrow> string" where
  "unwrap_url url0 =
     (let u1 = strip url0;
          u2 = (if u1 \<noteq> [] \<and> hd u1 = CHR ''<'' \<and> last u1 = CHR ''>'' then strip (butlast (tl u1)) else u1)
      in if starts_with u2 ''URL:'' then strip (drop 4 u2) else u2)"

definition has_scheme :: "string \<Rightarrow> bool" where
  "has_scheme u =
     (let t = takeWhile (\<lambda>c. c \<noteq> CHR ''/'' \<and> c \<noteq> CHR '':'') u
      in t \<noteq> [] \<and> starts_with (drop (length t) u) '':'')"

definition url_accepted :: "(string \<Rightarrow> py_exn option) \<Rightarrow> string \<Rightarrow> bool" where
  "url_accepted uc url =
     (let u = unwrap_url url; v = (if CHR ''#'' \<in> set u then fst (rpartition (CHR ''#'') u) else u)
      in has_scheme v \<and> uc url = None)"

definition make_request ::
  "(string \<Rightarrow> py_exn option) \<Rightarrow> string \<Rightarrow> bytes \<Rightarrow> (string \<times> string) list \<Rightarrow> string \<Rightarrow> py_exn + http_request" where
  "make_request uc url data headers meth =
     (let u = unwrap_url url; v = (if CHR ''#'' \<in> set u then fst (rpartition (CHR ''#'') u) else u)
      in if \<not> has_scheme v then Inl (Exn ValueErrorC ''unknown url type'')
         else case uc url of Some e \<Rightarrow> Inl e
            | None \<Rightarrow> Inr \<lparr>rq_url = url, rq_data = data, rq_headers = headers, rq_method = meth\<rparr>)"

lemma make_request_ok:
  "url_accepted uc url \<Longrightarrow> make_request uc url d h m = Inr \<lparr>rq_url = url, rq_data = d, rq_headers = h, rq_method = m\<rparr>"
  by (simp add: url_accepted_def make_request_def Let_def)

text \<open>The headers both clients send.\<close>

definition post_headers :: "string option \<Rightarrow> (string \<times> string) list" where
  "post_headers bearer =
     (''Content-Type'', ''application/json'')
       # (case bearer of None \<Rightarrow> []
          | Some b \<Rightarrow> if b = [] then [] else [(''Authorization'', ''Bearer '' @ b)])"

text \<open>The reason both clients record for a caught exception.\<close>

definition failure_reason :: "py_exn \<Rightarrow> string" where
  "failure_reason e =
     (case exn_class e of
        HTTPErrorC code \<Rightarrow> ''HTTP '' @ show_int code
      | c \<Rightarrow> class_name c @ '': '' @ exn_msg e)"

text \<open>\<^verbatim>\<open>200 <= None\<close>.\<close>

definition none_comparison :: py_exn where
  "none_comparison = Exn TypeErrorC ''<= not supported between instances of int and NoneType''"

text \<open>
  The request both clients make: \<open>Inr None\<close> is a 2xx answer, \<open>Inr (Some reason)\<close> a failure
  they record, \<open>Inl e\<close> an exception that leaves their method. The request is built before
  the \<^verbatim>\<open>try\<close>; the status is compared after it.
\<close>

definition http_post ::
  "(string \<Rightarrow> py_exn option) \<Rightarrow> 'h opener \<Rightarrow> string \<Rightarrow> string option \<Rightarrow> rat \<Rightarrow> bytes \<Rightarrow> ('h, string option) py" where
  "http_post uc opn url bearer timeout body h =
     (case make_request uc url body (post_headers bearer) ''POST'' of
        Inl e \<Rightarrow> (Inl e, h)
      | Inr rq \<Rightarrow>
        (case opn rq timeout h of
           (Inl e, h') \<Rightarrow> (if is_Exception e then Inr (Some (failure_reason e)) else Inl e, h')
         | (Inr resp, h') \<Rightarrow>
             (case response_status resp of
                None \<Rightarrow> Inl none_comparison
              | Some status \<Rightarrow>
                  Inr (if 200 \<le> status \<and> status < 300 then None else Some (''HTTP '' @ show_int status)), h')))"

text \<open>A URL without a scheme raises before anything is caught.\<close>

lemma http_post_no_scheme:
  "\<not> has_scheme (unwrap_url url) \<Longrightarrow> CHR ''#'' \<notin> set (unwrap_url url) \<Longrightarrow>
     http_post uc opn url bearer timeout body h = (Inl (Exn ValueErrorC ''unknown url type''), h)"
  by (simp add: http_post_def make_request_def Let_def)

text \<open>What escapes, if anything does, is an \<^verbatim>\<open>Exception\<close>.\<close>

definition url_check_tame :: "(string \<Rightarrow> py_exn option) \<Rightarrow> bool" where
  "url_check_tame uc \<longleftrightarrow> (\<forall>u. case uc u of None \<Rightarrow> True | Some x \<Rightarrow> is_Exception x)"

definition opener_raises_exceptions :: "'h opener \<Rightarrow> bool" where
  "opener_raises_exceptions opn \<longleftrightarrow> (\<forall>rq t h. case fst (opn rq t h) of Inl x \<Rightarrow> is_Exception x | Inr _ \<Rightarrow> True)"

lemma http_post_raises_exceptions:
  assumes "opener_raises_exceptions opn" "url_check_tame uc"
  shows "case fst (http_post uc opn url bearer timeout body h) of Inl x \<Rightarrow> is_Exception x | Inr _ \<Rightarrow> True"
proof (cases "make_request uc url body (post_headers bearer) ''POST''")
  case (Inl x)
  have "is_Exception x"
  proof (cases "uc url")
    case (Some y)
    then have "is_Exception y" using assms(2) unfolding url_check_tame_def by (metis option.simps(5))
    then show ?thesis using Inl Some by (auto simp: make_request_def Let_def is_Exception_def split: if_splits)
  qed (use Inl in \<open>auto simp: make_request_def Let_def is_Exception_def split: if_splits\<close>)
  then show ?thesis using Inl by (simp add: http_post_def)
next
  case (Inr rq)
  obtain r h' where opn: "opn rq timeout h = (r, h')" by fastforce
  then have "case r of Inl x \<Rightarrow> is_Exception x | Inr _ \<Rightarrow> True"
    using assms(1) unfolding opener_raises_exceptions_def by (metis fst_conv)
  then show ?thesis
    using Inr opn by (cases r) (auto simp: http_post_def none_comparison_def is_Exception_def split: option.splits)
qed

end
