(* ===== verification/Sinks.thy ===== *)
theory Sinks
  imports Events Http
begin

text \<open>
  \<^verbatim>\<open>halt/sinks.py\<close>: where events go. \<^verbatim>\<open>LocalJsonlSink\<close> appends a line to a file,
  \<^verbatim>\<open>ExternalBroadcastSink\<close> POSTs, \<^verbatim>\<open>TeeSink\<close> emits to several sinks in order. The
  interface a supervisor relies on is the locale \<open>total_sink\<close> and its extension
  \<open>recording_sink\<close>.
\<close>

section \<open>LocalJsonlSink\<close>

text \<open>
  The file's text (\<open>None\<close>: it does not exist) and what the operating system will answer
  to the next writes: an exhausted script means every write succeeds. A failed write may
  leave the beginning of the line in the file.
\<close>

datatype write_outcome = WriteOk | OpenFails py_exn | WriteFails nat py_exn

record jsonl =
  js_file :: "string option"
  js_disk :: "write_outcome list"

definition next_write :: "jsonl \<Rightarrow> write_outcome" where
  "next_write j = (case js_disk j of [] \<Rightarrow> WriteOk | w # _ \<Rightarrow> w)"

definition append_text :: "string \<Rightarrow> jsonl \<Rightarrow> jsonl" where
  "append_text t j = j\<lparr>js_file := Some ((case js_file j of None \<Rightarrow> [] | Some s \<Rightarrow> s) @ t), js_disk := tl (js_disk j)\<rparr>"

definition event_line :: "(rat \<Rightarrow> string) \<Rightarrow> trip_event \<Rightarrow> string" where
  "event_line fr e = dumps fr (JObj (to_dict e)) @ [LF]"

text \<open>The file is opened first: an event that cannot be dumped leaves it created, and as it was.\<close>

definition jsonl_emit :: "(rat \<Rightarrow> string) \<Rightarrow> trip_event \<Rightarrow> (jsonl, unit) py" where
  "jsonl_emit fr e j =
     (case next_write j of
        OpenFails x \<Rightarrow> (Inl x, j\<lparr>js_disk := tl (js_disk j)\<rparr>)
      | w \<Rightarrow>
          if \<not> dumpable (JObj (to_dict e)) then (Inl int_too_long, append_text [] j)
          else (case w of
                  WriteFails n x \<Rightarrow> (Inl x, append_text (take n (event_line fr e)) j)
                | _ \<Rightarrow> (Inr (), append_text (event_line fr e) j)))"

text \<open>
  \<^verbatim>\<open>for line in f\<close> in text mode: CRLF and CR are read as LF, lines end at LF. An empty
  last piece is no line; \<^verbatim>\<open>read_all\<close> skips blank lines anyway.
\<close>

fun universal_newlines :: "string \<Rightarrow> string" where
  "universal_newlines [] = []"
| "universal_newlines [c] = [if c = CR then LF else c]"
| "universal_newlines (c # d # s) =
     (if c = CR then LF # (if d = LF then universal_newlines s else universal_newlines (d # s))
      else c # universal_newlines (d # s))"

definition decode_line :: "(string \<Rightarrow> rat option) \<Rightarrow> string \<Rightarrow> py_exn + trip_event" where
  "decode_line fp l =
     (case loads fp l of
        None \<Rightarrow> Inl (Exn JSONDecodeErrorC [])
      | Some (JObj d) \<Rightarrow> from_dict d
      | Some _ \<Rightarrow> Inl (Exn TypeErrorC []))"

fun read_lines :: "(string \<Rightarrow> rat option) \<Rightarrow> string list \<Rightarrow> py_exn + trip_event list" where
  "read_lines fp [] = Inr []"
| "read_lines fp (l # ls) =
     (if strip l = [] then read_lines fp ls
      else bind_sum (decode_line fp (strip l)) (\<lambda>e. bind_sum (read_lines fp ls) (\<lambda>es. Inr (e # es))))"

definition read_text :: "(string \<Rightarrow> rat option) \<Rightarrow> string \<Rightarrow> py_exn + trip_event list" where
  "read_text fp s = read_lines fp (split_on [LF] (universal_newlines s))"

definition read_all :: "(string \<Rightarrow> rat option) \<Rightarrow> jsonl \<Rightarrow> py_exn + trip_event list" where
  "read_all fp j = (case js_file j of None \<Rightarrow> Inr [] | Some s \<Rightarrow> read_text fp s)"

section \<open>Reading back what was written\<close>

lemma universal_newlines_append:
  "universal_newlines (a @ LF # b) = universal_newlines (a @ [LF]) @ universal_newlines b"
  by (induction a rule: universal_newlines.induct) (cases b; auto simp: LF_def CR_def)+

lemma universal_newlines_LF: "\<exists>x. universal_newlines (a @ [LF]) = x @ [LF]"
  by (induction a rule: universal_newlines.induct) (auto simp: LF_def CR_def)

lemma universal_newlines_no_CR: "CR \<notin> set s \<Longrightarrow> universal_newlines s = s"
  by (induction s rule: universal_newlines.induct) auto

lemma read_lines_append:
  "read_lines fp (xs @ ys) = bind_sum (read_lines fp xs) (\<lambda>a. bind_sum (read_lines fp ys) (\<lambda>b. Inr (a @ b)))"
proof (induction xs)
  case Nil
  then show ?case by (cases "read_lines fp ys") simp_all
next
  case (Cons l xs)
  then show ?case
    by (cases "decode_line fp (strip l)"; cases "read_lines fp xs"; cases "read_lines fp ys") simp_all
qed

text \<open>Text that ends with a line break reads as its lines; more text adds its own.\<close>

lemma read_text_append:
  "read_text fp ((a @ [LF]) @ b) = bind_sum (read_text fp (a @ [LF])) (\<lambda>x. bind_sum (read_text fp b) (\<lambda>y. Inr (x @ y)))"
proof -
  obtain x where x: "universal_newlines (a @ [LF]) = x @ [LF]" using universal_newlines_LF by blast
  have e: "read_lines fp (split_on [LF] (x @ LF # b)) = bind_sum (read_lines fp (split_on [LF] (x @ [LF])))
      (\<lambda>x. bind_sum (read_lines fp (split_on [LF] b)) (\<lambda>y. Inr (x @ y)))" for b
  proof -
    have n: "read_lines fp (split_on [LF] []) = Inr []"
      by (simp add: split_on.simps strip_def)
    show ?thesis
      unfolding split_on_single [of LF x b] split_on_single [of LF x "[]"] read_lines_append n
      by (cases "read_lines fp (split_on [LF] x)") simp_all
  qed
  show ?thesis
    using e [of "universal_newlines b"] universal_newlines_append [of a b] x
    by (simp add: read_text_def)
qed

lemma strip_event:
  assumes "event_ok fr fp e"
  shows "strip (dumps fr (JObj (to_dict e))) = dumps fr (JObj (to_dict e))"
proof -
  obtain m where m: "dumps fr (JObj (to_dict e)) = CHR ''{'' # m @ [CHR ''}'']" by simp
  show ?thesis unfolding m by (simp add: strip_def is_space_def Let_def)
qed

lemma read_event_line:
  assumes "event_ok fr fp e"
  shows "read_text fp (event_line fr e) = Inr [e]"
proof -
  let ?d = "dumps fr (JObj (to_dict e))"
  have ok: "json_ok fr fp (JObj (to_dict e))" using assms by (rule to_dict_json_ok)
  have p: "\<forall>c \<in> set ?d. printable c" using dumps_printable(1) [OF ok] by blast
  obtain m where m: "?d = CHR ''{'' # m" by simp
  have u: "universal_newlines (?d @ [LF]) = ?d @ [LF]"
    by (rule universal_newlines_no_CR) (use p in \<open>auto simp: printable_def CR_def LF_def\<close>)
  have "LF \<notin> set ?d" using p by (auto simp: printable_def LF_def)
  then have s: "split_on [LF] (?d @ [LF]) = [?d, []]"
    unfolding split_on_single by (simp add: split_on.simps split_once_single del: dumps.simps)
  have "decode_line fp ?d = Inr e"
    using loads_dumps [OF ok] by (simp add: decode_line_def from_dict_to_dict del: dumps.simps)
  then show ?thesis
    unfolding read_text_def event_line_def u s using strip_event [OF assms] m
    by (simp add: strip_def del: dumps.simps)
qed

section \<open>ExternalBroadcastSink\<close>

record broadcast_failure =
  bf_event_id :: string
  bf_reason :: string

record 'h broadcast =
  bc_url :: string
  bc_bearer :: "string option"
  bc_timeout :: rat
  bc_open :: "'h opener"
  bc_url_check :: "string \<Rightarrow> py_exn option"
  bc_failures :: "broadcast_failure list"
  bc_delivered :: nat
  bc_host :: 'h

definition broadcast_init ::
  "string \<Rightarrow> string option \<Rightarrow> rat \<Rightarrow> 'h opener \<Rightarrow> (string \<Rightarrow> py_exn option) \<Rightarrow> 'h \<Rightarrow> 'h broadcast" where
  "broadcast_init url bearer timeout opn uc h =
     \<lparr>bc_url = url, bc_bearer = bearer, bc_timeout = timeout, bc_open = opn, bc_url_check = uc,
      bc_failures = [], bc_delivered = 0, bc_host = h\<rparr>"

text \<open>The request of an emit: what it raised, or why it failed, and the outside world after it.\<close>

definition post_event :: "(rat \<Rightarrow> string) \<Rightarrow> trip_event \<Rightarrow> 'h broadcast \<Rightarrow> (py_exn + string option) \<times> 'h" where
  "post_event fr e b =
     (if \<not> dumpable (JObj (to_dict e)) then (Inl int_too_long, bc_host b)
      else http_post (bc_url_check b) (bc_open b) (bc_url b) (bc_bearer b) (bc_timeout b)
             (dumps fr (JObj (to_dict e))) (bc_host b))"

definition broadcast_emit :: "(rat \<Rightarrow> string) \<Rightarrow> trip_event \<Rightarrow> ('h broadcast, unit) py" where
  "broadcast_emit fr e b =
     (case post_event fr e b of
        (Inl x, h) \<Rightarrow> (Inl x, b\<lparr>bc_host := h\<rparr>)
      | (Inr None, h) \<Rightarrow> (Inr (), b\<lparr>bc_host := h, bc_delivered := bc_delivered b + 1\<rparr>)
      | (Inr (Some rsn), h) \<Rightarrow>
          (Inr (), b\<lparr>bc_host := h, bc_failures := bc_failures b @ [\<lparr>bf_event_id = te_event_id e, bf_reason = rsn\<rparr>]\<rparr>))"

section \<open>TeeSink and the class hierarchy\<close>

text \<open>
  A sink object. \<open>UserSink\<close> is a subclass written elsewhere: its name, what each emit
  raises, and the events it was handed.
\<close>

datatype 'h sink =
    Jsonl jsonl
  | Broadcast "'h broadcast"
  | Tee "'h sink list" "(string \<times> py_exn) list"
  | UserSink string "trip_event \<Rightarrow> py_exn option" "trip_event list"

fun sink_name :: "'h sink \<Rightarrow> string" where
  "sink_name (Jsonl j) = ''LocalJsonlSink''"
| "sink_name (Broadcast b) = ''ExternalBroadcastSink''"
| "sink_name (Tee ss fs) = ''TeeSink''"
| "sink_name (UserSink n f es) = n"

definition tee_init :: "'h sink list \<Rightarrow> 'h sink" where
  "tee_init ss = Tee ss []"

text \<open>
  \<^verbatim>\<open>TeeSink.emit\<close> catches the \<^verbatim>\<open>Exception\<close>s of its sinks one by one; a bare
  \<^verbatim>\<open>BaseException\<close> stops the loop. \<open>emit_each\<close> returns the outcome, the sinks afterwards
  and the failures of this call.
\<close>

fun emit :: "(rat \<Rightarrow> string) \<Rightarrow> trip_event \<Rightarrow> ('h sink, unit) py"
  and emit_each :: "(rat \<Rightarrow> string) \<Rightarrow> trip_event \<Rightarrow> 'h sink list \<Rightarrow> (py_exn + unit) \<times> 'h sink list \<times> (string \<times> py_exn) list" where
  "emit fr e (Jsonl j) = (case jsonl_emit fr e j of (r, j') \<Rightarrow> (r, Jsonl j'))"
| "emit fr e (Broadcast b) = (case broadcast_emit fr e b of (r, b') \<Rightarrow> (r, Broadcast b'))"
| "emit fr e (Tee ss fs) = (case emit_each fr e ss of (r, ss', new) \<Rightarrow> (r, Tee ss' (fs @ new)))"
| "emit fr e (UserSink n f es) =
     (case f e of None \<Rightarrow> Inr () | Some x \<Rightarrow> Inl x, UserSink n f (es @ [e]))"
| "emit_each fr e [] = (Inr (), [], [])"
| "emit_each fr e (s # ss) =
     (case emit fr e s of
        (Inl x, s') \<Rightarrow>
          (if is_Exception x then
             (case emit_each fr e ss of (r, ss', new) \<Rightarrow> (r, s' # ss', (sink_name s, x) # new))
           else (Inl x, s' # ss, []))
      | (Inr _, s') \<Rightarrow> (case emit_each fr e ss of (r, ss', new) \<Rightarrow> (r, s' # ss', new)))"

text \<open>Sinks whose failures are \<^verbatim>\<open>Exception\<close>s: everything the program's own classes raise.\<close>

fun write_tame :: "write_outcome \<Rightarrow> bool" where
  "write_tame WriteOk = True"
| "write_tame (OpenFails x) = is_Exception x"
| "write_tame (WriteFails n x) = is_Exception x"

fun tame :: "'h sink \<Rightarrow> bool" where
  "tame (Jsonl j) = list_all write_tame (js_disk j)"
| "tame (Broadcast b) = (opener_raises_exceptions (bc_open b) \<and> url_check_tame (bc_url_check b))"
| "tame (Tee ss fs) = list_all tame ss"
| "tame (UserSink n f es) = (\<forall>e. case f e of None \<Rightarrow> True | Some x \<Rightarrow> is_Exception x)"

section \<open>The interface\<close>

text \<open>
  What a supervisor needs of its sink: from a good state, emitting an acceptable event
  returns and leaves a good state (\<open>total_sink\<close>); a \<open>recording_sink\<close> also holds the
  events in order.
\<close>

locale total_sink =
  fixes em :: "trip_event \<Rightarrow> ('k, unit) py" and good :: "'k \<Rightarrow> bool" and fine :: "trip_event \<Rightarrow> bool"
  assumes emit_total: "good k \<Longrightarrow> fine e \<Longrightarrow> \<exists>k'. em e k = (Inr (), k') \<and> good k'"
begin

lemma emit_all_total: "good k \<Longrightarrow> list_all fine es \<Longrightarrow> \<exists>k'. py_for es em k = (Inr (), k') \<and> good k'"
proof (induction es arbitrary: k)
  case (Cons e es)
  then obtain k' where "em e k = (Inr (), k')" "good k'" using emit_total by fastforce
  then show ?case using Cons by (simp add: py_simps)
qed (simp add: py_simps)

end

locale recording_sink = total_sink em good fine
  for em :: "trip_event \<Rightarrow> ('k, unit) py" and good :: "'k \<Rightarrow> bool" and fine :: "trip_event \<Rightarrow> bool" +
  fixes record_of :: "'k \<Rightarrow> trip_event list"
  assumes emit_records: "good k \<Longrightarrow> fine e \<Longrightarrow> em e k = (Inr (), k') \<Longrightarrow> record_of k' = record_of k @ [e]"
begin

lemma emit_all_records:
  "good k \<Longrightarrow> list_all fine es \<Longrightarrow> py_for es em k = (Inr (), k') \<Longrightarrow> record_of k' = record_of k @ es"
proof (induction es arbitrary: k)
  case (Cons e es)
  then obtain k1 where 1: "em e k = (Inr (), k1)" "good k1" using emit_total by fastforce
  then show ?case using Cons emit_records [OF _ _ 1(1)] by (simp add: py_simps)
qed (simp add: py_simps)

end

lemma emit_tame:
  fixes s :: "'h sink" and ss :: "'h sink list"
  shows "tame s \<Longrightarrow> (case fst (emit fr e s) of Inl x \<Rightarrow> is_Exception x | Inr _ \<Rightarrow> True) \<and> tame (snd (emit fr e s))"
    "list_all tame ss \<Longrightarrow> fst (emit_each fr e ss) = Inr () \<and> list_all tame (fst (snd (emit_each fr e ss)))"
proof (induction fr e s and fr e ss rule: emit_emit_each.induct)
  case (1 fr e j)
  have "list_all write_tame (tl (js_disk j))" using 1 by (cases "js_disk j") auto
  moreover have "write_tame (next_write j)" using 1 by (cases "js_disk j") (auto simp: next_write_def)
  ultimately show ?case
    by (cases "next_write j") (auto simp: jsonl_emit_def append_text_def int_too_long_def is_Exception_def)
next
  case (2 fr e b)
  let ?p = "post_event fr e b"
  have "case fst ?p of Inl x \<Rightarrow> is_Exception x | Inr _ \<Rightarrow> True"
  proof (cases "dumpable (JObj (to_dict e))")
    case True
    then show ?thesis
      using http_post_raises_exceptions [of "bc_open b" "bc_url_check b" "bc_url b" "bc_bearer b" "bc_timeout b"] 2
      unfolding post_event_def by simp
  qed (simp add: post_event_def int_too_long_def is_Exception_def)
  then show ?case
    using 2 by (cases ?p, rename_tac r h, case_tac r) (auto simp: broadcast_emit_def split: option.splits)
next
  case (3 fr e ss fs)
  then show ?case by (cases "emit_each fr e ss") auto
next
  case (4 fr e n f es)
  then show ?case by (auto split: option.splits)
next
  case (5 fr e)
  then show ?case by simp
next
  case (6 fr e s ss)
  obtain r s' where s: "emit fr e s = (r, s')" by fastforce
  obtain q ss' new where ss: "emit_each fr e ss = (q, ss', new)" by (cases "emit_each fr e ss")
  have "list_all tame ss" "tame s" using "6.prems" by simp_all
  then show ?case
    using 6 s ss by (cases r) auto
qed

text \<open>The failures one emit of a sink adds to a tee around it.\<close>

definition emit_failure :: "(rat \<Rightarrow> string) \<Rightarrow> trip_event \<Rightarrow> 'h sink \<Rightarrow> (string \<times> py_exn) list" where
  "emit_failure fr e s = (case fst (emit fr e s) of Inl x \<Rightarrow> [(sink_name s, x)] | Inr _ \<Rightarrow> [])"

lemma emit_each_tame:
  "list_all tame ss \<Longrightarrow>
     emit_each fr e ss = (Inr (), map (\<lambda>s. snd (emit fr e s)) ss, concat (map (emit_failure fr e) ss))"
proof (induction ss)
  case (Cons s ss)
  obtain r s' where s: "emit fr e s = (r, s')" by fastforce
  have "case r of Inl x \<Rightarrow> is_Exception x | Inr _ \<Rightarrow> True"
    using emit_tame(1) [of s fr e] Cons.prems s by simp
  then show ?case using Cons s by (cases r) (auto simp: emit_failure_def)
qed simp

text \<open>
  C21. \<^verbatim>\<open>TeeSink\<close>: when its sinks raise only \<^verbatim>\<open>Exception\<close>s, an emit returns, every sink was
  handed the event in order whatever the others did, and the failures of this emit are
  appended to \<^verbatim>\<open>failures\<close>, each under its sink's class name.
\<close>
theorem tee_isolates_failures:
  assumes "list_all tame ss"
  shows "emit fr e (Tee ss fs) =
      (Inr (), Tee (map (\<lambda>s. snd (emit fr e s)) ss) (fs @ concat (map (emit_failure fr e) ss)))"
  by (simp add: emit_each_tame [OF assms])

definition disk_full :: py_exn where
  "disk_full = Exn OSErrorC ''No space left on device''"

definition demo_event :: trip_event where
  "demo_event = make_event \<lparr>st_event_id = ''e-1'', st_ts = 3 / 2\<rparr> NETWORK KILL ''x'' [] ''acme'' ''run-1''"

theorem tee_isolates_failures_witness:
  "\<exists>ss' fs'. emit (\<lambda>_. ''1.5'') demo_event
      (Tee [Jsonl \<lparr>js_file = None, js_disk = [OpenFails disk_full]\<rparr>, UserSink ''Spy'' (\<lambda>_. None) []] [] :: unit sink)
    = (Inr (), Tee ss' fs') \<and> map fst fs' = [''LocalJsonlSink''] \<and> ss' ! 1 = UserSink ''Spy'' (\<lambda>_. None) [demo_event]"
proof -
  have "list_all tame [Jsonl \<lparr>js_file = None, js_disk = [OpenFails disk_full]\<rparr>, UserSink ''Spy'' (\<lambda>_. None) [] :: unit sink]"
    by (simp add: disk_full_def is_Exception_def)
  from tee_isolates_failures [OF this, of "\<lambda>_. ''1.5''" demo_event "[]"] show ?thesis
    by (simp add: emit_failure_def jsonl_emit_def next_write_def del: emit.simps(3))
qed

section \<open>The sinks as providers\<close>

text \<open>A file that reads back, ends with a line break and whose next writes succeed.\<close>

definition readable :: "(string \<Rightarrow> rat option) \<Rightarrow> jsonl \<Rightarrow> bool" where
  "readable fp j \<longleftrightarrow> js_disk j = []
     \<and> (case js_file j of None \<Rightarrow> True
        | Some s \<Rightarrow> (s = [] \<or> last s = LF) \<and> (case read_text fp s of Inl _ \<Rightarrow> False | Inr _ \<Rightarrow> True))"

definition file_record :: "(string \<Rightarrow> rat option) \<Rightarrow> jsonl \<Rightarrow> trip_event list" where
  "file_record fp j = (case read_all fp j of Inl _ \<Rightarrow> [] | Inr es \<Rightarrow> es)"

lemma read_text_Nil: "read_text fp [] = Inr []"
  by (simp add: read_text_def split_on.simps strip_def)

lemma readable_read_all: "readable fp j \<Longrightarrow> read_all fp j = Inr (file_record fp j)"
  by (auto simp: readable_def file_record_def read_all_def split: option.splits sum.splits)

lemma jsonl_emit_record:
  assumes r: "readable fp j" and ok: "event_ok fr fp e"
  shows "\<exists>j'. jsonl_emit fr e j = (Inr (), j') \<and> readable fp j' \<and> file_record fp j' = file_record fp j @ [e]"
proof -
  have w: "next_write j = WriteOk" "js_disk j = []" using r by (auto simp: readable_def next_write_def)
  define s where "s = (case js_file j of None \<Rightarrow> [] | Some t \<Rightarrow> t)"
  have s: "s = [] \<or> last s = LF" "read_text fp s = Inr (file_record fp j)"
    using r by (auto simp: s_def readable_def file_record_def read_all_def read_text_Nil
        split: option.splits sum.splits)
  have "read_text fp (s @ event_line fr e) = Inr (file_record fp j @ [e])"
  proof (cases s rule: rev_cases)
    case Nil
    then show ?thesis using s(2) read_event_line [OF ok] by (simp add: read_text_Nil)
  next
    case (snoc a c)
    then have "s = a @ [LF]" using s(1) by auto
    then show ?thesis
      using read_text_append [of fp a "event_line fr e"] s(2) read_event_line [OF ok] by simp
  qed
  moreover have "last (s @ event_line fr e) = LF" by (simp add: event_line_def)
  moreover have "dumpable (JObj (to_dict e))" using json_ok_dumpable [OF to_dict_json_ok [OF ok]] .
  ultimately show ?thesis
    using w by (simp del: dumpable.simps add: jsonl_emit_def append_text_def s_def [symmetric] readable_def file_record_def read_all_def)
qed

fun durable :: "(string \<Rightarrow> rat option) \<Rightarrow> 'h sink \<Rightarrow> bool" where
  "durable fp (Jsonl j) = readable fp j"
| "durable fp (Tee (Jsonl j # ss) fs) = (readable fp j \<and> list_all tame ss)"
| "durable fp _ = False"

fun durable_record :: "(string \<Rightarrow> rat option) \<Rightarrow> 'h sink \<Rightarrow> trip_event list" where
  "durable_record fp (Jsonl j) = file_record fp j"
| "durable_record fp (Tee (Jsonl j # ss) fs) = file_record fp j"
| "durable_record fp _ = []"

text \<open>
  Any tee of tame sinks is a total sink for every event; a local file, alone or first in a
  tee, is a recording sink for the events with a JSON text.
\<close>

fun tame_tee :: "'h sink \<Rightarrow> bool" where
  "tame_tee (Tee ss fs) = list_all tame ss"
| "tame_tee _ = False"

interpretation tee: total_sink "emit fr" tame_tee "\<lambda>_. True" for fr
proof unfold_locales
  fix k :: "'a sink" and e
  assume "tame_tee k"
  then obtain ss fs where "k = Tee ss fs" "list_all tame ss" by (cases k) auto
  then show "\<exists>k'. emit fr e k = (Inr (), k') \<and> tame_tee k'"
    using emit_tame(2) [of ss fr e] by (simp add: emit_each_tame)
qed

lemma durable_cases:
  assumes "durable fp k"
  obtains (Plain) j where "k = Jsonl j" "readable fp j"
  | (First) j ss fs where "k = Tee (Jsonl j # ss) fs" "readable fp j" "list_all tame ss"
  using assms by (cases "(fp, k)" rule: durable.cases) auto

lemma durable_emit:
  assumes "durable fp k" "event_ok fr fp e"
  shows "\<exists>k'. emit fr e k = (Inr (), k') \<and> durable fp k' \<and> durable_record fp k' = durable_record fp k @ [e]"
  using assms(1)
proof (cases rule: durable_cases)
  case (Plain j)
  then show ?thesis using jsonl_emit_record [OF Plain(2) assms(2)] by auto
next
  case (First j ss fs)
  obtain j' where "jsonl_emit fr e j = (Inr (), j')" "readable fp j'" "file_record fp j' = file_record fp j @ [e]"
    using jsonl_emit_record [OF First(2) assms(2)] by blast
  then show ?thesis
    using First emit_tame(2) [OF First(3), of fr e] by (simp add: emit_each_tame)
qed

interpretation disk: recording_sink "emit fr" "durable fp" "event_ok fr fp" "durable_record fp" for fr fp
proof unfold_locales
  fix k :: "'a sink" and e
  assume "durable fp k" "event_ok fr fp e"
  then show "\<exists>k'. emit fr e k = (Inr (), k') \<and> durable fp k'" using durable_emit by blast
next
  fix k k' :: "'a sink" and e
  assume "durable fp k" "event_ok fr fp e" "emit fr e k = (Inr (), k')"
  then show "durable_record fp k' = durable_record fp k @ [e]" using durable_emit by fastforce
qed

text \<open>
  C20. The forensic record is faithful: after any run of events into a \<^verbatim>\<open>LocalJsonlSink\<close> whose
  writes succeed, \<^verbatim>\<open>read_all()\<close> returns the events the file held before followed by
  exactly the emitted ones, in order, every field restored.
\<close>
theorem jsonl_record_roundtrip:
  assumes "readable fp j" "list_all (event_ok fr fp) es"
  shows "\<exists>j'. py_for es (jsonl_emit fr) j = (Inr (), j') \<and> read_all fp j' = Inr (file_record fp j @ es)"
  using assms
proof (induction es arbitrary: j)
  case Nil
  then show ?case using readable_read_all by (simp add: py_simps)
next
  case (Cons e es)
  then obtain j1 where 1: "jsonl_emit fr e j = (Inr (), j1)" "readable fp j1"
      "file_record fp j1 = file_record fp j @ [e]"
    using jsonl_emit_record by fastforce
  then show ?case using Cons.IH [OF 1(2)] Cons.prems by (simp add: py_simps)
qed

definition demo_fr :: "rat \<Rightarrow> string" where "demo_fr x = ''1.5''"

definition demo_fp :: "string \<Rightarrow> rat option" where "demo_fp s = (if s = ''1.5'' then Some (3 / 2) else None)"

lemma demo_event_ok: "event_ok demo_fr demo_fp demo_event"
proof -
  have "scan_number ''1.5'' = Some (''1'', ''.5'', [], [])" by code_simp
  then show ?thesis
    by (simp add: event_ok_def float_text_def demo_event_def make_event_def demo_fr_def demo_fp_def)
qed

theorem jsonl_record_roundtrip_witness:
  "\<exists>j'. py_for [demo_event, demo_event] (jsonl_emit demo_fr) \<lparr>js_file = None, js_disk = []\<rparr> = (Inr (), j')
     \<and> read_all demo_fp j' = Inr [demo_event, demo_event]"
  using jsonl_record_roundtrip [of demo_fp "\<lparr>js_file = None, js_disk = []\<rparr>" demo_fr "[demo_event, demo_event]"]
  by (simp add: readable_def file_record_def read_all_def demo_event_ok)

end
