(* ===== verification/BroadcastThreads.thy ===== *)
theory BroadcastThreads
  imports Sinks
begin

text \<open>
  \<^verbatim>\<open>ExternalBroadcastSink.emit\<close> (\<^verbatim>\<open>halt/sinks.py\<close>, lines 98-116) in several threads at once: the
  supervisor calls it outside its lock. \<^verbatim>\<open>self.delivered += 1\<close> reads the attribute and writes
  it back, two steps; \<^verbatim>\<open>append\<close> is one; the request itself is one.
\<close>

datatype post_pc =
    Posting trip_event         \<comment> \<open>at \<^verbatim>\<open>self._open(req, ...)\<close>\<close>
  | Loading                    \<comment> \<open>accepted, at the read of \<^verbatim>\<open>self.delivered\<close>\<close>
  | Storing nat                \<comment> \<open>at the write of \<^verbatim>\<open>self.delivered\<close>, with the value read\<close>
  | Noting broadcast_failure   \<comment> \<open>at \<^verbatim>\<open>self.failures.append(...)\<close>\<close>
  | Sent "py_exn option"       \<comment> \<open>returned, or raised\<close>

inductive post_thread_step ::
  "(rat \<Rightarrow> string) \<Rightarrow> post_pc \<times> 'h broadcast \<Rightarrow> post_pc \<times> 'h broadcast \<Rightarrow> bool"
  for fr where
  accepted: "post_event fr e b = (Inr None, h) \<Longrightarrow>
    post_thread_step fr (Posting e, b) (Loading, b\<lparr>bc_host := h\<rparr>)"
| refused: "post_event fr e b = (Inr (Some rsn), h) \<Longrightarrow>
    post_thread_step fr (Posting e, b) (Noting \<lparr>bf_event_id = te_event_id e, bf_reason = rsn\<rparr>, b\<lparr>bc_host := h\<rparr>)"
| raises: "post_event fr e b = (Inl x, h) \<Longrightarrow>
    post_thread_step fr (Posting e, b) (Sent (Some x), b\<lparr>bc_host := h\<rparr>)"
| loads: "post_thread_step fr (Loading, b) (Storing (bc_delivered b), b)"
| stores: "post_thread_step fr (Storing n, b) (Sent None, b\<lparr>bc_delivered := n + 1\<rparr>)"
| notes_failure: "post_thread_step fr (Noting f, b) (Sent None, b\<lparr>bc_failures := bc_failures b @ [f]\<rparr>)"

inductive_cases post_thread_stepE: "post_thread_step fr (p, b) (p', b')"

inductive post_step ::
  "(rat \<Rightarrow> string) \<Rightarrow> post_pc list \<times> 'h broadcast \<Rightarrow> post_pc list \<times> 'h broadcast \<Rightarrow> bool"
  for fr where
  post_interleave: "i < length ps \<Longrightarrow> post_thread_step fr (ps ! i, b) (p, b') \<Longrightarrow>
    post_step fr (ps, b) (ps[i := p], b')"

section \<open>One thread alone is emit\<close>

lemma post_at:
  "post_thread_step fr (p, b) (p', b') \<Longrightarrow> post_step fr ([p], b) ([p'], b')"
  using post_interleave [of 0 "[p]" fr b p' b'] by simp

lemma posts_alone:
  "(post_step fr)\<^sup>*\<^sup>* ([Posting e], b)
     ([Sent (case fst (broadcast_emit fr e b) of Inl x \<Rightarrow> Some x | Inr _ \<Rightarrow> None)], snd (broadcast_emit fr e b))"
proof -
  obtain r h where p: "post_event fr e b = (r, h)" by fastforce
  consider (ok) "r = Inr None" | (no) rsn where "r = Inr (Some rsn)" | (exn) x where "r = Inl x"
    by (cases r) (metis not_None_eq)+
  then show ?thesis
  proof cases
    case ok
    have "post_step fr ([Posting e], b) ([Loading], b\<lparr>bc_host := h\<rparr>)"
      "post_step fr ([Loading], b\<lparr>bc_host := h\<rparr>) ([Storing (bc_delivered b)], b\<lparr>bc_host := h\<rparr>)"
      "post_step fr ([Storing (bc_delivered b)], b\<lparr>bc_host := h\<rparr>) ([Sent None], b\<lparr>bc_host := h, bc_delivered := bc_delivered b + 1\<rparr>)"
      using post_at [OF accepted [of fr e b h]] post_at [OF loads [of fr "b\<lparr>bc_host := h\<rparr>"]]
        post_at [OF stores [of fr "bc_delivered b" "b\<lparr>bc_host := h\<rparr>"]] p ok by simp_all
    then show ?thesis using p ok
      by (simp add: broadcast_emit_def)
  next
    case (no rsn)
    let ?f = "\<lparr>bf_event_id = te_event_id e, bf_reason = rsn\<rparr>"
    have "post_step fr ([Posting e], b) ([Noting ?f], b\<lparr>bc_host := h\<rparr>)"
      "post_step fr ([Noting ?f], b\<lparr>bc_host := h\<rparr>) ([Sent None], b\<lparr>bc_host := h, bc_failures := bc_failures b @ [?f]\<rparr>)"
      using post_at [OF refused [of fr e b rsn h]] post_at [OF notes_failure [of fr ?f "b\<lparr>bc_host := h\<rparr>"]] p no by simp_all
    then show ?thesis using p no
      by (simp add: broadcast_emit_def)
  next
    case (exn x)
    have "post_step fr ([Posting e], b) ([Sent (Some x)], b\<lparr>bc_host := h\<rparr>)"
      using post_at [OF raises [of fr e b x h]] p exn by simp
    then show ?thesis using p exn by (simp add: broadcast_emit_def)
  qed
qed

section \<open>What the two lists count\<close>

abbreviation sent :: "post_pc list \<Rightarrow> nat" where
  "sent ps \<equiv> length (filter (\<lambda>p. p = Sent None) ps)"

lemma sent_update: "i < length ps \<Longrightarrow> ps ! i \<noteq> Sent None \<Longrightarrow> sent (ps[i := p]) = sent ps + (if p = Sent None then 1 else 0)"
  by (induction ps arbitrary: i) (auto split: nat.splits)

definition counts_ok :: "'h broadcast \<Rightarrow> post_pc list \<times> 'h broadcast \<Rightarrow> bool" where
  "counts_ok b0 = (\<lambda>(ps, b). \<exists>fs. bc_failures b = bc_failures b0 @ fs
     \<and> bc_delivered b0 \<le> bc_delivered b \<and> bc_delivered b + length fs \<le> bc_delivered b0 + sent ps
     \<and> (\<forall>n. Storing n \<in> set ps \<longrightarrow> bc_delivered b0 \<le> n \<and> n + length fs \<le> bc_delivered b0 + sent ps))"

lemma storing_update: "Storing n \<in> set (ps[i := p]) \<Longrightarrow> p = Storing n \<or> Storing n \<in> set ps"
  using set_update_subset_insert [of ps i p] by auto

lemma counts_step: "post_step fr c d \<Longrightarrow> counts_ok b0 c \<Longrightarrow> counts_ok b0 d"
proof (induction rule: post_step.induct)
  case (post_interleave i ps b p b')
  obtain fs where fs: "bc_failures b = bc_failures b0 @ fs" "bc_delivered b0 \<le> bc_delivered b"
      "bc_delivered b + length fs \<le> bc_delivered b0 + sent ps"
    and st: "\<And>n. Storing n \<in> set ps \<Longrightarrow> bc_delivered b0 \<le> n \<and> n + length fs \<le> bc_delivered b0 + sent ps"
    using post_interleave(3) unfolding counts_ok_def prod.case by blast
  have new: "ps ! i \<noteq> Sent None" using post_interleave(2) by (auto elim: post_thread_stepE)
  note up = sent_update [OF post_interleave(1) new]
  from post_interleave(2) show ?case
  proof cases
    case (stores n)
    then have n: "bc_delivered b0 \<le> n \<and> n + length fs \<le> bc_delivered b0 + sent ps"
      using st nth_mem [OF post_interleave(1)] by metis
    then show ?thesis using fs up stores unfolding counts_ok_def prod.case
      by (intro exI [of _ fs]) (auto dest!: storing_update dest: st)
  next
    case (notes_failure f)
    then show ?thesis using fs up unfolding counts_ok_def prod.case
      by (intro exI [of _ "fs @ [f]"]) (auto dest!: storing_update dest: st)
  next
    case loads
    then show ?thesis using fs up unfolding counts_ok_def prod.case
      by (intro exI [of _ fs]) (auto dest!: storing_update dest: st)
  qed (use fs up in \<open>auto simp: counts_ok_def intro!: exI [of _ fs] dest!: storing_update dest: st\<close>)
qed

text \<open>
  Concurrent broadcasts never over-count: no failure entry is lost, and deliveries and
  failures together are at most the emits that returned.
\<close>
theorem broadcast_counts:
  assumes "(post_step fr)\<^sup>*\<^sup>* (map Posting es, b0) (ps, b)"
  shows "\<exists>fs. bc_failures b = bc_failures b0 @ fs \<and> bc_delivered b0 \<le> bc_delivered b
    \<and> bc_delivered b + length fs \<le> bc_delivered b0 + sent ps"
proof -
  have "counts_ok b0 (ps, b)"
    using assms
  proof (induction rule: rtranclp_induct)
    case base
    then show ?case by (auto simp: counts_ok_def)
  qed (rule counts_step)
  then show ?thesis unfolding counts_ok_def prod.case by blast
qed

text \<open>
  And they can under-count: two emits that are both accepted leave \<^verbatim>\<open>delivered\<close> one higher when
  the second reads it before the first has written it.
\<close>
theorem delivery_uncounted:
  assumes "post_event fr e1 b = (Inr None, h1)" "post_event fr e2 (b\<lparr>bc_host := h1\<rparr>) = (Inr None, h2)"
  shows "(post_step fr)\<^sup>*\<^sup>* ([Posting e1, Posting e2], b)
     ([Sent None, Sent None], b\<lparr>bc_host := h2, bc_delivered := bc_delivered b + 1\<rparr>)"
proof -
  let ?n = "bc_delivered b" and ?p = "b\<lparr>bc_host := h1\<rparr>" and ?q = "b\<lparr>bc_host := h2\<rparr>"
  let ?r = "b\<lparr>bc_host := h2, bc_delivered := ?n + 1\<rparr>"
  have "post_step fr ([Posting e1, Posting e2], b) ([Loading, Posting e2], ?p)"
    using post_interleave [of 0 "[Posting e1, Posting e2]" fr b] accepted [OF assms(1)] by simp
  moreover have "post_step fr ([Loading, Posting e2], ?p) ([Loading, Loading], ?q)"
    using post_interleave [of 1 "[Loading, Posting e2]" fr ?p] accepted [OF assms(2)] by simp
  moreover have "post_step fr ([Loading, Loading], ?q) ([Storing ?n, Loading], ?q)"
    using post_interleave [of 0 "[Loading, Loading]" fr ?q] loads [of fr ?q] by simp
  moreover have "post_step fr ([Storing ?n, Loading], ?q) ([Storing ?n, Storing ?n], ?q)"
    using post_interleave [of 1 "[Storing ?n, Loading]" fr ?q] loads [of fr ?q] by simp
  moreover have "post_step fr ([Storing ?n, Storing ?n], ?q) ([Sent None, Storing ?n], ?r)"
    using post_interleave [of 0 "[Storing ?n, Storing ?n]" fr ?q] stores [of fr ?n ?q] by simp
  moreover have "post_step fr ([Sent None, Storing ?n], ?r) ([Sent None, Sent None], ?r)"
    using post_interleave [of 1 "[Sent None, Storing ?n]" fr ?r] stores [of fr ?n ?r] by simp
  ultimately show ?thesis by (meson converse_rtranclp_into_rtranclp r_into_rtranclp)
qed

definition demo_endpoint :: "nat broadcast" where
  "demo_endpoint = broadcast_init ''https://registry.example/events'' None 3 (\<lambda>_ _ n. (Inr (RespStatus 200), n + 1)) (\<lambda>_. None) 0"

lemma demo_post: "post_event demo_fr demo_event (demo_endpoint\<lparr>bc_host := n\<rparr>) = (Inr None, n + 1)"
proof -
  have d: "dumpable (JObj (to_dict demo_event))" by (rule json_ok_dumpable [OF to_dict_json_ok [OF demo_event_ok]])
  have "url_accepted (\<lambda>_. None) ''https://registry.example/events''" by code_simp
  from make_request_ok [OF this] show ?thesis
    using d by (simp del: dumpable.simps add: post_event_def demo_endpoint_def broadcast_init_def http_post_def)
qed

theorem delivery_uncounted_witness:
  "\<exists>b. (post_step demo_fr)\<^sup>*\<^sup>* ([Posting demo_event, Posting demo_event], demo_endpoint) ([Sent None, Sent None], b)
    \<and> bc_host b = 2 \<and> bc_delivered b = 1 \<and> bc_failures b = []"
proof -
  have 0: "demo_endpoint = demo_endpoint\<lparr>bc_host := 0\<rparr>" by (simp add: demo_endpoint_def broadcast_init_def)
  have "post_event demo_fr demo_event demo_endpoint = (Inr None, 1)" using demo_post [of 0] 0 by simp
  moreover have "post_event demo_fr demo_event (demo_endpoint\<lparr>bc_host := 1\<rparr>) = (Inr None, 2)"
    using demo_post [of 1] by (simp add: numeral_2_eq_2)
  ultimately have "(post_step demo_fr)\<^sup>*\<^sup>* ([Posting demo_event, Posting demo_event], demo_endpoint)
      ([Sent None, Sent None], demo_endpoint\<lparr>bc_host := 2, bc_delivered := bc_delivered demo_endpoint + 1\<rparr>)"
    by (rule delivery_uncounted)
  then show ?thesis
    by (rule exI [where x = "demo_endpoint\<lparr>bc_host := 2, bc_delivered := bc_delivered demo_endpoint + 1\<rparr>", OF conjI])
      (simp add: demo_endpoint_def broadcast_init_def)
qed

theorem broadcast_counts_witness:
  "\<exists>ps b fs. (post_step demo_fr)\<^sup>*\<^sup>* (map Posting [demo_event, demo_event], demo_endpoint) (ps, b)
    \<and> bc_failures b = fs \<and> bc_delivered b + length fs \<le> sent ps \<and> sent ps = 2"
proof -
  let ?b = "demo_endpoint\<lparr>bc_host := 2, bc_delivered := bc_delivered demo_endpoint + 1\<rparr>"
  have 0: "demo_endpoint = demo_endpoint\<lparr>bc_host := 0\<rparr>" by (simp add: demo_endpoint_def broadcast_init_def)
  have r: "(post_step demo_fr)\<^sup>*\<^sup>* (map Posting [demo_event, demo_event], demo_endpoint)
      ([Sent None, Sent None], ?b)"
    using delivery_uncounted [of demo_fr demo_event demo_endpoint 1 demo_event 2]
      demo_post [of 0] demo_post [of 1] 0 by (simp add: numeral_2_eq_2)
  from broadcast_counts [OF r] r show ?thesis
    by (intro exI [of _ "[Sent None, Sent None]"] exI [of _ ?b] exI [of _ "bc_failures ?b"])
      (auto simp: demo_endpoint_def broadcast_init_def)
qed

end
