(* ===== verification/Credentials.thy ===== *)
theory Credentials
  imports Http
begin

text \<open>
  \<^verbatim>\<open>halt/credentials.py\<close>: \<^verbatim>\<open>HttpRevoker\<close>, one POST per token to a revocation endpoint.
  Its contract for the kill path (a failed revoke is recorded and answered \<^verbatim>\<open>False\<close>) is
  \<open>revoke_reports_failure\<close>; the failures that escape it are \<open>revoke_escapes\<close>.
\<close>

record revocation_failure =
  rf_token_id :: string
  rf_reason :: string

record 'h http_revoker =
  hr_url :: string
  hr_bearer :: "string option"
  hr_timeout :: rat
  hr_open :: "'h opener"
  hr_url_check :: "string \<Rightarrow> py_exn option"
  hr_failures :: "revocation_failure list"
  hr_host :: 'h

definition http_revoker_init ::
  "string \<Rightarrow> string option \<Rightarrow> rat \<Rightarrow> 'h opener \<Rightarrow> (string \<Rightarrow> py_exn option) \<Rightarrow> 'h \<Rightarrow> 'h http_revoker" where
  "http_revoker_init url bearer timeout opn uc h =
     \<lparr>hr_url = url, hr_bearer = bearer, hr_timeout = timeout, hr_open = opn, hr_url_check = uc,
      hr_failures = [], hr_host = h\<rparr>"

definition add_revocation_failure :: "string \<Rightarrow> string \<Rightarrow> 'h http_revoker \<Rightarrow> 'h http_revoker" where
  "add_revocation_failure tok rsn r =
     r\<lparr>hr_failures := hr_failures r @ [\<lparr>rf_token_id = tok, rf_reason = rsn\<rparr>]\<rparr>"

text \<open>No float occurs in the body, so the float printer passed to \<open>dumps\<close> is never called.\<close>

definition revoke_body :: "string \<Rightarrow> bytes" where
  "revoke_body tok = dumps (\<lambda>_. []) (JObj [(''token_id'', JStr tok), (''action'', JStr ''revoke'')])"

definition http_revoke :: "string \<Rightarrow> ('h http_revoker, bool) py" where
  "http_revoke tok r =
     (case http_post (hr_url_check r) (hr_open r) (hr_url r) (hr_bearer r) (hr_timeout r) (revoke_body tok) (hr_host r) of
        (Inl e, h) \<Rightarrow> (Inl e, r\<lparr>hr_host := h\<rparr>)
      | (Inr None, h) \<Rightarrow> (Inr True, r\<lparr>hr_host := h\<rparr>)
      | (Inr (Some rsn), h) \<Rightarrow> (Inr False, add_revocation_failure tok rsn (r\<lparr>hr_host := h\<rparr>)))"

text \<open>The request of a revocation.\<close>

definition revoke_request :: "string \<Rightarrow> 'h http_revoker \<Rightarrow> http_request" where
  "revoke_request tok r =
     \<lparr>rq_url = hr_url r, rq_data = revoke_body tok, rq_headers = post_headers (hr_bearer r), rq_method = ''POST''\<rparr>"

text \<open>
  C34. The kill-path contract of \<^verbatim>\<open>HttpRevoker.revoke\<close>, with a URL \<^verbatim>\<open>Request\<close> accepts and an
  opener that raises only \<^verbatim>\<open>Exception\<close>s: \<^verbatim>\<open>True\<close> is a 2xx answer and leaves the failures as
  they were; \<^verbatim>\<open>False\<close> comes with one new failure that names the token; and it raises, a
  \<^verbatim>\<open>TypeError\<close> with nothing recorded, exactly when the answer's status is \<^verbatim>\<open>None\<close>, as it is for
  a \<^verbatim>\<open>file:\<close> URL and the default opener.
\<close>
theorem revoke_reports_failure:
  assumes "url_accepted (hr_url_check r) (hr_url r)" "opener_raises_exceptions (hr_open r)"
    and "hr_open r (revoke_request tok r) (hr_timeout r) (hr_host r) = (a, h)"
  shows "if a = Inr RespStatusNone then http_revoke tok r = (Inl none_comparison, r\<lparr>hr_host := h\<rparr>)
    else if \<exists>resp status. a = Inr resp \<and> response_status resp = Some status \<and> 200 \<le> status \<and> status < 300
    then http_revoke tok r = (Inr True, r\<lparr>hr_host := h\<rparr>)
    else \<exists>rsn. http_revoke tok r =
      (Inr False, r\<lparr>hr_host := h, hr_failures := hr_failures r @ [\<lparr>rf_token_id = tok, rf_reason = rsn\<rparr>]\<rparr>)"
proof -
  note rq = make_request_ok [OF assms(1), of "revoke_body tok" "post_headers (hr_bearer r)" "''POST''"]
  have o: "hr_open r \<lparr>rq_url = hr_url r, rq_data = revoke_body tok, rq_headers = post_headers (hr_bearer r), rq_method = ''POST''\<rparr>
      (hr_timeout r) (hr_host r) = (a, h)"
    using assms(3) by (simp add: revoke_request_def)
  have n: "response_status x = None \<longleftrightarrow> x = RespStatusNone" for x by (cases x) simp_all
  show ?thesis
  proof (cases a)
    case (Inl e)
    then have "is_Exception e" using assms(2) o unfolding opener_raises_exceptions_def by (metis fst_conv sum.case(1))
    then show ?thesis using Inl rq o
      by (auto simp: http_revoke_def http_post_def add_revocation_failure_def intro!: exI [of _ "failure_reason e"])
  next
    case (Inr x)
    then show ?thesis using rq o n [of x]
      by (cases "response_status x") (auto simp: http_revoke_def http_post_def add_revocation_failure_def)
  qed
qed

text \<open>An opener for \<^verbatim>\<open>file:\<close> URLs, whose responses have the status \<^verbatim>\<open>None\<close>.\<close>

definition file_opener :: "nat opener" where
  "file_opener rq t n = (Inr RespStatusNone, n + 1)"

definition file_revoker :: "nat http_revoker" where
  "file_revoker = http_revoker_init ''file:///var/run/revoke'' None 5 file_opener (\<lambda>_. None) 0"

theorem revoke_reports_failure_witness:
  "http_revoke ''tok-1'' file_revoker = (Inl none_comparison, file_revoker\<lparr>hr_host := 1\<rparr>)"
proof -
  have "url_accepted (\<lambda>_. None) ''file:///var/run/revoke''" by code_simp
  then have h: "url_accepted (hr_url_check file_revoker) (hr_url file_revoker)" "opener_raises_exceptions (hr_open file_revoker)"
    "hr_open file_revoker (revoke_request ''tok-1'' file_revoker) (hr_timeout file_revoker) (hr_host file_revoker) = (Inr RespStatusNone, 1)"
    by (simp_all add: file_revoker_def http_revoker_init_def file_opener_def opener_raises_exceptions_def)
  from revoke_reports_failure [OF h] show ?thesis by simp
qed

text \<open>
  Not every failure is reported as one: an endpoint URL without a scheme makes \<^verbatim>\<open>revoke\<close>
  raise \<^verbatim>\<open>ValueError\<close>, because \<^verbatim>\<open>Request(...)\<close> is built outside its \<^verbatim>\<open>try\<close>. Nothing is
  recorded and the opener is never called.
\<close>
theorem revoke_raises_on_bad_url:
  "http_revoke tok (http_revoker_init ''iam.internal/revoke'' bearer timeout opn uc h) =
     (Inl (Exn ValueErrorC ''unknown url type''), http_revoker_init ''iam.internal/revoke'' bearer timeout opn uc h)"
proof -
  have "\<not> has_scheme (unwrap_url ''iam.internal/revoke'')" "CHR ''#'' \<notin> set (unwrap_url ''iam.internal/revoke'')"
    by code_simp+
  then show ?thesis
    by (simp add: http_revoke_def http_revoker_init_def http_post_no_scheme)
qed

end
