(* ===== verification/HttpHead.thy ===== *)
theory HttpHead
  imports Prelude
begin

text \<open>
  The HTTP head handling of \<^verbatim>\<open>halt/intercept/terminate.py\<close>: \<^verbatim>\<open>_read_head\<close> and
  \<^verbatim>\<open>_parse_head\<close>. A stream is what the coming \<^verbatim>\<open>recv\<close> calls answer: data as it arrives in
  segments, or an exception; past the last segment the peer has closed.
\<close>

datatype segment = Data bytes | Fail py_exn

type_synonym stream = "segment list"

text \<open>\<^verbatim>\<open>recv(n)\<close>: at most \<open>n\<close> bytes of what has arrived; \<^verbatim>\<open>b""\<close> when the peer closed.\<close>

fun recv :: "nat \<Rightarrow> (stream, bytes) py" where
  "recv n [] = (Inr [], [])"
| "recv n (Fail e # s) = (Inl e, s)"
| "recv n (Data d # s) = (if length d \<le> n then (Inr d, s) else (Inr (take n d), Data (drop n d) # s))"

definition CRLF :: string where "CRLF = [CR, LF]"

definition HEAD_LIMIT :: nat where "HEAD_LIMIT = 65536"

text \<open>\<^verbatim>\<open>sep in s\<close>.\<close>

definition contains :: "string \<Rightarrow> string \<Rightarrow> bool" where
  "contains sep s \<longleftrightarrow> split_once sep s \<noteq> None"

section \<open>\_read\_head\<close>

function read_head_loop :: "bytes \<Rightarrow> (stream, bytes) py" where
  "read_head_loop buf s =
     (if contains (CRLF @ CRLF) buf then (Inr buf, s)
      else if HEAD_LIMIT < length buf then (Inr buf, s)
      else case recv 4096 s of
             (Inl e, s') \<Rightarrow> (if is_OSError e then (Inr buf, s') else (Inl e, s'))
           | (Inr chunk, s') \<Rightarrow> (if chunk = [] then (Inr buf, s') else read_head_loop (buf @ chunk) s'))"
  by pat_completeness auto
termination
  by (relation "measure (\<lambda>(buf, s). Suc HEAD_LIMIT - length buf)") (auto intro!: diff_less_mono2)

declare read_head_loop.simps [simp del]

definition read_head :: "(stream, bytes) py" where
  "read_head = read_head_loop []"

section \<open>\_parse\_head\<close>

text \<open>\<^verbatim>\<open>host: ...\<close> lines: the name, and the port when the value has exactly one colon.\<close>

definition host_line :: "string \<Rightarrow> bool" where
  "host_line l \<longleftrightarrow> starts_with (lower l) ''host:''"

definition host_field :: "string \<Rightarrow> py_exn + string \<times> int option" where
  "host_field v =
     (let host = strip v in
      if count_list host (CHR '':'') = 1 then
        (case rpartition (CHR '':'') host of
           (h, p) \<Rightarrow>
             if isdigit p then (case py_int p of Inl e \<Rightarrow> Inl e | Inr n \<Rightarrow> Inr (h, Some n))
             else Inr (h, None))
      else Inr (host, None))"

definition parse_host :: "string \<Rightarrow> py_exn + string \<times> int option" where
  "parse_host l =
     (case split_once '':'' l of
        None \<Rightarrow> Inl (Exn (OtherErrorC ''IndexError'') ''list index out of range'')
      | Some (_, v) \<Rightarrow> host_field v)"

text \<open>An absolute-form target carries the path after the authority.\<close>

definition origin_target :: "string \<Rightarrow> string" where
  "origin_target target =
     (if starts_with target ''http://'' \<or> starts_with target ''https://'' then
        (case split_once ''://'' target of
           None \<Rightarrow> target
         | Some (_, rest) \<Rightarrow>
             (case split_once ''/'' rest of None \<Rightarrow> ''/'' | Some (_, tail) \<Rightarrow> CHR ''/'' # tail))
      else target)"

type_synonym parsed_head = "string option \<times> string option \<times> string option \<times> int option"

definition parse_head :: "bytes \<Rightarrow> py_exn + parsed_head" where
  "parse_head head =
     (let text = (case split_once (CRLF @ CRLF) head of None \<Rightarrow> head | Some (a, _) \<Rightarrow> a);
          lines = split_on CRLF text
      in case split_on '' '' (hd lines) of
           [verb, target, version] \<Rightarrow>
             if \<not> starts_with version ''HTTP/1.'' then Inr (None, None, None, None)
             else let path = origin_target target in
               if \<not> starts_with path ''/'' then Inr (Some verb, None, None, None)
               else (case find host_line (tl lines) of
                       None \<Rightarrow> Inr (Some verb, Some path, None, None)
                     | Some l \<Rightarrow>
                         (case parse_host l of
                            Inl e \<Rightarrow> Inl e
                          | Inr (host, port) \<Rightarrow> Inr (Some verb, Some path, Some host, port)))
         | _ \<Rightarrow> Inr (None, None, None, None))"

section \<open>Reading: nothing lost, nothing unbounded\<close>

fun data_of :: "segment \<Rightarrow> bytes" where
  "data_of (Data d) = d"
| "data_of (Fail e) = []"

definition bytes_of :: "stream \<Rightarrow> bytes" where
  "bytes_of s = concat (map data_of s)"

lemma bytes_of_simps [simp]:
  "bytes_of [] = []" "bytes_of (Data d # s) = d @ bytes_of s" "bytes_of (Fail e # s) = bytes_of s"
  by (simp_all add: bytes_of_def)

lemma recv_bytes: "recv n s = (Inr c, s') \<Longrightarrow> bytes_of s = c @ bytes_of s' \<and> length c \<le> n"
  by (induction n s rule: recv.induct) (auto split: if_splits)

lemma recv_raises: "recv n s = (Inl e, s') \<Longrightarrow> bytes_of s = bytes_of s'"
  by (induction n s rule: recv.induct) (auto split: if_splits)

lemma read_head_loop_bytes:
  "read_head_loop buf s = (Inr h, s') \<Longrightarrow> length buf \<le> HEAD_LIMIT + 4096 \<Longrightarrow>
     length h \<le> HEAD_LIMIT + 4096 \<and> h @ bytes_of s' = buf @ bytes_of s"
proof (induction buf s rule: read_head_loop.induct)
  case (1 buf s)
  obtain r s1 where r: "recv 4096 s = (r, s1)" by fastforce
  show ?case
  proof (cases "contains (CRLF @ CRLF) buf \<or> HEAD_LIMIT < length buf")
    case True
    then show ?thesis using "1.prems" by (subst (asm) read_head_loop.simps) (auto split: if_splits)
  next
    case False
    show ?thesis
    proof (cases r)
      case (Inl e)
      then show ?thesis
        using "1.prems" False r recv_raises [of 4096 s e s1]
        by (subst (asm) read_head_loop.simps) (auto split: if_splits)
    next
      case (Inr c)
      have c: "bytes_of s = c @ bytes_of s1" "length c \<le> 4096" using recv_bytes [of 4096 s c s1] r Inr by auto
      show ?thesis
      proof (cases "c = []")
        case True
        then show ?thesis using "1.prems" False r Inr c by (subst (asm) read_head_loop.simps) auto
      next
        case nonempty: False
        have "read_head_loop (buf @ c) s1 = (Inr h, s')"
          using "1.prems"(1) False r Inr nonempty by (subst (asm) read_head_loop.simps) simp
        then show ?thesis using "1.IH" [of r s1 c] False r Inr nonempty c by simp
      qed
    qed
  qed
qed

text \<open>
  C25. However the bytes arrive, \<^verbatim>\<open>_read_head\<close> returns a prefix of them of at most 65536 + 4096
  bytes, and the stream keeps exactly the rest: nothing is lost, repeated or reordered
  between what is inspected and what the relay later copies.
\<close>
theorem read_head_bounded_prefix:
  "case read_head s of
     (Inl _, _) \<Rightarrow> True
   | (Inr h, s') \<Rightarrow> length h \<le> 69632 \<and> h @ bytes_of s' = bytes_of s"
  using read_head_loop_bytes [of "[]" s] by (auto simp: read_head_def HEAD_LIMIT_def split: prod.splits sum.splits)

text \<open>
  A head that ends within the limit is read whole, however it is cut into segments: the
  result splits at the same blank line as the stream does.
\<close>

lemma split_once_here:
  assumes "s = sep @ t" "s \<noteq> []"
  shows "split_once sep s = Some ([], t)"
proof -
  obtain c a where s: "s = c # a" using assms(2) by (cases s) auto
  have "starts_with (c # a) sep" using assms(1) s by (metis starts_with_append)
  moreover have "drop (length sep) (c # a) = t" using assms(1) s by (metis append_eq_conv_conj)
  ultimately show ?thesis unfolding s by (simp only: split_once.simps if_True)
qed

lemma split_once_later:
  "\<not> starts_with (c # s) sep \<Longrightarrow> split_once sep (c # s) = map_option (\<lambda>(a, b). (c # a, b)) (split_once sep s)"
  by simp

lemma starts_with_cut: "starts_with (a @ b) sep \<Longrightarrow> length sep \<le> length a \<Longrightarrow> starts_with a sep"
  by (metis prefixI prefix_length_prefix starts_with_prefix)

lemma split_once_more:
  assumes "split_once sep a = Some (h, r)"
  shows "split_once sep (a @ b) = Some (h, r @ b)"
  using assms
proof (induction a arbitrary: h)
  case (Cons c a)
  show ?case
  proof (cases "starts_with (c # a) sep")
    case True
    then obtain t where t: "c # a = sep @ t" by (auto simp: starts_with_iff)
    have "split_once sep (c # a) = Some ([], t)" by (rule split_once_here [OF t]) simp
    moreover have "split_once sep ((c # a) @ b) = Some ([], t @ b)"
    proof (rule split_once_here)
      show "(c # a) @ b = sep @ t @ b" unfolding t by simp
    qed simp
    ultimately show ?thesis using Cons.prems by simp
  next
    case False
    then obtain h' where h': "h = c # h'" "split_once sep a = Some (h', r)"
      using Cons.prems by (auto simp: split_once_later)
    have "length sep \<le> length (c # a)" using split_once_append [OF h'(2)] by simp
    then have "\<not> starts_with (c # a @ b) sep" using False starts_with_cut [of "c # a" b sep] by auto
    then show ?thesis using Cons.IH [OF h'(2)] h'(1) by simp
  qed
qed simp

lemma split_once_prefix:
  assumes "split_once sep (a @ b) = Some (h, rest)" "sep \<noteq> []" "length h + length sep \<le> length a"
  shows "\<exists>r. split_once sep a = Some (h, r)"
  using assms
proof (induction a arbitrary: h)
  case (Cons c a)
  show ?case
  proof (cases "starts_with (c # a @ b) sep")
    case True
    then have h: "h = []" using Cons.prems(1) by simp
    then have "starts_with (c # a) sep" using True Cons.prems(3) starts_with_cut [of "c # a" b sep] by simp
    then show ?thesis using h by simp
  next
    case False
    then have no: "\<not> starts_with (c # a) sep"
      by (metis append_Cons prefix_prefix starts_with_prefix)
    obtain h' where h': "h = c # h'" "split_once sep (a @ b) = Some (h', rest)"
      using Cons.prems(1) False by (auto simp: split_once_later)
    then show ?thesis using Cons.IH [of h'] Cons.prems(2,3) no by (auto simp: split_once_later)
  qed
qed simp

fun steady :: "stream \<Rightarrow> bool" where
  "steady [] = True"
| "steady (Data d # s) = (d \<noteq> [] \<and> steady s)"
| "steady (Fail e # s) = False"

lemma recv_steady:
  "steady s \<Longrightarrow> 0 < n \<Longrightarrow> \<exists>c s'. recv n s = (Inr c, s') \<and> steady s' \<and> (c = [] \<longrightarrow> s = [])"
  by (induction n s rule: recv.induct) auto

lemma read_head_loop_complete:
  assumes "split_once (CRLF @ CRLF) (buf @ bytes_of s) = Some (h, rest)" "length h + 3 \<le> HEAD_LIMIT" "steady s"
  shows "\<exists>b s' r. read_head_loop buf s = (Inr b, s') \<and> split_once (CRLF @ CRLF) b = Some (h, r)"
  using assms
proof (induction buf s rule: read_head_loop.induct)
  case (1 buf s)
  let ?sep = "CRLF @ CRLF"
  have sep: "length ?sep = 4" by (simp add: CRLF_def)
  show ?case
  proof (cases "split_once ?sep buf")
    case (Some x)
    then obtain h' r where x: "split_once ?sep buf = Some (h', r)" by (cases x) auto
    have "split_once ?sep (buf @ bytes_of s) = Some (h', r @ bytes_of s)" by (rule split_once_more [OF x])
    then have "h' = h" using "1.prems"(1) by simp
    then show ?thesis using x by (subst read_head_loop.simps) (simp add: contains_def)
  next
    case None
    then have short: "length buf < length h + 4"
      using split_once_prefix [OF "1.prems"(1)] sep by (fastforce simp: CRLF_def)
    then have lim: "\<not> HEAD_LIMIT < length buf" using "1.prems"(2) by simp
    obtain c s' where c: "recv 4096 s = (Inr c, s')" "steady s'" "c = [] \<longrightarrow> s = []"
      using recv_steady [OF "1.prems"(3), of 4096] by auto
    have "c \<noteq> []"
    proof
      assume "c = []"
      then have "bytes_of s = []" using c(3) by simp
      then show False using "1.prems"(1) None by simp
    qed
    moreover have "bytes_of s = c @ bytes_of s'" using recv_bytes [OF c(1)] by simp
    ultimately show ?thesis
      using "1.IH" [of "Inr c" s' c] "1.prems" None lim c
      by (subst read_head_loop.simps) (simp add: contains_def)
  qed
qed

text \<open>
  A head whose blank line comes within the limit is always read whole, whatever the segments:
  what \<^verbatim>\<open>_read_head\<close> returns splits at the blank line of the stream.
\<close>
theorem read_head_finds_head:
  assumes "split_once (CRLF @ CRLF) (bytes_of s) = Some (h, rest)" "length h \<le> 65533" "steady s"
  shows "\<exists>b s' r. read_head s = (Inr b, s') \<and> split_once (CRLF @ CRLF) b = Some (h, r)"
  using read_head_loop_complete [of "[]" s h rest] assms
  by (auto simp: read_head_def HEAD_LIMIT_def)

theorem read_head_finds_head_witness:
  "\<exists>b s' r. read_head [Data (''GET / HTTP/1.1'' @ [CR]), Data [LF, CR], Data (LF # ''body'')] = (Inr b, s')
     \<and> split_once (CRLF @ CRLF) b = Some (''GET / HTTP/1.1'', r)"
proof -
  have "split_once (CRLF @ CRLF) (bytes_of [Data (''GET / HTTP/1.1'' @ [CR]), Data [LF, CR], Data (LF # ''body'')])
      = Some (''GET / HTTP/1.1'', ''body'')"
    by code_simp
  then show ?thesis by (rule read_head_finds_head) simp_all
qed

section \<open>Parsing what a client writes\<close>

definition header_line :: "string \<times> string \<Rightarrow> string" where
  "header_line h = fst h @ '': '' @ snd h"

definition render_head :: "string \<Rightarrow> string \<Rightarrow> string \<Rightarrow> (string \<times> string) list \<Rightarrow> bytes" where
  "render_head m t v hs = intercalate CRLF ((m @ '' '' @ t @ '' '' @ v) # map header_line hs) @ CRLF @ CRLF"

lemma CR_neq_LF [simp]: "CR \<noteq> LF" "LF \<noteq> CR"
  by (simp_all add: CR_def LF_def)

lemma split_once_skip:
  "c \<notin> set l \<Longrightarrow> split_once (c # p) (l @ s) = map_option (\<lambda>(a, b). (l @ a, b)) (split_once (c # p) s)"
  by (induction l) (auto simp: option.map_comp comp_def split_def option.map_ident)

lemma split_once_absent: "c \<notin> set l \<Longrightarrow> split_once (c # p) l = None"
  using split_once_skip [of c l p "[]"] by simp

lemma split_on_lines:
  assumes "ls \<noteq> []" "\<forall>l \<in> set ls. CR \<notin> set l"
  shows "split_on CRLF (intercalate CRLF ls) = ls"
  using assms
proof (induction ls)
  case (Cons l ls)
  show ?case
  proof (cases ls)
    case Nil
    then show ?thesis using Cons.prems
      by (simp add: intercalate_def split_on.simps CRLF_def split_once_absent)
  next
    case (Cons l' ls')
    have "split_once CRLF (l @ CRLF @ intercalate CRLF ls) = Some (l, intercalate CRLF ls)"
      using split_once_skip [of CR l "[LF]" "CRLF @ intercalate CRLF ls"] Cons.prems(2)
      by (simp add: CRLF_def)
    moreover have "split_on CRLF (intercalate CRLF ls) = ls" using Cons.IH Cons.prems Cons by simp
    moreover have "intercalate CRLF (l # ls) = l @ CRLF @ intercalate CRLF ls"
      using Cons by (simp add: intercalate_Cons)
    ultimately show ?thesis
      using split_on.simps [of CRLF "l @ CRLF @ intercalate CRLF ls"] by (simp add: CRLF_def)
  qed
qed simp

lemma split_head:
  assumes "ls \<noteq> []" "\<forall>l \<in> set ls. CR \<notin> set l \<and> l \<noteq> []"
  shows "split_once (CRLF @ CRLF) (intercalate CRLF ls @ CRLF @ CRLF @ body) = Some (intercalate CRLF ls, body)"
  using assms
proof (induction ls)
  case (Cons l ls)
  have sk: "split_once (CRLF @ CRLF) (l @ s) = map_option (\<lambda>(a, b). (l @ a, b)) (split_once (CRLF @ CRLF) s)" for s
    using split_once_skip [of CR l "LF # CRLF" s] Cons.prems(2) by (simp add: CRLF_def)
  show ?case
  proof (cases ls)
    case Nil
    have "split_once (CRLF @ CRLF) (CRLF @ CRLF @ body) = Some ([], body)"
      by (rule split_once_here) (simp_all add: CRLF_def)
    then show ?thesis using sk [of "CRLF @ CRLF @ body"] Nil by (simp add: intercalate_def)
  next
    case (Cons l' ls')
    let ?t = "intercalate CRLF ls"
    obtain c u where u: "?t = c # u" "c \<noteq> CR"
      using Cons Cons.prems(2) by (cases l') (auto simp: intercalate_def)
    have "split_once (CRLF @ CRLF) (CRLF @ ?t @ CRLF @ CRLF @ body) = Some (CRLF @ ?t, body)"
      using Cons.IH Cons.prems Cons u by (simp add: CRLF_def)
    then show ?thesis using sk [of "CRLF @ ?t @ CRLF @ CRLF @ body"] Cons by (simp add: intercalate_Cons)
  qed
qed simp

text \<open>A request head as a client writes it: no separator inside its parts.\<close>

definition plain :: "string \<Rightarrow> bool" where
  "plain s \<longleftrightarrow> CR \<notin> set s \<and> CHR '' '' \<notin> set s"

definition header_ok :: "string \<times> string \<Rightarrow> bool" where
  "header_ok h \<longleftrightarrow> CR \<notin> set (fst h) \<and> CHR '':'' \<notin> set (fst h) \<and> CR \<notin> set (snd h)"

definition host_header :: "(string \<times> string) list \<Rightarrow> (string \<times> string) option" where
  "host_header hs = find (\<lambda>h. lower (fst h) = ''host'') hs"

lemma lower_char_fixed [simp]: "lower_char (CHR '':'') = CHR '':''" "lower_char (CHR '' '') = CHR '' ''"
  by (simp_all add: lower_char_def Let_def)

lemma lower_char_colon: "lower_char c = CHR '':'' \<longleftrightarrow> c = CHR '':''"
proof
  assume a: "lower_char c = CHR '':''"
  show "c = CHR '':''"
  proof (rule ccontr)
    assume "c \<noteq> CHR '':''"
    then have r: "(65 \<le> ord_of c \<and> ord_of c \<le> 90) \<or> (192 \<le> ord_of c \<and> ord_of c \<le> 222)"
      and e: "char_of (ord_of c + 32) = CHR '':''"
      using a by (auto simp: lower_char_def Let_def split: if_splits)
    have "ord_of (char_of (ord_of c + 32)) = 58" unfolding e by simp
    moreover have "ord_of (char_of (ord_of c + 32)) = (ord_of c + 32) mod 256" by simp
    ultimately show False using r by auto
  qed
qed simp

lemma lower_char_colon': "CHR '':'' = lower_char c \<longleftrightarrow> c = CHR '':''"
  using lower_char_colon [of c] by (metis (no_types))

lemma starts_with_colon:
  assumes "CHR '':'' \<notin> set n" "CHR '':'' \<notin> set k"
  shows "starts_with (n @ CHR '':'' # x) (k @ '':'') \<longleftrightarrow> n = k"
proof -
  have "n = k" if "n @ CHR '':'' # x = (k @ '':'') @ t" for t
    using that assms by (auto simp: append_eq_append_conv2 append_eq_Cons_conv Cons_eq_append_conv)
  moreover have "starts_with (k @ CHR '':'' # x) (k @ '':'')" by (auto simp: starts_with_iff)
  ultimately show ?thesis by (auto simp: starts_with_iff)
qed

lemma host_line_header:
  assumes "header_ok h"
  shows "host_line (header_line h) \<longleftrightarrow> lower (fst h) = ''host''"
proof -
  have "CHR '':'' \<notin> set (lower (fst h))"
    using assms by (auto simp: header_ok_def lower_def lower_char_colon' image_iff)
  then show ?thesis
    using starts_with_colon [of "lower (fst h)" "''host''" "CHR '' '' # lower (snd h)"]
    by (simp add: host_line_def header_line_def lower_def)
qed

lemma find_host_line:
  "list_all header_ok hs \<Longrightarrow> find host_line (map header_line hs) = map_option header_line (host_header hs)"
  by (induction hs) (auto simp: host_header_def host_line_header)

lemma strip_space: "strip (CHR '' '' # v) = strip v"
  by (simp add: strip_def is_space_def Let_def)

lemma host_field_space: "host_field (CHR '' '' # v) = host_field v"
  by (simp add: host_field_def strip_space)

lemma parse_host_header: "header_ok h \<Longrightarrow> parse_host (header_line h) = host_field (snd h)"
  using split_once_skip [of "CHR '':''" "fst h" "[]" "'': '' @ snd h"]
  by (simp add: parse_host_def header_line_def header_ok_def host_field_space)

lemma split_request_line:
  "plain m \<Longrightarrow> plain t \<Longrightarrow> plain v \<Longrightarrow> split_on '' '' (m @ '' '' @ t @ '' '' @ v) = [m, t, v]"
  using split_on_intercalate [of "[m, t, v]" "CHR '' ''"] by (simp add: intercalate_def plain_def)

lemma header_line_nonempty [simp]: "header_line h \<noteq> []"
  by (simp add: header_line_def)

text \<open>
  The parser reads back what a client wrote: method and path exactly, and the host of the
  first \<^verbatim>\<open>Host\<close> header in any letter case, whatever follows the head.
\<close>
lemma parse_render_head:
  assumes "plain m" "plain t" "starts_with t ''/''" "plain w" "list_all header_ok hs"
  shows "parse_head (render_head m t (''HTTP/1.'' @ w) hs @ body) =
    (case host_header hs of
       None \<Rightarrow> Inr (Some m, Some t, None, None)
     | Some h \<Rightarrow> (case host_field (snd h) of
         Inl e \<Rightarrow> Inl e
       | Inr (host, port) \<Rightarrow> Inr (Some m, Some t, Some host, port)))"
proof -
  let ?l = "m @ '' '' @ t @ '' '' @ ''HTTP/1.'' @ w"
  let ?ls = "?l # map header_line hs"
  have v: "plain (''HTTP/1.'' @ w)" using assms(4) by (simp add: plain_def CR_def)
  have cr: "\<forall>l \<in> set ?ls. CR \<notin> set l \<and> l \<noteq> []"
    using assms v by (auto simp: plain_def header_ok_def header_line_def list_all_iff CR_def)
  have hd: "split_once (CRLF @ CRLF) (render_head m t (''HTTP/1.'' @ w) hs @ body) = Some (intercalate CRLF ?ls, body)"
    using split_head [OF _ cr, of body] by (simp add: render_head_def)
  have lines: "split_on CRLF (intercalate CRLF ?ls) = ?ls"
    using split_on_lines [of ?ls] cr by blast
  have target: "origin_target t = t"
    using assms(3) by (auto simp: origin_target_def starts_with_iff)
  have req: "split_on '' '' ?l = [m, t, ''HTTP/1.'' @ w]"
    using split_request_line [OF assms(1,2) v] by simp
  have hok: "header_ok h" if "host_header hs = Some h" for h
    using that assms(5) by (auto simp: host_header_def find_Some_iff list_all_length)
  have p: "parse_head (render_head m t (''HTTP/1.'' @ w) hs @ body) =
      (case find host_line (map header_line hs) of
         None \<Rightarrow> Inr (Some m, Some t, None, None)
       | Some l \<Rightarrow> (case parse_host l of Inl e \<Rightarrow> Inl e | Inr (host, port) \<Rightarrow> Inr (Some m, Some t, Some host, port)))"
    unfolding parse_head_def hd option.case prod.case Let_def lines list.sel req list.case target
    using assms(3) by simp
  show ?thesis
    unfolding p find_host_line [OF assms(5)] using hok
    by (cases "host_header hs") (simp_all add: parse_host_header)
qed

definition host_value :: "string \<Rightarrow> nat option \<Rightarrow> string" where
  "host_value name port = name @ (case port of None \<Rightarrow> [] | Some p \<Rightarrow> CHR '':'' # show_nat p)"

definition name_ok :: "string \<Rightarrow> bool" where
  "name_ok s \<longleftrightarrow> s \<noteq> [] \<and> list_all (\<lambda>c. \<not> is_space c \<and> c \<noteq> CHR '':'') s"

lemma decimal_no_space: "is_decimal c \<Longrightarrow> \<not> is_space c"
  by (auto simp: is_decimal_def is_space_def Let_def)

lemma decimal_no_colon: "is_decimal c \<Longrightarrow> c \<noteq> CHR '':''"
  by (auto simp: is_decimal_def Let_def)

lemma strip_solid: "list_all (\<lambda>c. \<not> is_space c) s \<Longrightarrow> strip s = s"
proof -
  have d: "dropWhile is_space t = t" if "list_all (\<lambda>c. \<not> is_space c) t" for t
    using that by (cases t) simp_all
  show "list_all (\<lambda>c. \<not> is_space c) s \<Longrightarrow> strip s = s"
    using d [of s] d [of "rev s"] by (simp add: strip_def)
qed

lemma rpartition_last:
  "c \<notin> set b \<Longrightarrow> rpartition c (a @ c # b) = (a, b)"
  by (simp add: rpartition_def Let_def takeWhile_append)

lemma show_nat_length_port: "n < 65536 \<Longrightarrow> length (show_nat n) \<le> int_max_str_digits"
  by (subst show_nat.simps, subst show_nat.simps, subst show_nat.simps, subst show_nat.simps, subst show_nat.simps)
     (auto simp: int_max_str_digits_def)

lemma host_field_value:
  assumes "name_ok name" "case port of None \<Rightarrow> True | Some p \<Rightarrow> p < 65536"
  shows "host_field (host_value name port) = Inr (name, map_option int port)"
proof (cases port)
  case None
  have "strip name = name" using assms(1) by (intro strip_solid) (simp add: name_ok_def list_all_iff)
  moreover have "count_list name (CHR '':'') = 0"
    using assms(1) by (auto simp: name_ok_def list_all_iff count_list_0_iff)
  ultimately show ?thesis using None by (simp add: host_field_def host_value_def Let_def)
next
  case (Some p)
  let ?v = "name @ CHR '':'' # show_nat p"
  have dec: "list_all is_decimal (show_nat p)" by (rule show_nat_decimal)
  have nc: "CHR '':'' \<notin> set (show_nat p)" using dec decimal_no_colon by (auto simp: list_all_iff)
  have "list_all (\<lambda>c. \<not> is_space c) ?v"
    using assms(1) dec decimal_no_space by (auto simp: name_ok_def list_all_iff is_space_def)
  then have "strip ?v = ?v" by (rule strip_solid)
  moreover have "count_list ?v (CHR '':'') = 1"
    using assms(1) nc by (auto simp: name_ok_def list_all_iff count_list_0_iff)
  moreover have "isdigit (show_nat p)" using dec by (simp add: isdigit_decimal)
  moreover have "py_int (show_nat p) = Inr (int p)"
    using dec show_nat_length_port [of p] assms(2) Some by (simp add: py_int_def)
  ultimately show ?thesis
    using Some rpartition_last [OF nc, of name] by (simp add: host_field_def host_value_def Let_def)
qed

text \<open>
  C23. Round trip of a request head: whatever the client sends after it and however many other
  headers it has, \<^verbatim>\<open>_parse_head\<close> returns the method, the path and the host and port of its
  first \<^verbatim>\<open>Host\<close> header, in any letter case of the header's name.
\<close>
theorem parse_head_roundtrip:
  assumes "plain m" "plain t" "starts_with t ''/''" "plain w" "list_all header_ok hs"
    and "host_header hs = Some (n, host_value name port)" "name_ok name"
    and "case port of None \<Rightarrow> True | Some p \<Rightarrow> p < 65536"
  shows "parse_head (render_head m t (''HTTP/1.'' @ w) hs @ body) =
    Inr (Some m, Some t, Some name, map_option int port)"
  using parse_render_head [OF assms(1-5), of body] assms(6) host_field_value [OF assms(7,8)] by simp

theorem parse_head_roundtrip_witness:
  "parse_head (render_head ''GET'' ''/api/npm/foo'' ''HTTP/1.1''
       [(''Accept'', ''*/*''), (''hOsT'', ''artifactory.internal:8443'')] @ ''GET /second'') =
     Inr (Some ''GET'', Some ''/api/npm/foo'', Some ''artifactory.internal'', Some 8443)"
proof -
  have "digit_char 8 = CHR ''8''" "digit_char 4 = CHR ''4''" "digit_char 3 = CHR ''3''" by code_simp+
  then have "show_nat 8443 = ''8443''" by (simp add: show_nat.simps)
  moreover have "lower ''Accept'' = ''accept''" "lower ''hOsT'' = ''host''" by code_simp+
  ultimately have h: "host_header [(''Accept'', ''*/*''), (''hOsT'', ''artifactory.internal:8443'')] =
      Some (''hOsT'', host_value ''artifactory.internal'' (Some 8443))"
    by (simp add: host_header_def host_value_def)
  have "plain ''GET''" "plain ''/api/npm/foo''" "starts_with ''/api/npm/foo'' ''/''" "plain ''1''"
    "list_all header_ok [(''Accept'', ''*/*''), (''hOsT'', ''artifactory.internal:8443'')]"
    "name_ok ''artifactory.internal''"
    by code_simp+
  from parse_head_roundtrip [OF this(1-5) h this(6), of "''GET /second''"] show ?thesis by simp
qed

section \<open>What the parser may answer\<close>

lemma origin_target_path:
  assumes "starts_with (origin_target t) ''/''"
  shows "t = origin_target t \<or> (\<exists>s a. s \<in> {''http'', ''https''} \<and> CHR ''/'' \<notin> set a
     \<and> (t = s @ ''://'' @ a @ origin_target t \<or> t = s @ ''://'' @ a \<and> origin_target t = ''/''))"
proof (cases "starts_with t ''http://'' \<or> starts_with t ''https://''")
  case False
  then show ?thesis by (simp add: origin_target_def)
next
  case True
  then obtain rest where "t = ''http'' @ ''://'' @ rest \<or> t = ''https'' @ ''://'' @ rest"
    by (auto simp: starts_with_iff)
  then obtain s where s: "s \<in> {''http'', ''https''}" "t = s @ ''://'' @ rest" by blast
  have sp: "split_once ''://'' t = Some (s, rest)"
    using s by auto
  show ?thesis
  proof (cases "split_once ''/'' rest")
    case None
    then have "CHR ''/'' \<notin> set rest" by (simp add: split_once_single split: if_splits)
    then show ?thesis using True s sp None by (auto simp: origin_target_def)
  next
    case (Some x)
    obtain a tail where x: "split_once ''/'' rest = Some (a, tail)" using Some by (cases x) auto
    then have a: "CHR ''/'' \<notin> set a"
      by (auto simp: split_once_single split: if_splits dest: set_takeWhileD)
    have "rest = a @ CHR ''/'' # tail" using split_once_append [OF x] by simp
    then show ?thesis using True s sp x a by (auto simp: origin_target_def)
  qed
qed

lemma split_on_hd: "\<exists>rest. s = hd (split_on sep s) @ rest"
proof (cases "split_on sep s")
  case (Cons x xs)
  then have "s = intercalate sep (x # xs)" using intercalate_split_on [of sep s] by simp
  then show ?thesis using Cons by (auto simp: intercalate_def)
qed (use split_on_nonempty [of sep s] in simp)

lemma parse_head_cases:
  assumes "parse_head h = Inr (m, Some p, host, port)"
  obtains verb target w rest where "m = Some verb" "h = verb @ '' '' @ target @ '' HTTP/1.'' @ w @ rest"
    "origin_target target = p" "starts_with p ''/''"
proof -
  define tx where "tx = (case split_once (CRLF @ CRLF) h of None \<Rightarrow> h | Some (a, _) \<Rightarrow> a)"
  define l where "l = hd (split_on CRLF tx)"
  obtain verb target v where sp: "split_on '' '' l = [verb, target, v]" "starts_with v ''HTTP/1.''"
      "starts_with (origin_target target) ''/''" "m = Some verb" "p = origin_target target"
    using assms unfolding parse_head_def tx_def [symmetric] Let_def l_def [symmetric]
    by (auto split: list.splits if_splits option.splits sum.splits prod.splits)
  obtain w where w: "v = ''HTTP/1.'' @ w" using sp(2) by (auto simp: starts_with_iff)
  have l: "l = verb @ '' '' @ target @ '' '' @ v"
    using intercalate_split_on [of "'' ''" l] sp(1) by (simp add: intercalate_def)
  obtain r1 where "tx = l @ r1" using split_on_hd [of tx CRLF] l_def by blast
  moreover obtain r2 where "h = tx @ r2"
  proof (cases "split_once (CRLF @ CRLF) h")
    case None
    then show ?thesis using that [of "[]"] by (simp add: tx_def)
  next
    case (Some x)
    then show ?thesis using that split_once_append [of "CRLF @ CRLF" h "fst x" "snd x"]
      by (cases x) (simp add: tx_def)
  qed
  ultimately have "h = verb @ '' '' @ target @ '' HTTP/1.'' @ w @ r1 @ r2" using l w by simp
  then show ?thesis using that sp by blast
qed

text \<open>
  A path is only ever returned from a well-formed request line, never guessed: the head
  starts with a method, a target and an HTTP/1 version, and the path starts with a slash
  and is the target itself, or what follows the authority of an \<^verbatim>\<open>http(s)://\<close> target (the
  root when nothing does).
\<close>
theorem parsed_path_is_in_request_line:
  assumes "parse_head h = Inr (m, Some p, host, port)"
  shows "\<exists>verb target rest. m = Some verb \<and> h = verb @ '' '' @ target @ '' HTTP/1.'' @ rest
    \<and> starts_with p ''/''
    \<and> (target = p \<or> (\<exists>s a. s \<in> {''http'', ''https''} \<and> CHR ''/'' \<notin> set a
          \<and> (target = s @ ''://'' @ a @ p \<or> target = s @ ''://'' @ a \<and> p = ''/'')))"
proof -
  obtain verb target w rest where c: "m = Some verb" "h = verb @ '' '' @ target @ '' HTTP/1.'' @ w @ rest"
      "origin_target target = p" "starts_with p ''/''"
    using parse_head_cases [OF assms] by blast
  have "target = p \<or> (\<exists>s a. s \<in> {''http'', ''https''} \<and> CHR ''/'' \<notin> set a
          \<and> (target = s @ ''://'' @ a @ p \<or> target = s @ ''://'' @ a \<and> p = ''/''))"
    using origin_target_path [of target] c(3,4) by simp
  then show ?thesis using c(1,2,4) by blast
qed

theorem parsed_path_is_in_request_line_witness:
  "\<exists>verb target rest. Some ''GET'' = Some verb
     \<and> ''GET http://evil.example/api/npm/foo HTTP/1.1'' = verb @ '' '' @ target @ '' HTTP/1.'' @ rest
     \<and> starts_with ''/api/npm/foo'' ''/''"
proof -
  have "parse_head ''GET http://evil.example/api/npm/foo HTTP/1.1'' = Inr (Some ''GET'', Some ''/api/npm/foo'', None, None)"
    by code_simp
  from parsed_path_is_in_request_line [OF this] show ?thesis by blast
qed

text \<open>The parser raises nothing but \<^verbatim>\<open>ValueError\<close>, and that only for the port of a \<^verbatim>\<open>Host\<close> header.\<close>

lemma host_field_raises: "host_field v = Inl e \<Longrightarrow> exn_class e = ValueErrorC"
  by (auto simp: host_field_def Let_def py_int_def split: if_splits sum.splits prod.splits)

lemma host_line_colon:
  assumes "host_line l"
  shows "\<exists>a b. split_once '':'' l = Some (a, b)"
proof -
  obtain t where "map lower_char l = ''host:'' @ t" using assms by (auto simp: host_line_def lower_def starts_with_iff)
  then have "CHR '':'' \<in> lower_char ` set l" by (metis append_Cons list.set_intros(1,2) list.set_map)
  then have "CHR '':'' \<in> set l" by (auto simp: lower_char_colon')
  then show ?thesis by (simp add: split_once_single)
qed

lemma parse_host_raises: "host_line l \<Longrightarrow> parse_host l = Inl e \<Longrightarrow> exn_class e = ValueErrorC"
  using host_line_colon [of l] by (auto simp: parse_host_def host_field_raises)

lemma parse_head_raises: "parse_head h = Inl e \<Longrightarrow> exn_class e = ValueErrorC"
  unfolding parse_head_def Let_def
  by (auto split: list.splits if_splits option.splits sum.splits prod.splits simp: find_Some_iff
      dest: parse_host_raises)

fun head_shape :: "parsed_head \<Rightarrow> bool" where
  "head_shape (None, None, None, None) = True"
| "head_shape (Some _, None, None, None) = True"
| "head_shape (Some _, Some path, None, None) = starts_with path ''/''"
| "head_shape (Some _, Some path, Some _, None) = starts_with path ''/''"
| "head_shape (Some _, Some path, Some _, Some port) = (starts_with path ''/'' \<and> 0 \<le> port)"
| "head_shape _ = False"

lemma py_int_natural: "py_int s = Inr n \<Longrightarrow> 0 \<le> n"
  by (auto simp: py_int_def split: if_splits)

lemma parse_host_natural: "parse_host l = Inr (h, Some n) \<Longrightarrow> 0 \<le> n"
  by (auto simp: parse_host_def host_field_def Let_def py_int_natural split: option.splits if_splits sum.splits prod.splits)

lemma parse_host_shape: "starts_with t ''/'' \<Longrightarrow> parse_host l = Inr (h, port) \<Longrightarrow> head_shape (Some m, Some t, Some h, port)"
  using parse_host_natural [of l h] by (cases port) auto

text \<open>
  C24. The parser's only exception is \<^verbatim>\<open>ValueError\<close>, and what it returns fits together: no path
  without a method, no host without a path, no port without a host; the path starts with a
  slash and the port is a natural number.
\<close>
theorem parse_head_type: "case parse_head h of Inl e \<Rightarrow> exn_class e = ValueErrorC | Inr r \<Rightarrow> head_shape r"
proof (cases "parse_head h")
  case (Inl e)
  then show ?thesis using parse_head_raises [OF Inl] by simp
next
  case (Inr r)
  then have "head_shape r"
    unfolding parse_head_def Let_def
    by (auto split: list.splits if_splits option.splits sum.splits prod.splits intro: parse_host_shape)
  then show ?thesis using Inr by simp
qed

lemma digit_port_parse:
  assumes "plain m" "plain t" "starts_with t ''/''" "plain w" "list_all header_ok hs"
    and "host_header hs = Some (n, name @ '':'' @ p)" "name_ok name"
    and "isdigit p" "list_ex (\<lambda>c. \<not> is_decimal c) p \<or> 4300 < length p"
  shows "\<exists>msg. parse_head (render_head m t (''HTTP/1.'' @ w) hs @ body) = Inl (Exn ValueErrorC msg)"
proof -
  let ?v = "name @ CHR '':'' # p"
  have d: "list_all is_digit_char p" "p \<noteq> []" using assms(8) by (simp_all add: isdigit_def)
  have c: "\<not> is_space c \<and> c \<noteq> CHR '':''" if "is_digit_char c" for c
    using that by (auto simp: is_digit_char_def is_decimal_def is_space_def Let_def)
  have nc: "CHR '':'' \<notin> set p" using d(1) c by (auto simp: list_all_iff)
  have "list_all (\<lambda>c. \<not> is_space c) ?v"
    using assms(7) d(1) c by (auto simp: name_ok_def list_all_iff is_space_def)
  then have "strip ?v = ?v" by (rule strip_solid)
  moreover have "count_list ?v (CHR '':'') = 1"
    using assms(7) nc by (auto simp: name_ok_def list_all_iff count_list_0_iff)
  moreover have "\<exists>msg. py_int p = Inl (Exn ValueErrorC msg)"
    using assms(9) by (auto simp: py_int_def int_max_str_digits_def list_all_iff list_ex_iff)
  ultimately have "\<exists>msg. host_field ?v = Inl (Exn ValueErrorC msg)"
    using assms(8) rpartition_last [OF nc, of name] by (auto simp: host_field_def Let_def)
  then show ?thesis using parse_render_head [OF assms(1-5), of body] assms(6) by auto
qed

text \<open>
  \<^verbatim>\<open>isdigit()\<close> accepts characters \<^verbatim>\<open>int()\<close> refuses: a request whose \<^verbatim>\<open>Host\<close> port holds a
  superscript digit (0xB2, 0xB3, 0xB9), or more than 4300 digits, makes \<^verbatim>\<open>_parse_head\<close>
  raise \<^verbatim>\<open>ValueError\<close> instead of answering that there is no port.
\<close>
theorem digit_port_raises:
  assumes "plain m" "plain t" "starts_with t ''/''" "plain w" "list_all header_ok hs"
    and "host_header hs = Some (n, name @ '':'' @ p)" "name_ok name"
    and "isdigit p" "list_ex (\<lambda>c. \<not> is_decimal c) p \<or> 4300 < length p"
  shows "\<exists>msg. parse_head (render_head m t (''HTTP/1.'' @ w) hs @ body) = Inl (Exn ValueErrorC msg)"
  by (rule digit_port_parse [OF assms])

theorem digit_port_raises_witness:
  "\<exists>msg. parse_head (render_head ''GET'' ''/'' ''HTTP/1.1'' [(''Host'', ''pypi.org:'' @ [CHR 0xB2])] @ []) =
     Inl (Exn ValueErrorC msg)"
proof -
  have p: "plain ''GET''" "plain ''/''" "starts_with ''/'' ''/''" "plain ''1''"
    "list_all header_ok [(''Host'', ''pypi.org:'' @ [CHR 0xB2])]" "name_ok ''pypi.org''" "isdigit [CHR 0xB2]"
    "list_ex (\<lambda>c. \<not> is_decimal c) [CHR 0xB2]" "lower ''Host'' = ''host''"
    by code_simp+
  have h: "host_header [(''Host'', ''pypi.org:'' @ [CHR 0xB2])] = Some (''Host'', ''pypi.org'' @ '':'' @ [CHR 0xB2])"
    using p(9) by (simp add: host_header_def)
  show ?thesis using digit_port_raises [OF p(1-5) h p(6,7) disjI1 [OF p(8)], of "[]"] by simp
qed

section \<open>Reading and parsing together\<close>

lemma parse_head_same:
  "split_once (CRLF @ CRLF) a = Some (h, r) \<Longrightarrow> split_once (CRLF @ CRLF) b = Some (h, r') \<Longrightarrow> parse_head a = parse_head b"
  by (simp add: parse_head_def)

lemma read_head_loop_steady:
  "read_head_loop buf s = (Inr b, s') \<Longrightarrow> steady s \<Longrightarrow> steady s'"
proof (induction buf s rule: read_head_loop.induct)
  case (1 buf s)
  show ?case
  proof (cases "contains (CRLF @ CRLF) buf \<or> HEAD_LIMIT < length buf")
    case True
    then show ?thesis using "1.prems" by (subst (asm) read_head_loop.simps) (auto split: if_splits)
  next
    case False
    obtain c s1 where c: "recv 4096 s = (Inr c, s1)" "steady s1"
      using recv_steady [OF "1.prems"(2), of 4096] by auto
    show ?thesis
    proof (cases "c = []")
      case True
      then show ?thesis using "1.prems" False c by (subst (asm) read_head_loop.simps) auto
    next
      case nonempty: False
      have "read_head_loop (buf @ c) s1 = (Inr b, s')"
        using "1.prems"(1) False c nonempty by (subst (asm) read_head_loop.simps) simp
      then show ?thesis using "1.IH" [of "Inr c" s1 c] False c nonempty by simp
    qed
  qed
qed

text \<open>A stream that starts with a request as a client writes it, in any segments.\<close>

definition request_stream ::
  "string \<Rightarrow> string \<Rightarrow> string \<Rightarrow> (string \<times> string) list \<Rightarrow> bytes \<Rightarrow> stream \<Rightarrow> bool" where
  "request_stream m t w hs body s \<longleftrightarrow>
     steady s \<and> bytes_of s = render_head m t (''HTTP/1.'' @ w) hs @ body
   \<and> plain m \<and> plain t \<and> starts_with t ''/'' \<and> plain w \<and> list_all header_ok hs
   \<and> length (render_head m t (''HTTP/1.'' @ w) hs) \<le> 65537"

lemma read_request_stream:
  assumes "request_stream m t w hs body s"
  shows "\<exists>head rest. read_head s = (Inr head, rest) \<and> steady rest \<and> head @ bytes_of rest = bytes_of s
    \<and> parse_head head = parse_head (render_head m t (''HTTP/1.'' @ w) hs @ body)"
proof -
  have r: "steady s" "bytes_of s = render_head m t (''HTTP/1.'' @ w) hs @ body" "plain m" "plain t" "plain w"
      "list_all header_ok hs" "length (render_head m t (''HTTP/1.'' @ w) hs) \<le> 65537"
    using assms by (simp_all add: request_stream_def)
  let ?ls = "(m @ '' '' @ t @ '' '' @ ''HTTP/1.'' @ w) # map header_line hs"
  have v: "plain (''HTTP/1.'' @ w)" using r(5) by (simp add: plain_def CR_def)
  have cr: "\<forall>l \<in> set ?ls. CR \<notin> set l \<and> l \<noteq> []"
    using r(3,4,6) v by (auto simp: plain_def header_ok_def header_line_def list_all_iff CR_def)
  have sp: "split_once (CRLF @ CRLF) (bytes_of s) = Some (intercalate CRLF ?ls, body)"
    using split_head [OF _ cr, of body] r(2) by (simp add: render_head_def)
  have len: "length (intercalate CRLF ?ls) + 3 \<le> HEAD_LIMIT"
    using r(7) by (simp add: render_head_def HEAD_LIMIT_def CRLF_def)
  obtain b s' q where b: "read_head s = (Inr b, s')" "split_once (CRLF @ CRLF) b = Some (intercalate CRLF ?ls, q)"
    using read_head_loop_complete [of "[]" s "intercalate CRLF ?ls" body] sp len r(1) by (auto simp: read_head_def)
  have "parse_head b = parse_head (bytes_of s)" by (rule parse_head_same [OF b(2) sp])
  moreover have "steady s'" "b @ bytes_of s' = bytes_of s"
    using read_head_loop_steady [of "[]" s b s'] read_head_loop_bytes [of "[]" s b s'] b(1) r(1)
    by (simp_all add: read_head_def)
  ultimately show ?thesis using b(1) r(2) by auto
qed

end
