(* ===== verification/Relay.thy ===== *)
theory Relay
  imports HttpHead
begin

text \<open>
  \<^verbatim>\<open>_relay\<close> of \<^verbatim>\<open>halt/intercept/terminate.py\<close>: the sockets' halves and their TLS layer, the two
  pumps as sequences of single calls, and \<^verbatim>\<open>_relay\<close> itself under a schedule of its two
  threads. The sending half of a socket keeps the bytes that went out and a script of what
  the coming sends do; past its end every send succeeds.
\<close>

section \<open>A socket's halves\<close>

datatype send_outcome = SentAll | SendFails nat py_exn

record send_end =
  se_sent :: bytes
  se_script :: "send_outcome list"
  se_shutdown :: "py_exn option"
  se_shut :: bool

definition fresh_end :: "send_outcome list \<Rightarrow> py_exn option \<Rightarrow> send_end" where
  "fresh_end script sd = \<lparr>se_sent = [], se_script = script, se_shutdown = sd, se_shut = False\<rparr>"

text \<open>\<^verbatim>\<open>sendall(data)\<close>: a failing send may have put the first \<open>n\<close> bytes on the wire.\<close>

definition sendall :: "bytes \<Rightarrow> (send_end, unit) py" where
  "sendall data d =
     (case se_script d of
        [] \<Rightarrow> (Inr (), d\<lparr>se_sent := se_sent d @ data\<rparr>)
      | SentAll # r \<Rightarrow> (Inr (), d\<lparr>se_sent := se_sent d @ data, se_script := r\<rparr>)
      | SendFails n e # r \<Rightarrow> (Inl e, d\<lparr>se_sent := se_sent d @ take n data, se_script := r\<rparr>))"

text \<open>
  What stands between a socket's stream and its reader: nothing, or an \<^verbatim>\<open>SSLSocket\<close> with its
  \<^verbatim>\<open>_sslobj\<close>, or one whose \<^verbatim>\<open>_sslobj\<close> is gone and from which nothing was read since. \<open>wire s\<close> is what
  the TCP socket below yields when \<open>s\<close> is still to come through the layer.
\<close>

datatype layer = Plain | Tls "stream \<Rightarrow> stream" | Stripped "stream \<Rightarrow> stream"

fun strip_layer :: "layer \<Rightarrow> layer" where
  "strip_layer (Tls wire) = Stripped wire"
| "strip_layer l = l"

text \<open>
  \<^verbatim>\<open>try: dst.shutdown(SHUT_WR)  except OSError: pass\<close>. On an \<^verbatim>\<open>SSLSocket\<close> it also drops the TLS
  layer, for the other direction too: \<^verbatim>\<open>SSLSocket.shutdown\<close> sets \<^verbatim>\<open>_sslobj\<close> to \<^verbatim>\<open>None\<close> first.
\<close>

definition shut_wr :: "(layer \<times> send_end, unit) py" where
  "shut_wr =
     py_except is_OSError
       (py_seq (py_modify (\<lambda>(l, d). (strip_layer l, d\<lparr>se_shut := True\<rparr>)))
          (\<lambda>(l, d). case se_shutdown d of None \<Rightarrow> (Inr (), (l, d)) | Some e \<Rightarrow> (Inl e, (l, d))))
       (\<lambda>_. py_return ())"

section \<open>A pump, call by call\<close>

text \<open>
  Where a pump is. Under a TLS layer \<^verbatim>\<open>recv\<close> tests \<^verbatim>\<open>_sslobj\<close>, \<^verbatim>\<open>read\<close> tests it again and then
  looks it up for the call, and the other pump may drop it in between; a read that is in
  progress keeps the object it was called on.
\<close>

datatype pump_pc =
    Reading                    \<comment> \<open>at \<^verbatim>\<open>src.recv(65536)\<close>\<close>
  | Testing                    \<comment> \<open>\<^verbatim>\<open>recv\<close> saw a layer; at the test in \<^verbatim>\<open>SSLSocket.read\<close>\<close>
  | Calling                    \<comment> \<open>that test passed; at \<^verbatim>\<open>self._sslobj.read\<close>\<close>
  | Fetching                   \<comment> \<open>in the read of the TLS object\<close>
  | Writing bytes              \<comment> \<open>at \<^verbatim>\<open>dst.sendall(data)\<close>\<close>
  | Shutting "py_exn + unit"   \<comment> \<open>in the \<^verbatim>\<open>finally\<close> block, with what is to be raised after it\<close>
  | Ended "py_exn + unit"

fun ended :: "pump_pc \<Rightarrow> bool" where
  "ended (Ended q) = True"
| "ended _ = False"

text \<open>The \<^verbatim>\<open>except\<close> clause of \<^verbatim>\<open>pump\<close>, and what follows a \<^verbatim>\<open>recv\<close>.\<close>

definition after_error :: "py_exn \<Rightarrow> pump_pc" where
  "after_error e = Shutting (if is_OSError e then Inr () else Inl e)"

definition after_recv :: "py_exn + bytes \<Rightarrow> pump_pc" where
  "after_recv r = (case r of Inl e \<Rightarrow> after_error e | Inr data \<Rightarrow> if data = [] then Shutting (Inr ()) else Writing data)"

fun pump_next :: "pump_pc \<Rightarrow> layer \<times> stream \<Rightarrow> layer \<times> send_end \<Rightarrow> pump_pc \<times> (layer \<times> stream) \<times> (layer \<times> send_end)" where
  "pump_next Reading (l, src) dst =
     (case l of
        Tls wire \<Rightarrow> (Testing, (l, src), dst)
      | Plain \<Rightarrow> (case recv 65536 src of (r, src') \<Rightarrow> (after_recv r, (Plain, src'), dst))
      | Stripped wire \<Rightarrow> (case recv 65536 (wire src) of (r, src') \<Rightarrow> (after_recv r, (Plain, src'), dst)))"
| "pump_next Testing (l, src) dst =
     (case l of
        Tls wire \<Rightarrow> (Calling, (l, src), dst)
      | _ \<Rightarrow> (after_error (Exn ValueErrorC ''Read on closed or unwrapped SSL socket.''), (l, src), dst))"
| "pump_next Calling (l, src) dst =
     (case l of
        Tls wire \<Rightarrow> (Fetching, (l, src), dst)
      | _ \<Rightarrow> (after_error (Exn (OtherErrorC ''AttributeError'') ''NoneType object has no attribute read''), (l, src), dst))"
| "pump_next Fetching (l, src) dst =
     (case recv 65536 src of (r, src') \<Rightarrow> (after_recv r, (l, src'), dst))"
| "pump_next (Writing data) src (l, d) =
     (case sendall data d of
        (Inl e, d') \<Rightarrow> (after_error e, src, (l, d'))
      | (Inr _, d') \<Rightarrow> (Reading, src, (l, d')))"
| "pump_next (Shutting q) src dst =
     (case shut_wr dst of
        (Inl e, dst') \<Rightarrow> (Ended (Inl e), src, dst')
      | (Inr _, dst') \<Rightarrow> (Ended q, src, dst'))"
| "pump_next (Ended q) src dst = (Ended q, src, dst)"

section \<open>The two threads\<close>

text \<open>
  \<^verbatim>\<open>_relay(a, b)\<close>: the caller copies from the client to the server, the thread it started from
  the server to the client. A socket's layer belongs to both of its halves.
\<close>

record relay_state =
  ry_client_layer :: layer
  ry_client_in :: stream
  ry_client_out :: send_end
  ry_server_layer :: layer
  ry_server_in :: stream
  ry_server_out :: send_end

record relay_threads =
  rt_main :: pump_pc
  rt_side :: pump_pc
  rt_result :: "(py_exn + unit) option"
  rt_state :: relay_state

definition relay_start :: "relay_state \<Rightarrow> relay_threads" where
  "relay_start s = \<lparr>rt_main = Reading, rt_side = Reading, rt_result = None, rt_state = s\<rparr>"

definition main_pump :: "relay_threads \<Rightarrow> relay_threads" where
  "main_pump t =
     (case pump_next (rt_main t) (ry_client_layer (rt_state t), ry_client_in (rt_state t))
             (ry_server_layer (rt_state t), ry_server_out (rt_state t)) of
        (pc, (l, i), (l', d)) \<Rightarrow>
          t\<lparr>rt_main := pc, rt_state := (rt_state t)\<lparr>ry_client_layer := l, ry_client_in := i,
             ry_server_layer := l', ry_server_out := d\<rparr>\<rparr>)"

definition side_pump :: "relay_threads \<Rightarrow> relay_threads" where
  "side_pump t =
     (case pump_next (rt_side t) (ry_server_layer (rt_state t), ry_server_in (rt_state t))
             (ry_client_layer (rt_state t), ry_client_out (rt_state t)) of
        (pc, (l, i), (l', d)) \<Rightarrow>
          t\<lparr>rt_side := pc, rt_state := (rt_state t)\<lparr>ry_server_layer := l, ry_server_in := i,
             ry_client_layer := l', ry_client_out := d\<rparr>\<rparr>)"

text \<open>
  One turn: of the caller (its pump, then its return, with the exception its pump let out
  or once the thread has ended), of the thread, or the end of the time of
  \<^verbatim>\<open>t.join(timeout=_IO_TIMEOUT)\<close>. A turn that cannot be taken changes nothing. When \<^verbatim>\<open>_relay\<close>
  has returned its caller closes both sockets, and neither is followed further.
\<close>

datatype turn = Main | Side | JoinTimeout

definition take_turn :: "turn \<Rightarrow> relay_threads \<Rightarrow> relay_threads" where
  "take_turn u t =
     (if rt_result t \<noteq> None then t
      else case u of
             Main \<Rightarrow>
               (case rt_main t of
                  Ended (Inl e) \<Rightarrow> t\<lparr>rt_result := Some (Inl e)\<rparr>
                | Ended (Inr v) \<Rightarrow> if ended (rt_side t) then t\<lparr>rt_result := Some (Inr ())\<rparr> else t
                | _ \<Rightarrow> main_pump t)
           | Side \<Rightarrow> if ended (rt_side t) then t else side_pump t
           | JoinTimeout \<Rightarrow> if rt_main t = Ended (Inr ()) then t\<lparr>rt_result := Some (Inr ())\<rparr> else t)"

section \<open>The relay\<close>

text \<open>
  \<^verbatim>\<open>_relay\<close> under a schedule. When the schedule is used up, the caller runs while it can and
  then the thread.
\<close>

fun segment_size :: "segment \<Rightarrow> nat" where
  "segment_size (Data d) = Suc (length d)"
| "segment_size (Fail e) = 1"

definition stream_size :: "stream \<Rightarrow> nat" where
  "stream_size s = sum_list (map segment_size s)"

lemma stream_size_simps [simp]:
  "stream_size [] = 0" "stream_size (x # s) = segment_size x + stream_size s"
  by (simp_all add: stream_size_def)

lemma recv_size: "recv n s = (Inr data, s') \<Longrightarrow> data \<noteq> [] \<Longrightarrow> 0 < n \<Longrightarrow> stream_size s' < stream_size s"
  by (induction n s rule: recv.induct) (auto split: if_splits)

text \<open>
  Why it ends: a layer is given up at most once, and between two such steps every step of a
  pump takes data off its stream or brings the pump nearer to its end.
\<close>

fun layer_rank :: "layer \<Rightarrow> nat" where
  "layer_rank (Tls wire) = 2"
| "layer_rank (Stripped wire) = 1"
| "layer_rank Plain = 0"

fun pump_work :: "pump_pc \<Rightarrow> stream \<Rightarrow> nat" where
  "pump_work Reading src = 6 * stream_size src + 6"
| "pump_work Testing src = 6 * stream_size src + 5"
| "pump_work Calling src = 6 * stream_size src + 4"
| "pump_work Fetching src = 6 * stream_size src + 3"
| "pump_work (Writing data) src = 6 * stream_size src + 8"
| "pump_work (Shutting q) src = 1"
| "pump_work (Ended q) src = 0"

definition relay_rank :: "relay_threads \<Rightarrow> nat" where
  "relay_rank t = layer_rank (ry_client_layer (rt_state t)) + layer_rank (ry_server_layer (rt_state t))"

definition relay_work :: "relay_threads \<Rightarrow> nat" where
  "relay_work t = pump_work (rt_main t) (ry_client_in (rt_state t)) + pump_work (rt_side t) (ry_server_in (rt_state t))
     + (if rt_result t = None then 1 else 0)"

definition relay_less :: "(relay_threads \<times> relay_threads) set" where
  "relay_less = measures [relay_rank, relay_work]"

lemma wf_relay_less: "wf relay_less"
  by (simp add: relay_less_def)

lemma after_recv_work: "recv 65536 src = (r, src') \<Longrightarrow> pump_work (after_recv r) src' < 6 * stream_size src + 3"
  using recv_size [of 65536 src _ src'] by (cases r) (auto simp: after_recv_def after_error_def)

lemma strip_rank: "layer_rank (strip_layer l) \<le> layer_rank l"
  by (cases l) auto

lemma shut_wr_frame: "shut_wr (l, d) = (r, dst) \<Longrightarrow> dst = (strip_layer l, d\<lparr>se_shut := True\<rparr>)"
  by (auto simp: shut_wr_def py_simps split: option.splits if_splits)

lemma pump_next_work:
  assumes "pump_next pc (l, src) (k, d) = (pc', (l', src'), (k', d'))" "\<not> ended pc"
  shows "layer_rank l' + layer_rank k' < layer_rank l + layer_rank k
    \<or> layer_rank l' + layer_rank k' = layer_rank l + layer_rank k \<and> pump_work pc' src' < pump_work pc src"
proof (cases pc)
  case Reading
  then show ?thesis using assms after_recv_work [of src _ src']
    by (cases l) (fastforce split: prod.splits)+
next
  case Fetching
  then show ?thesis using assms after_recv_work [of src _ src'] by (auto split: prod.splits)
next
  case (Writing data)
  then show ?thesis using assms by (auto simp: after_error_def split: prod.splits sum.splits)
next
  case (Shutting q)
  then show ?thesis using assms shut_wr_frame [of k d] strip_rank [of k]
    by (auto split: prod.splits sum.splits)
qed (use assms in \<open>auto simp: after_error_def split: layer.splits\<close>)

lemma pump_frames [simp]:
  "rt_result (main_pump t) = rt_result t" "rt_side (main_pump t) = rt_side t"
  "ry_server_in (rt_state (main_pump t)) = ry_server_in (rt_state t)"
  "ry_client_out (rt_state (main_pump t)) = ry_client_out (rt_state t)"
  "rt_result (side_pump t) = rt_result t" "rt_main (side_pump t) = rt_main t"
  "ry_client_in (rt_state (side_pump t)) = ry_client_in (rt_state t)"
  "ry_server_out (rt_state (side_pump t)) = ry_server_out (rt_state t)"
  by (simp_all add: main_pump_def side_pump_def split: prod.split)

lemma main_pump_less:
  assumes "\<not> ended (rt_main t)"
  shows "(main_pump t, t) \<in> relay_less"
proof -
  obtain pc l i k d where n: "pump_next (rt_main t) (ry_client_layer (rt_state t), ry_client_in (rt_state t))
      (ry_server_layer (rt_state t), ry_server_out (rt_state t)) = (pc, (l, i), (k, d))" by (metis prod.exhaust)
  from pump_next_work [OF n assms] show ?thesis
    by (auto simp: main_pump_def n relay_less_def relay_rank_def relay_work_def)
qed

lemma side_pump_less:
  assumes "\<not> ended (rt_side t)"
  shows "(side_pump t, t) \<in> relay_less"
proof -
  obtain pc l i k d where n: "pump_next (rt_side t) (ry_server_layer (rt_state t), ry_server_in (rt_state t))
      (ry_client_layer (rt_state t), ry_client_out (rt_state t)) = (pc, (l, i), (k, d))" by (metis prod.exhaust)
  from pump_next_work [OF n assms] show ?thesis
    by (auto simp: side_pump_def n relay_less_def relay_rank_def relay_work_def)
qed

lemma returned_less: "rt_result t = None \<Longrightarrow> (t\<lparr>rt_result := Some q\<rparr>, t) \<in> relay_less"
  by (simp add: relay_less_def relay_rank_def relay_work_def)

lemma take_turn_less: "take_turn u t = t \<or> (take_turn u t, t) \<in> relay_less"
proof (cases "rt_result t = None")
  case True
  show ?thesis
  proof (cases u)
    case Main
    then show ?thesis using True main_pump_less [of t] returned_less [of t]
      by (cases "rt_main t") (auto simp: take_turn_def split: sum.split)
  next
    case Side
    then show ?thesis using True side_pump_less [of t] by (simp add: take_turn_def)
  next
    case JoinTimeout
    then show ?thesis using True returned_less [of t] by (simp add: take_turn_def)
  qed
qed (simp add: take_turn_def)

definition next_turn :: "relay_threads \<Rightarrow> turn" where
  "next_turn t = (if rt_main t = Ended (Inr ()) \<and> \<not> ended (rt_side t) then Side else Main)"

lemma next_turn_less: "rt_result t = None \<Longrightarrow> (take_turn (next_turn t) t, t) \<in> relay_less"
  using main_pump_less [of t] side_pump_less [of t] returned_less [of t]
  by (cases "rt_main t") (auto simp: take_turn_def next_turn_def split: sum.splits)

function settle :: "relay_threads \<Rightarrow> relay_threads" where
  "settle t = (if rt_result t = None then settle (take_turn (next_turn t) t) else t)"
  by pat_completeness auto
termination
  by (relation relay_less) (auto simp: wf_relay_less next_turn_less)

declare settle.simps [simp del]

lemma settle_result: "\<exists>q. rt_result (settle t) = Some q"
proof (induction t rule: settle.induct)
  case (1 t)
  then show ?case by (subst settle.simps) auto
qed

fun take_turns :: "turn list \<Rightarrow> relay_threads \<Rightarrow> relay_threads" where
  "take_turns [] t = t"
| "take_turns (u # us) t = take_turns us (take_turn u t)"

definition relay_run :: "turn list \<Rightarrow> relay_state \<Rightarrow> relay_threads" where
  "relay_run turns s = settle (take_turns turns (relay_start s))"

definition relay :: "turn list \<Rightarrow> (relay_state, unit) py" where
  "relay turns s =
     (case rt_result (relay_run turns s) of Some q \<Rightarrow> q | None \<Rightarrow> Inr (), rt_state (relay_run turns s))"

lemma relay_run_result: "relay turns s = (r, s') \<Longrightarrow> rt_result (relay_run turns s) = Some r \<and> rt_state (relay_run turns s) = s'"
proof -
  obtain q where "rt_result (relay_run turns s) = Some q" unfolding relay_run_def using settle_result by blast
  then show "relay turns s = (r, s') \<Longrightarrow> ?thesis" by (simp add: relay_def)
qed

text \<open>What every turn keeps, every run of the relay keeps.\<close>

lemma settle_keeps: "(\<And>t. P t \<Longrightarrow> P (take_turn (next_turn t) t)) \<Longrightarrow> P t \<Longrightarrow> P (settle t)"
proof (induction t rule: settle.induct)
  case (1 t)
  then show ?case by (subst settle.simps) auto
qed

lemma take_turns_keep: "(\<And>u t. u \<in> set us \<Longrightarrow> P t \<Longrightarrow> P (take_turn u t)) \<Longrightarrow> P t \<Longrightarrow> P (take_turns us t)"
  by (induction us arbitrary: t) simp_all

lemma relay_keeps:
  assumes "\<And>u t. u \<in> set turns \<or> u = next_turn t \<Longrightarrow> P t \<Longrightarrow> P (take_turn u t)" "P (relay_start s)"
  shows "P (relay_run turns s)"
proof -
  have "P (take_turns turns (relay_start s))" by (rule take_turns_keep) (use assms in auto)
  then show ?thesis unfolding relay_run_def using assms(1) settle_keeps [of P] by blast
qed

section \<open>What one direction carries\<close>

text \<open>
  What a direction may carry: the bytes that were to come through the layer, or, once the
  layer is gone, a cut of them followed by what the bare socket yields.
\<close>

definition tape :: "layer \<Rightarrow> stream \<Rightarrow> bytes \<Rightarrow> bool" where
  "tape l src z \<longleftrightarrow> z = bytes_of src
     \<or> (\<exists>wire cut rest. (l = Tls wire \<or> l = Stripped wire) \<and> bytes_of src = cut @ bytes_of rest \<and> z = cut @ bytes_of (wire rest))"

fun in_hand :: "pump_pc \<Rightarrow> bytes" where
  "in_hand (Writing data) = data"
| "in_hand _ = []"

fun at_end :: "pump_pc \<Rightarrow> bool" where
  "at_end (Shutting q) = True"
| "at_end (Ended q) = True"
| "at_end _ = False"

text \<open>
  \<open>flow l0 src0 sent0 pc l src sent\<close>: a pump that started with \<open>src0\<close> behind \<open>l0\<close> has sent
  a beginning of a tape, and while it runs the rest of that tape is in its hand or in front
  of it.
\<close>

definition flow :: "layer \<Rightarrow> stream \<Rightarrow> bytes \<Rightarrow> pump_pc \<Rightarrow> layer \<Rightarrow> stream \<Rightarrow> bytes \<Rightarrow> bool" where
  "flow l0 src0 sent0 pc l src sent \<longleftrightarrow>
     (l = Plain \<or> strip_layer l = strip_layer l0)
   \<and> (\<exists>x. sent = sent0 @ x
        \<and> (if at_end pc then \<exists>y. tape l0 src0 (x @ y)
           else if l = Plain then tape l0 src0 (x @ in_hand pc @ bytes_of src)
           else bytes_of src0 = x @ in_hand pc @ bytes_of src))"

lemma tape_whole: "bytes_of src = z \<Longrightarrow> tape l src z"
  by (simp add: tape_def)

lemma flow_start: "flow l src sent Reading l src sent"
  by (auto simp: flow_def tape_def)

lemma strip_layer_simps [simp]: "strip_layer (strip_layer l) = strip_layer l" "strip_layer l = Plain \<longleftrightarrow> l = Plain"
  by (cases l; simp)+

lemma flow_layer:
  assumes "flow l0 src0 sent0 pc l src sent" "k = l \<or> k = strip_layer l"
  shows "flow l0 src0 sent0 pc k src sent"
proof -
  have "flow l0 src0 sent0 pc (strip_layer l) src sent" using assms(1) unfolding flow_def strip_layer_simps .
  then show ?thesis using assms by auto
qed

lemma flow_sent: "flow l0 src0 sent0 pc l src sent \<Longrightarrow> \<exists>x y. sent = sent0 @ x \<and> tape l0 src0 (x @ y)"
proof -
  assume f: "flow l0 src0 sent0 pc l src sent"
  then obtain x where x: "sent = sent0 @ x"
      "if at_end pc then \<exists>y. tape l0 src0 (x @ y)
       else if l = Plain then tape l0 src0 (x @ in_hand pc @ bytes_of src) else bytes_of src0 = x @ in_hand pc @ bytes_of src"
    unfolding flow_def by blast
  then show ?thesis by (cases "at_end pc"; cases "l = Plain") (use tape_whole in auto)
qed

lemma sendall_prefix: "sendall data d = (r, d') \<Longrightarrow> \<exists>x. se_sent d' = se_sent d @ x \<and> prefix x data
    \<and> (case r of Inl _ \<Rightarrow> True | Inr _ \<Rightarrow> x = data)"
  by (auto simp: sendall_def take_is_prefix split: list.splits send_outcome.splits)

lemma recv_flow:
  assumes "recv 65536 src = (r, src')"
  shows "at_end (after_recv r) \<or> \<not> at_end (after_recv r) \<and> bytes_of src = in_hand (after_recv r) @ bytes_of src'"
  using recv_bytes [of 65536 src _ src'] assms by (cases r) (auto simp: after_recv_def after_error_def)

lemma flow_recv:
  assumes r: "recv 65536 src = (r, src')"
    and x: "if l = Plain then tape l0 src0 (x @ bytes_of src) else bytes_of src0 = x @ bytes_of src"
  shows "if at_end (after_recv r) then \<exists>y. tape l0 src0 (x @ y)
    else if l = Plain then tape l0 src0 (x @ in_hand (after_recv r) @ bytes_of src')
    else bytes_of src0 = x @ in_hand (after_recv r) @ bytes_of src'"
proof -
  have "tape l0 src0 (x @ bytes_of src)" using x by (cases "l = Plain") (simp_all add: tape_def)
  then show ?thesis using recv_flow [OF r] x by (auto split: if_splits)
qed

lemma flow_next:
  assumes n: "pump_next pc (l, src) (k, d) = (pc', (l', src'), (k', d'))"
    and f: "flow l0 src0 sent0 pc l src (se_sent d)"
  shows "flow l0 src0 sent0 pc' l' src' (se_sent d') \<and> (k' = k \<or> k' = strip_layer k)"
proof -
  obtain x where l: "l = Plain \<or> strip_layer l = strip_layer l0" and x: "se_sent d = sent0 @ x"
      "if at_end pc then \<exists>y. tape l0 src0 (x @ y)
       else if l = Plain then tape l0 src0 (x @ in_hand pc @ bytes_of src) else bytes_of src0 = x @ in_hand pc @ bytes_of src"
    using f unfolding flow_def by blast
  have t: "l \<noteq> Plain \<Longrightarrow> bytes_of src0 = x @ w \<Longrightarrow> tape l0 src0 (x @ w)" for w by (simp add: tape_def)
  show ?thesis
  proof (cases pc)
    case Reading
    show ?thesis
    proof (cases l)
      case Plain
      obtain r where r: "recv 65536 src = (r, src')" "pc' = after_recv r" "l' = Plain" "d' = d" "k' = k"
        using n Reading Plain by (auto split: prod.splits)
      then show ?thesis using flow_recv [OF r(1), of l l0 src0 x] x l Reading Plain by (auto simp: flow_def)
    next
      case (Tls wire)
      then show ?thesis using n Reading x l by (auto simp: flow_def)
    next
      case (Stripped wire)
      obtain r where r: "recv 65536 (wire src) = (r, src')" "pc' = after_recv r" "l' = Plain" "d' = d" "k' = k"
        using n Reading Stripped by (auto split: prod.splits)
      have "l0 = Tls wire \<or> l0 = Stripped wire" using l Stripped by (cases l0) auto
      then have "tape l0 src0 (x @ bytes_of (wire src))" using x(2) Reading Stripped unfolding tape_def by auto
      then show ?thesis using flow_recv [OF r(1), of Plain l0 src0 x] r x(1) by (auto simp: flow_def)
    qed
  next
    case Testing
    then show ?thesis using n x l t [of "bytes_of src"] by (cases l) (auto simp: flow_def after_error_def)
  next
    case Calling
    then show ?thesis using n x l t [of "bytes_of src"] by (cases l) (auto simp: flow_def after_error_def)
  next
    case Fetching
    obtain r where r: "recv 65536 src = (r, src')" "pc' = after_recv r" "l' = l" "d' = d" "k' = k"
      using n Fetching by (auto split: prod.splits)
    then show ?thesis using flow_recv [OF r(1), of l l0 src0 x] x l Fetching by (auto simp: flow_def)
  next
    case (Writing data)
    obtain q d1 where q: "sendall data d = (q, d1)" by fastforce
    obtain z where z: "se_sent d1 = se_sent d @ z" "prefix z data" "case q of Inl _ \<Rightarrow> True | Inr _ \<Rightarrow> z = data"
      using sendall_prefix [OF q] by blast
    have u: "d' = d1" "l' = l" "src' = src" "k' = k" using n Writing q by (cases q; simp)+
    have pc: "pc' = (case q of Inl e \<Rightarrow> after_error e | Inr _ \<Rightarrow> Reading)" using n Writing q by (cases q) auto
    have "\<exists>y. tape l0 src0 ((x @ z) @ y)"
      using z(2) x(2) t [of "data @ bytes_of src"] Writing by (auto simp: prefix_def split: if_splits)
    then show ?thesis using x Writing z l u pc
      by (cases q) (auto simp: flow_def after_error_def)
  next
    case (Shutting q)
    obtain w k1 d1 where w: "shut_wr (k, d) = (w, (k1, d1))" by (metis prod.exhaust)
    then have "k1 = strip_layer k" "d1 = d\<lparr>se_shut := True\<rparr>" using shut_wr_frame [OF w] by simp_all
    then show ?thesis using n Shutting w x l by (cases w) (auto simp: flow_def)
  next
    case (Ended q)
    then show ?thesis using n x l by (auto simp: flow_def)
  qed
qed

section \<open>What a relay carries\<close>

definition carrying :: "relay_state \<Rightarrow> relay_threads \<Rightarrow> bool" where
  "carrying s t \<longleftrightarrow>
     flow (ry_client_layer s) (ry_client_in s) (se_sent (ry_server_out s))
       (rt_main t) (ry_client_layer (rt_state t)) (ry_client_in (rt_state t)) (se_sent (ry_server_out (rt_state t)))
   \<and> flow (ry_server_layer s) (ry_server_in s) (se_sent (ry_client_out s))
       (rt_side t) (ry_server_layer (rt_state t)) (ry_server_in (rt_state t)) (se_sent (ry_client_out (rt_state t)))"

lemma main_pump_carrying: "carrying s t \<Longrightarrow> carrying s (main_pump t)"
proof -
  assume c: "carrying s t"
  obtain pc l i k d where n: "pump_next (rt_main t) (ry_client_layer (rt_state t), ry_client_in (rt_state t))
      (ry_server_layer (rt_state t), ry_server_out (rt_state t)) = (pc, (l, i), (k, d))" by (metis prod.exhaust)
  note f = flow_next [OF n conjunct1 [OF c [unfolded carrying_def]]]
  show ?thesis using f flow_layer [OF conjunct2 [OF c [unfolded carrying_def]] conjunct2 [OF f]]
    unfolding carrying_def main_pump_def n by simp
qed

lemma side_pump_carrying: "carrying s t \<Longrightarrow> carrying s (side_pump t)"
proof -
  assume c: "carrying s t"
  obtain pc l i k d where n: "pump_next (rt_side t) (ry_server_layer (rt_state t), ry_server_in (rt_state t))
      (ry_client_layer (rt_state t), ry_client_out (rt_state t)) = (pc, (l, i), (k, d))" by (metis prod.exhaust)
  note f = flow_next [OF n conjunct2 [OF c [unfolded carrying_def]]]
  show ?thesis using f flow_layer [OF conjunct1 [OF c [unfolded carrying_def]] conjunct2 [OF f]]
    unfolding carrying_def side_pump_def n by simp
qed

lemma carrying_result: "carrying s (t\<lparr>rt_result := q\<rparr>) = carrying s t"
  by (simp add: carrying_def)

lemma take_turn_cases:
  obtains "take_turn u t = t" | "rt_result t = None" "\<not> ended (rt_main t)" "u = Main" "take_turn u t = main_pump t"
  | "rt_result t = None" "\<not> ended (rt_side t)" "u = Side" "take_turn u t = side_pump t"
  | q where "rt_result t = None" "rt_main t = Ended q" "take_turn u t = t\<lparr>rt_result := Some q\<rparr>"
      "u = JoinTimeout \<or> ended (rt_side t) \<or> isl q" "u \<noteq> Side"
proof (cases "rt_result t = None")
  case True
  show thesis
  proof (cases u)
    case Main
    show thesis
    proof (cases "ended (rt_main t)")
      case False
      then show thesis using True Main that(2) by (cases "rt_main t") (simp_all add: take_turn_def)
    next
      case True
      then obtain q where "rt_main t = Ended q" by (cases "rt_main t") auto
      then show thesis using \<open>rt_result t = None\<close> Main that(1) that(4) [of q]
        by (cases q; cases "ended (rt_side t)") (simp_all add: take_turn_def)
    qed
  next
    case Side
    then show thesis using True that(1,3) by (cases "ended (rt_side t)") (simp_all add: take_turn_def)
  next
    case JoinTimeout
    then show thesis using True that(1) that(4) [of "Inr ()"]
      by (cases "rt_main t = Ended (Inr ())") (simp_all add: take_turn_def)
  qed
qed (use that in \<open>simp add: take_turn_def\<close>)

lemma take_turn_carrying: "carrying s t \<Longrightarrow> carrying s (take_turn u t)"
  by (rule take_turn_cases [of u t]) (simp_all add: main_pump_carrying side_pump_carrying carrying_result)

lemma carrying_start: "carrying s (relay_start s)"
  by (simp add: carrying_def relay_start_def flow_start)

lemma relay_carrying: "carrying s (relay_run turns s)"
  by (rule relay_keeps) (use take_turn_carrying carrying_start in blast)+

lemma relay_carries:
  assumes "relay turns s = (r, s')"
  shows "\<exists>x y. se_sent (ry_server_out s') = se_sent (ry_server_out s) @ x \<and> tape (ry_client_layer s) (ry_client_in s) (x @ y)"
    and "\<exists>x y. se_sent (ry_client_out s') = se_sent (ry_client_out s) @ x \<and> tape (ry_server_layer s) (ry_server_in s) (x @ y)"
proof -
  have "rt_state (relay_run turns s) = s'" using relay_run_result [OF assms] by blast
  then show "\<exists>x y. se_sent (ry_server_out s') = se_sent (ry_server_out s) @ x \<and> tape (ry_client_layer s) (ry_client_in s) (x @ y)"
    and "\<exists>x y. se_sent (ry_client_out s') = se_sent (ry_client_out s) @ x \<and> tape (ry_server_layer s) (ry_server_in s) (x @ y)"
    using relay_carrying [of s turns] flow_sent unfolding carrying_def by blast+
qed

section \<open>Directions in which no call fails\<close>

definition clean_end :: "send_end \<Rightarrow> bool" where
  "clean_end d \<longleftrightarrow> se_script d = [] \<and> se_shutdown d = None"

text \<open>The layer of a socket as \<^verbatim>\<open>_relay\<close> is given it: none, or one that is in place.\<close>

definition intact :: "layer \<Rightarrow> bool" where
  "intact l \<longleftrightarrow> (\<forall>wire. l \<noteq> Stripped wire)"

lemma intact_simps [simp]: "intact Plain" "intact (Tls wire)" "\<not> intact (Stripped wire)"
  by (simp_all add: intact_def)

text \<open>
  A direction between a stream that is steady and a clean end, whose layer is not taken
  away: when its pump is through, everything was sent, in order, and the end is shut.
\<close>

definition clean_flow :: "layer \<Rightarrow> stream \<Rightarrow> bytes \<Rightarrow> pump_pc \<Rightarrow> stream \<Rightarrow> send_end \<Rightarrow> bool" where
  "clean_flow l src0 sent0 pc src d \<longleftrightarrow>
     clean_end d \<and> steady src \<and> intact l
   \<and> (l = Plain \<longrightarrow> pc \<noteq> Testing \<and> pc \<noteq> Calling)
   \<and> (case pc of
        Shutting q \<Rightarrow> q = Inr () \<and> src = [] \<and> se_sent d = sent0 @ bytes_of src0
      | Ended q \<Rightarrow> q = Inr () \<and> src = [] \<and> se_sent d = sent0 @ bytes_of src0 \<and> se_shut d
      | _ \<Rightarrow> se_sent d @ in_hand pc @ bytes_of src = sent0 @ bytes_of src0)"

lemma clean_flow_recv:
  assumes "recv 65536 src = (r, src')" "steady src" "clean_end d" "se_sent d @ bytes_of src = sent0 @ bytes_of src0"
    and "intact l"
  shows "clean_flow l src0 sent0 (after_recv r) src' d"
proof -
  obtain c where c: "r = Inr c" "steady src'" "c = [] \<longrightarrow> src = []" using recv_steady [OF assms(2), of 65536] assms(1) by auto
  have "bytes_of src = c @ bytes_of src'" using recv_bytes [of 65536 src c src'] assms(1) c(1) by simp
  moreover have "src = [] \<Longrightarrow> src' = []" using assms(1) by simp
  ultimately show ?thesis using c assms(3,4,5) by (cases "c = []") (auto simp: clean_flow_def after_recv_def)
qed

lemma clean_flow_next:
  assumes n: "pump_next pc (l, src) (k, d) = (pc', (l', src'), (k', d'))" and f: "clean_flow l src0 sent0 pc src d"
  shows "clean_flow l src0 sent0 pc' src' d' \<and> l' = l \<and> (k' = k \<or> k' = strip_layer k)"
proof (cases pc)
  case Reading
  then show ?thesis using n f clean_flow_recv [of src _ src' d sent0 src0 l]
    by (cases l) (fastforce simp: clean_flow_def split: prod.splits)+
next
  case Testing
  then show ?thesis using n f by (cases l) (auto simp: clean_flow_def)
next
  case Calling
  then show ?thesis using n f by (cases l) (auto simp: clean_flow_def)
next
  case Fetching
  then show ?thesis using n f clean_flow_recv [of src _ src' d sent0 src0 l]
    by (fastforce simp: clean_flow_def split: prod.splits)
next
  case (Writing data)
  then show ?thesis using n f by (auto simp: clean_flow_def sendall_def clean_end_def)
next
  case (Shutting q)
  then show ?thesis using n f by (auto simp: clean_flow_def shut_wr_def py_simps clean_end_def)
next
  case (Ended q)
  then show ?thesis using n f by auto
qed

lemma clean_flow_start: "clean_end d \<Longrightarrow> steady src \<Longrightarrow> intact l \<Longrightarrow> clean_flow l src (se_sent d) Reading src d"
  by (simp add: clean_flow_def)

lemma clean_flow_ended: "clean_flow l src0 sent0 pc src d \<Longrightarrow> ended pc \<Longrightarrow>
    pc = Ended (Inr ()) \<and> src = [] \<and> se_sent d = sent0 @ bytes_of src0 \<and> se_shut d"
  by (cases pc) (auto simp: clean_flow_def)

lemma main_pump_clean:
  assumes "clean_flow l src0 sent0 (rt_main t) (ry_client_in (rt_state t)) (ry_server_out (rt_state t))"
    and "ry_client_layer (rt_state t) = l"
  shows "clean_flow l src0 sent0 (rt_main (main_pump t)) (ry_client_in (rt_state (main_pump t))) (ry_server_out (rt_state (main_pump t)))
    \<and> ry_client_layer (rt_state (main_pump t)) = l
    \<and> (ry_server_layer (rt_state (main_pump t)) = ry_server_layer (rt_state t)
       \<or> ry_server_layer (rt_state (main_pump t)) = strip_layer (ry_server_layer (rt_state t)))"
proof -
  obtain pc l' i k d where n: "pump_next (rt_main t) (l, ry_client_in (rt_state t))
      (ry_server_layer (rt_state t), ry_server_out (rt_state t)) = (pc, (l', i), (k, d))" by (metis prod.exhaust)
  from clean_flow_next [OF n assms(1)] show ?thesis using assms(2) n by (auto simp: main_pump_def)
qed

lemma side_pump_clean:
  assumes "clean_flow l src0 sent0 (rt_side t) (ry_server_in (rt_state t)) (ry_client_out (rt_state t))"
    and "ry_server_layer (rt_state t) = l"
  shows "clean_flow l src0 sent0 (rt_side (side_pump t)) (ry_server_in (rt_state (side_pump t))) (ry_client_out (rt_state (side_pump t)))
    \<and> ry_server_layer (rt_state (side_pump t)) = l
    \<and> (ry_client_layer (rt_state (side_pump t)) = ry_client_layer (rt_state t)
       \<or> ry_client_layer (rt_state (side_pump t)) = strip_layer (ry_client_layer (rt_state t)))"
proof -
  obtain pc l' i k d where n: "pump_next (rt_side t) (l, ry_server_in (rt_state t))
      (ry_client_layer (rt_state t), ry_client_out (rt_state t)) = (pc, (l', i), (k, d))" by (metis prod.exhaust)
  from clean_flow_next [OF n assms(1)] show ?thesis using assms(2) n by (auto simp: side_pump_def)
qed

text \<open>Between plain sockets both directions stay clean, whatever the schedule.\<close>

definition plain_run :: "relay_state \<Rightarrow> relay_threads \<Rightarrow> bool" where
  "plain_run s t \<longleftrightarrow>
     ry_client_layer (rt_state t) = Plain \<and> ry_server_layer (rt_state t) = Plain
   \<and> clean_flow Plain (ry_client_in s) (se_sent (ry_server_out s)) (rt_main t) (ry_client_in (rt_state t)) (ry_server_out (rt_state t))
   \<and> clean_flow Plain (ry_server_in s) (se_sent (ry_client_out s)) (rt_side t) (ry_server_in (rt_state t)) (ry_client_out (rt_state t))
   \<and> (\<forall>q. rt_result t = Some q \<longrightarrow> rt_main t = Ended q)"

lemma plain_run_turn: "plain_run s t \<Longrightarrow> plain_run s (take_turn u t)"
proof (rule take_turn_cases [of u t])
  assume p: "plain_run s t" and t: "take_turn u t = main_pump t" "\<not> ended (rt_main t)" "rt_result t = None"
  show ?thesis using p t main_pump_clean [of Plain _ _ t] unfolding plain_run_def by auto
next
  assume p: "plain_run s t" and t: "take_turn u t = side_pump t" "\<not> ended (rt_side t)" "rt_result t = None"
  show ?thesis using p t side_pump_clean [of Plain _ _ t] unfolding plain_run_def by auto
qed (simp_all add: plain_run_def)

definition waits_for_thread :: "relay_threads \<Rightarrow> bool" where
  "waits_for_thread t \<longleftrightarrow> (\<forall>q. rt_result t = Some q \<longrightarrow> q = Inr () \<longrightarrow> ended (rt_side t))"

lemma waits_turn: "u \<noteq> JoinTimeout \<Longrightarrow> waits_for_thread t \<Longrightarrow> waits_for_thread (take_turn u t)"
  by (rule take_turn_cases [of u t]) (auto simp: waits_for_thread_def main_pump_def side_pump_def split: prod.splits)

lemma relay_waits:
  assumes "JoinTimeout \<notin> set turns" "relay turns s = (Inr (), s')"
  shows "ended (rt_side (relay_run turns s))"
proof -
  have "waits_for_thread (relay_run turns s)"
  proof (rule relay_keeps)
    fix u t assume "u \<in> set turns \<or> u = next_turn t" "waits_for_thread t"
    then show "waits_for_thread (take_turn u t)" using assms(1) by (intro waits_turn) (auto simp: next_turn_def split: if_splits)
  qed (simp add: waits_for_thread_def relay_start_def)
  then show ?thesis using relay_run_result [OF assms(2)] by (simp add: waits_for_thread_def)
qed

lemma plain_relay:
  assumes "ry_client_layer s = Plain" "ry_server_layer s = Plain" "steady (ry_client_in s)" "steady (ry_server_in s)"
    and "clean_end (ry_client_out s)" "clean_end (ry_server_out s)" "relay turns s = (r, s')"
  shows "r = Inr () \<and> plain_run s (relay_run turns s) \<and> rt_main (relay_run turns s) = Ended (Inr ()) \<and> rt_state (relay_run turns s) = s'"
proof -
  have p: "plain_run s (relay_run turns s)"
    by (rule relay_keeps) (use plain_run_turn assms in \<open>auto simp: plain_run_def relay_start_def clean_flow_start\<close>)
  moreover have "rt_main (relay_run turns s) = Ended r"
    using p relay_run_result [OF assms(7)] by (simp add: plain_run_def)
  ultimately show ?thesis using relay_run_result [OF assms(7)] clean_flow_ended [of Plain _ _ "Ended r"]
    unfolding plain_run_def by fastforce
qed

lemma plain_request:
  assumes "ry_client_layer s = Plain" "ry_server_layer s = Plain" "steady (ry_client_in s)" "steady (ry_server_in s)"
    and "clean_end (ry_client_out s)" "clean_end (ry_server_out s)" "relay turns s = (r, s')"
  shows "r = Inr () \<and> ry_client_in s' = [] \<and> se_shut (ry_server_out s')
    \<and> se_sent (ry_server_out s') = se_sent (ry_server_out s) @ bytes_of (ry_client_in s)"
proof -
  note p = plain_relay [OF assms]
  have "clean_flow Plain (ry_client_in s) (se_sent (ry_server_out s)) (Ended (Inr ())) (ry_client_in s') (ry_server_out s')"
    using p unfolding plain_run_def by auto
  from clean_flow_ended [OF this] show ?thesis using p by simp
qed

lemma plain_answer:
  assumes "ry_client_layer s = Plain" "ry_server_layer s = Plain" "steady (ry_client_in s)" "steady (ry_server_in s)"
    and "clean_end (ry_client_out s)" "clean_end (ry_server_out s)" "relay turns s = (r, s')" "JoinTimeout \<notin> set turns"
  shows "ry_server_in s' = [] \<and> se_shut (ry_client_out s')
    \<and> se_sent (ry_client_out s') = se_sent (ry_client_out s) @ bytes_of (ry_server_in s)"
proof -
  note p = plain_relay [OF assms(1-7)]
  have "clean_flow Plain (ry_server_in s) (se_sent (ry_client_out s)) (rt_side (relay_run turns s)) (ry_server_in s') (ry_client_out s')"
    using p unfolding plain_run_def by auto
  moreover have "ended (rt_side (relay_run turns s))" using relay_waits [OF assms(8), of s s'] assms(7) p by simp
  ultimately show ?thesis using clean_flow_ended by blast
qed

text \<open>
  C26. A relay between two plain sockets that keep working until they close always ends; however
  its threads are scheduled the server is sent exactly what the client sent, in order, and
  its half is closed after it. The client is sent a beginning of the server's answer, and
  all of it, with its half closed too, unless the \<^verbatim>\<open>join\<close> timed out.
\<close>
theorem relay_delivers_everything:
  assumes "ry_client_layer s = Plain" "ry_server_layer s = Plain" "steady (ry_client_in s)" "steady (ry_server_in s)"
    and "clean_end (ry_client_out s)" "clean_end (ry_server_out s)"
  shows "\<exists>s' x. relay turns s = (Inr (), s') \<and> ry_client_in s' = []
    \<and> se_sent (ry_server_out s') = se_sent (ry_server_out s) @ bytes_of (ry_client_in s) \<and> se_shut (ry_server_out s')
    \<and> se_sent (ry_client_out s') = se_sent (ry_client_out s) @ x \<and> prefix x (bytes_of (ry_server_in s))
    \<and> (JoinTimeout \<in> set turns \<or> x = bytes_of (ry_server_in s) \<and> ry_server_in s' = [] \<and> se_shut (ry_client_out s'))"
proof -
  obtain r s' where r: "relay turns s = (r, s')" by fastforce
  obtain x where x: "se_sent (ry_client_out s') = se_sent (ry_client_out s) @ x" "prefix x (bytes_of (ry_server_in s))"
    using relay_carries(2) [OF r] assms(2) by (auto simp: tape_def) (metis prefixI)
  then show ?thesis using r plain_request [OF assms r] plain_answer [OF assms r]
    by (intro exI [of _ s'] exI [of _ x]) auto
qed

definition demo_relay :: relay_state where
  "demo_relay = \<lparr>ry_client_layer = Plain, ry_client_in = [Data ''ab'', Data ''c''], ry_client_out = fresh_end [] None,
     ry_server_layer = Plain, ry_server_in = [Data ''xyz''], ry_server_out = fresh_end [] None\<rparr>"

theorem relay_delivers_everything_witness:
  "\<exists>s'. relay [Side, Main, Side] demo_relay = (Inr (), s')
     \<and> se_sent (ry_server_out s') = ''abc'' \<and> se_sent (ry_client_out s') = ''xyz''"
  using relay_delivers_everything [of demo_relay "[Side, Main, Side]"]
  by (auto simp: clean_end_def fresh_end_def demo_relay_def)

section \<open>Who ends first\<close>

text \<open>
  The client closes its half before the thread was scheduled at all: whatever the layers,
  the server is sent the whole of what the client sent.
\<close>

definition client_first :: "relay_state \<Rightarrow> relay_threads \<Rightarrow> bool" where
  "client_first s t \<longleftrightarrow>
     (rt_result t = None \<or> rt_result t = Some (Inr ()) \<and> ended (rt_main t))
   \<and> clean_flow (ry_client_layer s) (ry_client_in s) (se_sent (ry_server_out s))
       (rt_main t) (ry_client_in (rt_state t)) (ry_server_out (rt_state t))
   \<and> (ended (rt_main t) \<or> ry_client_layer (rt_state t) = ry_client_layer s)"

lemma client_first_turn:
  assumes c: "client_first s t" and u: "u \<noteq> Side \<or> ended (rt_main t)"
  shows "client_first s (take_turn u t)"
proof (rule take_turn_cases [of u t])
  assume t: "take_turn u t = main_pump t" "\<not> ended (rt_main t)" "rt_result t = None"
  show ?thesis using c t main_pump_clean [of "ry_client_layer s" _ _ t] unfolding client_first_def by auto
next
  assume t: "take_turn u t = side_pump t" "u = Side"
  show ?thesis using c t u unfolding client_first_def by auto
next
  fix q assume t: "rt_main t = Ended q" "take_turn u t = t\<lparr>rt_result := Some q\<rparr>"
  show ?thesis using c t clean_flow_ended [of _ _ _ "rt_main t"] unfolding client_first_def by auto
qed (use c in simp)

lemma client_first_next: "client_first s t \<Longrightarrow> client_first s (take_turn (next_turn t) t)"
  by (rule client_first_turn) (auto simp: next_turn_def split: if_splits)

lemma client_first_settled:
  assumes "client_first s t"
  shows "rt_result (settle t) = Some (Inr ()) \<and> ry_client_in (rt_state (settle t)) = []
    \<and> se_sent (ry_server_out (rt_state (settle t))) = se_sent (ry_server_out s) @ bytes_of (ry_client_in s)
    \<and> se_shut (ry_server_out (rt_state (settle t)))"
proof -
  have c: "client_first s (settle t)" by (rule settle_keeps) (use assms client_first_next in blast)+
  obtain q where "rt_result (settle t) = Some q" using settle_result by blast
  then show ?thesis using c clean_flow_ended [of _ _ _ "rt_main (settle t)"] unfolding client_first_def by auto
qed

lemma client_first_whole:
  assumes "steady (ry_client_in s)" "clean_end (ry_server_out s)" "intact (ry_client_layer s)" "Side \<notin> set turns"
  shows "\<exists>s'. relay turns s = (Inr (), s')
    \<and> se_sent (ry_server_out s') = se_sent (ry_server_out s) @ bytes_of (ry_client_in s) \<and> se_shut (ry_server_out s')"
proof -
  have start: "client_first s (relay_start s)"
    using clean_flow_start [OF assms(2,1,3)] by (simp add: client_first_def relay_start_def)
  have turn: "client_first s (take_turn u t)" if "u \<in> set turns" "client_first s t" for u t
    by (rule client_first_turn [OF that(2)]) (use that(1) assms(4) in auto)
  have "client_first s (take_turns turns (relay_start s))"
    by (rule take_turns_keep [of turns "client_first s", OF turn start])
  from client_first_settled [OF this] show ?thesis
    by (simp add: relay_def relay_run_def)
qed


end
