(* ===== verification/Connection.thy ===== *)
theory Connection
  imports Prelude "HOL-Library.Word"
begin

text \<open>
  The first part of \<^verbatim>\<open>halt/intercept/proxy.py\<close>: what the proxy knows of a connection, and
  \<^verbatim>\<open>original_destination\<close>, which reads the pre-NAT address out of the 16 raw bytes of a
  \<^verbatim>\<open>sockaddr_in\<close>. The locale \<open>decider\<close> is the interface \<^verbatim>\<open>Decider\<close> a terminating proxy
  asks before it forwards.
\<close>

type_synonym address = "string \<times> int"

record intercepted_connection =
  ic_host :: string
  ic_port :: int
  ic_path :: "string option"
  ic_peer :: "address option"
  ic_redirected :: bool
  ic_ip :: "string option"
  ic_tls :: bool
  ic_method :: "string option"

section \<open>original\_destination\<close>

text \<open>\<^verbatim>\<open>socket.inet_ntoa\<close> of four bytes.\<close>

definition inet_ntoa :: "8 word list \<Rightarrow> string" where
  "inet_ntoa bs = intercalate ''.'' (map (\<lambda>b. show_nat (unat b)) bs)"

text \<open>
  \<^verbatim>\<open>struct.unpack("!2xH4s8x", raw)\<close>: skip two bytes, a big-endian 16-bit port, four address
  bytes, skip eight; any other length is a \<^verbatim>\<open>struct.error\<close>.
\<close>

definition unpack_sockaddr :: "8 word list \<Rightarrow> py_exn + 16 word \<times> 8 word list" where
  "unpack_sockaddr raw =
     (if length raw = 16 then Inr (word_cat (raw ! 2) (raw ! 3), take 4 (drop 4 raw))
      else Inl (Exn StructErrorC ''unpack requires a buffer of 16 bytes''))"

text \<open>The argument is what \<^verbatim>\<open>getsockopt(SOL_IP, SO_ORIGINAL_DST, 16)\<close> raised or returned.\<close>

definition original_destination :: "py_exn + 8 word list \<Rightarrow> py_exn + address option" where
  "original_destination opt =
     (case opt of
        Inl e \<Rightarrow> if is_OSError e then Inr None else Inl e
      | Inr raw \<Rightarrow>
          (case unpack_sockaddr raw of
             Inl e \<Rightarrow> Inl e
           | Inr (port, addr) \<Rightarrow> Inr (Some (inet_ntoa addr, uint port))))"

text \<open>What the kernel writes: family, port in network order, address, padding.\<close>

definition sockaddr_in :: "16 word \<Rightarrow> 16 word \<Rightarrow> 8 word list \<Rightarrow> 8 word list" where
  "sockaddr_in family port addr =
     [ucast (drop_bit 8 family), ucast family, ucast (drop_bit 8 port), ucast port] @ addr @ replicate 8 0"

lemma word_cat_split16:
  "word_cat (ucast (drop_bit 8 p) :: 8 word) (ucast p :: 8 word) = (p :: 16 word)"
  by (rule bit_word_eqI) (auto simp: bit_simps)

lemma dot_not_decimal: "CHR ''.'' \<notin> set (show_nat n)"
  using show_nat_decimal [of n] by (auto simp: list_all_iff is_decimal_def)

lemma inet_ntoa_inj:
  assumes "inet_ntoa a = inet_ntoa b" "a \<noteq> []" "b \<noteq> []"
  shows "a = b"
proof -
  have s: "split_on ''.'' (inet_ntoa bs) = map (\<lambda>b. show_nat (unat b)) bs" if "bs \<noteq> []" for bs
    unfolding inet_ntoa_def using that dot_not_decimal by (intro split_on_intercalate) auto
  have "map (\<lambda>b. show_nat (unat b)) a = map (\<lambda>b. show_nat (unat b)) b"
    using s [OF assms(2)] s [OF assms(3)] assms(1) by simp
  then show ?thesis
    by (rule map_injective) (auto simp: inj_def show_nat_inj word_unat_eq_iff)
qed

lemma original_destination_sockaddr:
  assumes "length addr = 4"
  shows "original_destination (Inr (sockaddr_in family port addr)) = Inr (Some (inet_ntoa addr, uint port))"
proof -
  have "length (sockaddr_in family port addr) = 16" using assms by (simp add: sockaddr_in_def)
  then have "unpack_sockaddr (sockaddr_in family port addr) = Inr (port, addr)"
    using assms word_cat_split16 [of port]
    by (simp add: unpack_sockaddr_def sockaddr_in_def)
  then show ?thesis by (simp add: original_destination_def)
qed

text \<open>
  C32. The destination the kernel recorded is recovered exactly: the port at its 16-bit value
  and an address text from which no other address could have come.
\<close>
theorem original_destination_exact:
  assumes "length addr = 4"
  shows "original_destination (Inr (sockaddr_in family port addr)) = Inr (Some (inet_ntoa addr, uint port))
    \<and> {a. length a = 4 \<and> inet_ntoa a = inet_ntoa addr} = {addr}"
proof -
  have "a = addr" if "length a = 4" "inet_ntoa a = inet_ntoa addr" for a
    using inet_ntoa_inj [OF that(2)] that(1) assms by fastforce
  then show ?thesis using original_destination_sockaddr [OF assms] assms by auto
qed

theorem original_destination_exact_witness:
  "original_destination (Inr (sockaddr_in 0x0200 443 [1, 1, 1, 1])) = Inr (Some (''1.1.1.1'', 443))"
proof -
  have "inet_ntoa [1, 1, 1, 1] = ''1.1.1.1''" by code_simp
  then show ?thesis using original_destination_exact [of "[1, 1, 1, 1]" "0x0200" 443] by simp
qed

text \<open>No port outside the 16-bit range and no address of other than four bytes is ever returned.\<close>

lemma original_destination_range:
  assumes "original_destination opt = Inr (Some (host, port))"
  shows "0 \<le> port \<and> port < 65536 \<and> (\<exists>addr. length addr = 4 \<and> host = inet_ntoa addr)"
proof -
  obtain raw where raw: "opt = Inr raw" "length raw = 16" "host = inet_ntoa (take 4 (drop 4 raw))"
      "port = uint (word_cat (raw ! 2) (raw ! 3) :: 16 word)"
    using assms by (auto simp: original_destination_def unpack_sockaddr_def split: sum.splits if_splits)
  have "port < 2 ^ 16" unfolding raw(4) using uint_lt2p [where 'a = 16] by simp
  moreover have "length (take 4 (drop 4 raw)) = 4" using raw(2) by simp
  ultimately show ?thesis using raw(3,4) by (intro conjI exI [of _ "take 4 (drop 4 raw)"]) simp_all
qed

section \<open>The decider\<close>

text \<open>
  What a proxy asks before forwarding: an answer for every connection, decided by a fixed
  predicate that no connection without a path satisfies. \<open>'t\<close> is what a decision is
  stamped with.
\<close>

locale decider =
  fixes decide :: "'t \<Rightarrow> intercepted_connection \<Rightarrow> ('s, bool) py"
    and good :: "'s \<Rightarrow> bool" and fit :: "'t \<Rightarrow> intercepted_connection \<Rightarrow> bool"
    and permits :: "intercepted_connection \<Rightarrow> bool"
  assumes decide_answers: "good s \<Longrightarrow> fit t c \<Longrightarrow> \<exists>s'. decide t c s = (Inr (permits c), s') \<and> good s'"
    and no_path: "ic_path c = None \<Longrightarrow> \<not> permits c"
begin

lemma decide_sound: "good s \<Longrightarrow> fit t c \<Longrightarrow> decide t c s = (Inr True, s') \<Longrightarrow> permits c \<and> ic_path c \<noteq> None"
  using decide_answers [of s t c] no_path [of c] by auto

end

end
