(* ===== verification/Proxy.thy ===== *)
theory Proxy
  imports Connection
begin

text \<open>
  The second part of \<^verbatim>\<open>halt/intercept/proxy.py\<close>: \<^verbatim>\<open>DenyAllProxy\<close>, its lifecycle, its
  accept loop and the handling of one connection. The operating system is a script: what
  each call on a socket answers. \<open>'w\<close> is the state the observer callback works on; the
  record is extensible, as the class is.
\<close>

record sock =
  sk_peer :: "address option"
  sk_original_dst :: "py_exn + 8 word list"
  sk_name :: "py_exn + address"
  sk_close :: "py_exn option"

record 'w proxy =
  px_on_connection :: "(intercepted_connection \<Rightarrow> ('w, unit) py) option"
  px_requested :: address
  px_sock :: "address option"
  px_thread :: bool
  px_stop :: bool
  px_seen :: "intercepted_connection list"
  px_callback_errors :: "py_exn list"
  px_closed :: "sock list"
  px_world :: 'w

definition proxy_init ::
  "(intercepted_connection \<Rightarrow> ('w, unit) py) option \<Rightarrow> string \<Rightarrow> int \<Rightarrow> 'w \<Rightarrow> 'w proxy" where
  "proxy_init cb host port w =
     \<lparr>px_on_connection = cb, px_requested = (host, port), px_sock = None, px_thread = False, px_stop = False,
      px_seen = [], px_callback_errors = [], px_closed = [], px_world = w\<rparr>"

section \<open>Lifecycle\<close>

text \<open>
  \<open>bind\<close> is what creating, binding and listening came to: the exception, or the bound
  address (\<^verbatim>\<open>port=0\<close> resolved).
\<close>

definition proxy_start :: "(address \<Rightarrow> py_exn + address) \<Rightarrow> (('w, 'z) proxy_scheme, unit) py" where
  "proxy_start bind s =
     (if px_sock s \<noteq> None then (Inl (Exn RuntimeErrorC ''proxy already started''), s)
      else case bind (px_requested s) of
             Inl e \<Rightarrow> (Inl e, s)
           | Inr a \<Rightarrow> (Inr (), s\<lparr>px_sock := Some a, px_thread := True\<rparr>))"

definition proxy_stop :: "(('w, 'z) proxy_scheme, unit) py" where
  "proxy_stop s = (Inr (), s\<lparr>px_stop := True, px_thread := False, px_sock := None\<rparr>)"

definition proxy_address :: "(('w, 'z) proxy_scheme, address) py" where
  "proxy_address s =
     (case px_sock s of None \<Rightarrow> (Inl (Exn RuntimeErrorC ''proxy not started''), s) | Some a \<Rightarrow> (Inr a, s))"

definition proxy_port :: "(('w, 'z) proxy_scheme, int) py" where
  "proxy_port = py_bind proxy_address (\<lambda>a. py_return (snd a))"

text \<open>The snapshots other threads read.\<close>

definition proxy_seen :: "(('w, 'z) proxy_scheme, intercepted_connection list) py" where
  "proxy_seen = py_get px_seen"

definition proxy_callback_errors :: "(('w, 'z) proxy_scheme, py_exn list) py" where
  "proxy_callback_errors = py_get px_callback_errors"

text \<open>\<^verbatim>\<open>with proxy: body\<close>.\<close>

definition with_proxy ::
  "(address \<Rightarrow> py_exn + address) \<Rightarrow> (('w, 'z) proxy_scheme, 'a) py \<Rightarrow> (('w, 'z) proxy_scheme, 'a) py" where
  "with_proxy bind body = py_seq (proxy_start bind) (py_finally body proxy_stop)"

text \<open>A \<^verbatim>\<open>with\<close> block leaves no listener behind, however its body ends.\<close>

lemma with_proxy_closes:
  assumes "px_sock s = None"
  shows "px_sock (state_after (with_proxy bind body s)) = None"
proof (cases "bind (px_requested s)")
  case (Inl e)
  then show ?thesis using assms by (simp add: with_proxy_def py_simps proxy_start_def)
next
  case (Inr a)
  then show ?thesis using assms
    by (simp add: with_proxy_def py_simps proxy_start_def proxy_stop_def split: prod.splits)
qed

section \<open>One connection\<close>

definition add_error :: "py_exn \<Rightarrow> (('w, 'z) proxy_scheme, unit) py" where
  "add_error e = py_modify (\<lambda>s. s\<lparr>px_callback_errors := px_callback_errors s @ [e]\<rparr>)"

text \<open>\<^verbatim>\<open>_notify\<close>: the callback's exceptions, \<^verbatim>\<open>BaseException\<close>s included, are recorded.\<close>

definition add_seen :: "intercepted_connection \<Rightarrow> (('w, 'z) proxy_scheme, unit) py" where
  "add_seen c = py_modify (\<lambda>s. s\<lparr>px_seen := px_seen s @ [c]\<rparr>)"

definition call_observer :: "intercepted_connection \<Rightarrow> (('w, 'z) proxy_scheme, unit) py" where
  "call_observer c =
     py_bind (py_get px_on_connection) (\<lambda>cb.
       case cb of
         None \<Rightarrow> py_return ()
       | Some f \<Rightarrow> py_except (\<lambda>_. True) (py_on px_world (\<lambda>w s. s\<lparr>px_world := w\<rparr>) (f c)) add_error)"

definition notify :: "intercepted_connection \<Rightarrow> (('w, 'z) proxy_scheme, unit) py" where
  "notify c = py_seq (add_seen c) (call_observer c)"

text \<open>
  \<^verbatim>\<open>try: conn.close()  except OSError: pass\<close>. \<open>px_closed\<close> lists the sockets on which \<^verbatim>\<open>close()\<close>
  was called. For a plain socket that ends the connection. After a TLS handshake it does
  not: \<^verbatim>\<open>wrap_socket\<close> has detached \<^verbatim>\<open>conn\<close>, the call finds no descriptor, and the connection ends when
  the \<^verbatim>\<open>SSLSocket\<close> is collected.
\<close>

definition close_sock :: "sock \<Rightarrow> (('w, 'z) proxy_scheme, unit) py" where
  "close_sock c =
     py_except is_OSError
       (py_seq (py_modify (\<lambda>s. s\<lparr>px_closed := px_closed s @ [c]\<rparr>))
          (case sk_close c of None \<Rightarrow> py_return () | Some e \<Rightarrow> py_raise e))
       (\<lambda>_. py_return ())"

definition dispatch :: "(sock \<Rightarrow> (('w, 'z) proxy_scheme, unit) py) \<Rightarrow> sock \<Rightarrow> (('w, 'z) proxy_scheme, unit) py" where
  "dispatch handle c = py_finally (py_except is_Exception (handle c) add_error) (close_sock c)"

text \<open>\<^verbatim>\<open>DenyAllProxy._handle_accepted\<close>.\<close>

definition local_name :: "sock \<Rightarrow> py_exn + address" where
  "local_name c = (case sk_name c of Inl e \<Rightarrow> if is_OSError e then Inr (''unknown'', -1) else Inl e | Inr a \<Rightarrow> Inr a)"

definition deny_observed :: "sock \<Rightarrow> py_exn + intercepted_connection" where
  "deny_observed c =
     (case original_destination (sk_original_dst c) of
        Inl e \<Rightarrow> Inl e
      | Inr (Some (host, port)) \<Rightarrow>
          Inr \<lparr>ic_host = host, ic_port = port, ic_path = None, ic_peer = sk_peer c, ic_redirected = True,
               ic_ip = Some host, ic_tls = False, ic_method = None\<rparr>
      | Inr None \<Rightarrow>
          (case local_name c of
             Inl e \<Rightarrow> Inl e
           | Inr (host, port) \<Rightarrow>
               Inr \<lparr>ic_host = host, ic_port = port, ic_path = None, ic_peer = sk_peer c, ic_redirected = False,
                    ic_ip = Some host, ic_tls = False, ic_method = None\<rparr>))"

definition deny_handle :: "sock \<Rightarrow> (('w, 'z) proxy_scheme, unit) py" where
  "deny_handle c = (case deny_observed c of Inl e \<Rightarrow> py_raise e | Inr obs \<Rightarrow> notify obs)"

section \<open>The accept loop\<close>

text \<open>
  What happens to a serving thread, in order: \<^verbatim>\<open>stop()\<close> sets the event, \<^verbatim>\<open>accept()\<close> times
  out, fails, or returns a socket. \<open>serve\<close> runs over the whole script; the loop ends when it
  finds the event set, when accept fails, or when a handler lets a \<^verbatim>\<open>BaseException\<close> out. At
  the end of the script the thread is waiting in \<^verbatim>\<open>accept()\<close>.
\<close>

datatype 'c accept_event = StopSet | AcceptTimeout | AcceptError | Accepted 'c

fun serve ::
  "('c \<Rightarrow> (('w, 'z) proxy_scheme, unit) py) \<Rightarrow> 'c accept_event list \<Rightarrow> ('w, 'z) proxy_scheme \<Rightarrow> ('w, 'z) proxy_scheme" where
  "serve disp [] s = s"
| "serve disp (ev # evs) s =
     (if px_stop s then s
      else case ev of
             StopSet \<Rightarrow> serve disp evs (s\<lparr>px_stop := True\<rparr>)
           | AcceptTimeout \<Rightarrow> serve disp evs s
           | AcceptError \<Rightarrow> s
           | Accepted c \<Rightarrow>
               (case disp c s of
                  (Inl e, s') \<Rightarrow> s'
                | (Inr _, s') \<Rightarrow> serve disp evs s'))"

section \<open>Every accepted connection is observed and closed\<close>

text \<open>The sockets a script has the loop handle: those accepted before it ends.\<close>

fun served :: "'c accept_event list \<Rightarrow> 'c list" where
  "served [] = []"
| "served (StopSet # evs) = []"
| "served (AcceptTimeout # evs) = served evs"
| "served (AcceptError # evs) = []"
| "served (Accepted c # evs) = c # served evs"

text \<open>What the observer is told, run over its own state; what it raises goes to \<^verbatim>\<open>callback_errors\<close>.\<close>

definition tell :: "(intercepted_connection \<Rightarrow> ('w, unit) py) option \<Rightarrow> intercepted_connection \<Rightarrow> 'w \<Rightarrow> 'w" where
  "tell cb c w = (case cb of None \<Rightarrow> w | Some f \<Rightarrow> snd (f c w))"

lemma call_observer_returns:
  "\<exists>errs. call_observer c s = (Inr (), s\<lparr>px_world := tell (px_on_connection s) c (px_world s),
     px_callback_errors := px_callback_errors s @ errs\<rparr>)"
proof (cases "px_on_connection s")
  case None
  then show ?thesis
    by (intro exI [of _ "[]"]) (simp add: call_observer_def py_simps tell_def)
next
  case (Some f)
  obtain r w where f: "f c (px_world s) = (r, w)" by fastforce
  show ?thesis
    by (rule exI [of _ "case r of Inl e \<Rightarrow> [e] | Inr _ \<Rightarrow> []"], cases r)
       (use Some f in \<open>simp_all add: call_observer_def py_simps tell_def add_error_def\<close>)
qed

lemma notify_returns:
  "\<exists>errs. notify c s = (Inr (), s\<lparr>px_seen := px_seen s @ [c], px_world := tell (px_on_connection s) c (px_world s),
     px_callback_errors := px_callback_errors s @ errs\<rparr>)"
  using call_observer_returns [of c "s\<lparr>px_seen := px_seen s @ [c]\<rparr>"] by (auto simp: notify_def add_seen_def py_simps)

definition close_tame :: "sock \<Rightarrow> bool" where
  "close_tame c \<longleftrightarrow> (case sk_close c of None \<Rightarrow> True | Some e \<Rightarrow> is_OSError e)"

lemma close_sock_returns: "close_tame c \<Longrightarrow> close_sock c s = (Inr (), s\<lparr>px_closed := px_closed s @ [c]\<rparr>)"
  by (auto simp: close_sock_def close_tame_def py_simps split: option.splits)

lemma dispatch_returns:
  assumes "handle c s = (r, s')" "close_tame c" "case r of Inl e \<Rightarrow> is_Exception e | Inr _ \<Rightarrow> True"
  shows "dispatch handle c s = (Inr (), s'\<lparr>px_closed := px_closed s' @ [c],
     px_callback_errors := px_callback_errors s' @ (case r of Inl e \<Rightarrow> [e] | Inr _ \<Rightarrow> [])\<rparr>)"
  using assms by (cases r) (simp_all add: dispatch_def py_simps add_error_def close_sock_returns)

text \<open>A socket whose calls raise nothing but \<^verbatim>\<open>Exception\<close>s, and whose close only \<^verbatim>\<open>OSError\<close>s.\<close>

definition sock_tame :: "sock \<Rightarrow> bool" where
  "sock_tame c \<longleftrightarrow> close_tame c
     \<and> (case sk_original_dst c of Inl e \<Rightarrow> is_Exception e | Inr _ \<Rightarrow> True)
     \<and> (case sk_name c of Inl e \<Rightarrow> is_Exception e | Inr _ \<Rightarrow> True)"

lemma original_destination_tame:
  "case opt of Inl e \<Rightarrow> is_Exception e | Inr _ \<Rightarrow> True \<Longrightarrow> original_destination opt = Inl e \<Longrightarrow> is_Exception e"
  by (auto simp: original_destination_def unpack_sockaddr_def is_Exception_def split: sum.splits if_splits)

lemma deny_observed_tame: "sock_tame c \<Longrightarrow> deny_observed c = Inl e \<Longrightarrow> is_Exception e"
  using original_destination_tame [of "sk_original_dst c" e]
  by (auto simp: deny_observed_def sock_tame_def local_name_def split: sum.splits option.splits if_splits)

abbreviation deny_observations :: "sock list \<Rightarrow> intercepted_connection list" where
  "deny_observations cs \<equiv> concat (map (\<lambda>c. case deny_observed c of Inl _ \<Rightarrow> [] | Inr obs \<Rightarrow> [obs]) cs)"

lemma deny_dispatch:
  assumes "sock_tame c"
  shows "\<exists>s'. dispatch deny_handle c s = (Inr (), s') \<and> px_stop s' = px_stop s
    \<and> px_on_connection s' = px_on_connection s \<and> px_closed s' = px_closed s @ [c]
    \<and> px_seen s' = px_seen s @ deny_observations [c]
    \<and> px_world s' = foldl (\<lambda>w obs. tell (px_on_connection s) obs w) (px_world s) (deny_observations [c])"
proof (cases "deny_observed c")
  case (Inl e)
  then have "deny_handle c s = (Inl e, s)" by (simp add: deny_handle_def py_simps)
  then show ?thesis
    using dispatch_returns [of deny_handle c s "Inl e" s] Inl assms deny_observed_tame [OF assms Inl]
    by (simp add: sock_tame_def)
next
  case (Inr obs)
  obtain errs where "deny_handle c s = (Inr (), s\<lparr>px_seen := px_seen s @ [obs],
      px_world := tell (px_on_connection s) obs (px_world s), px_callback_errors := px_callback_errors s @ errs\<rparr>)"
    using notify_returns [of obs s] Inr by (auto simp: deny_handle_def)
  then show ?thesis
    using dispatch_returns [of deny_handle c s "Inr ()"] Inr assms by (simp add: sock_tame_def)
qed

text \<open>
  C28. Deny-all: whatever mix of connections, timeouts and failures the listener sees, each
  accepted connection is observed once, in order, with no path, the observer is told of
  each whatever it raised before, and each socket is closed. Nothing is ever forwarded.
\<close>
theorem deny_all_session:
  assumes "\<not> px_stop s" "list_all sock_tame (served evs)"
  shows "px_closed (serve (dispatch deny_handle) evs s) = px_closed s @ served evs
    \<and> px_seen (serve (dispatch deny_handle) evs s) = px_seen s @ deny_observations (served evs)
    \<and> px_world (serve (dispatch deny_handle) evs s) =
        foldl (\<lambda>w obs. tell (px_on_connection s) obs w) (px_world s) (deny_observations (served evs))
    \<and> list_all (\<lambda>obs. ic_path obs = None) (deny_observations (served evs))"
proof -
  have "px_closed (serve (dispatch deny_handle) evs s) = px_closed s @ served evs
    \<and> px_seen (serve (dispatch deny_handle) evs s) = px_seen s @ deny_observations (served evs)
    \<and> px_world (serve (dispatch deny_handle) evs s) =
        foldl (\<lambda>w obs. tell (px_on_connection s) obs w) (px_world s) (deny_observations (served evs))"
    using assms
  proof (induction evs arbitrary: s)
    case (Cons ev evs)
    show ?case
    proof (cases ev)
      case StopSet
      then show ?thesis using Cons.prems by (cases evs) simp_all
    next
      case (Accepted c)
      then have c: "sock_tame c" "list_all sock_tame (served evs)" using Cons.prems by simp_all
      obtain s' where s': "dispatch deny_handle c s = (Inr (), s')" "px_stop s' = px_stop s"
          "px_on_connection s' = px_on_connection s" "px_closed s' = px_closed s @ [c]"
          "px_seen s' = px_seen s @ deny_observations [c]"
          "px_world s' = foldl (\<lambda>w obs. tell (px_on_connection s) obs w) (px_world s) (deny_observations [c])"
        using deny_dispatch [OF c(1)] by blast
      then show ?thesis using Cons.IH [of s'] Cons.prems(1) Accepted c(2) by simp
    qed (use Cons in simp_all)
  qed simp
  moreover have "list_all (\<lambda>obs. ic_path obs = None) (deny_observations (served evs))"
    by (auto simp: list_all_iff deny_observed_def split: sum.splits option.splits)
  ultimately show ?thesis by simp
qed

definition demo_sock :: sock where
  "demo_sock =
     \<lparr>sk_peer = Some (''10.0.0.2'', 40000), sk_original_dst = Inr (sockaddr_in 0x0200 443 [1, 1, 1, 1]),
      sk_name = Inr (''10.0.0.1'', 8080), sk_close = None\<rparr>"

theorem deny_all_session_witness:
  "let s = serve (dispatch deny_handle) [AcceptTimeout, Accepted demo_sock, Accepted (demo_sock\<lparr>sk_original_dst := Inl (Exn OSErrorC [])\<rparr>),
               StopSet, Accepted demo_sock] (proxy_init None ''127.0.0.1'' 0 ())
   in map ic_port (px_seen s) = [443, 8080] \<and> map ic_redirected (px_seen s) = [True, False] \<and> length (px_closed s) = 2"
proof -
  let ?evs = "[AcceptTimeout, Accepted demo_sock, Accepted (demo_sock\<lparr>sk_original_dst := Inl (Exn OSErrorC [])\<rparr>),
               StopSet, Accepted demo_sock]"
  have t: "list_all sock_tame (served ?evs)" "\<not> px_stop (proxy_init None ''127.0.0.1'' 0 ())"
    by (simp_all add: demo_sock_def sock_tame_def close_tame_def is_Exception_def proxy_init_def)
  have d: "original_destination (Inr (sockaddr_in 0x0200 443 [1, 1, 1, 1])) = Inr (Some (inet_ntoa [1, 1, 1, 1], 443))"
    using original_destination_sockaddr [of "[1, 1, 1, 1]" "0x0200" 443] by simp
  show ?thesis
    using deny_all_session [OF t(2,1)] d
    by (simp add: Let_def proxy_init_def deny_observed_def demo_sock_def local_name_def
        original_destination_def [of "Inl _"] is_OSError_def)
qed

text \<open>The lifecycle calls of a proxy's owner, who may catch what they raise.\<close>

datatype lifecycle_call = StartCall "address \<Rightarrow> py_exn + address" | StopCall

fun proxy_call :: "lifecycle_call \<Rightarrow> (('w, 'z) proxy_scheme, unit) py" where
  "proxy_call (StartCall bind) = proxy_start bind"
| "proxy_call StopCall = proxy_stop"

abbreviation proxy_calls :: "lifecycle_call list \<Rightarrow> ('w, 'z) proxy_scheme \<Rightarrow> ('w, 'z) proxy_scheme" where
  "proxy_calls calls s \<equiv> foldl (\<lambda>s c. state_after (proxy_call c s)) s calls"

lemma stopped_for_good: "px_stop s \<Longrightarrow> px_stop (proxy_calls calls s)"
proof (induction calls arbitrary: s)
  case (Cons c calls)
  have "px_stop (state_after (proxy_call c s))"
    using Cons.prems by (cases c) (auto simp: proxy_start_def proxy_stop_def split: sum.splits)
  then show ?case using Cons.IH by simp
qed simp

text \<open>
  \<^verbatim>\<open>_stop\<close> is set by \<^verbatim>\<open>stop()\<close> and never cleared: whatever is called before and after it, a
  proxy that was stopped once never serves again. Started again it holds a listening socket
  whose accept loop ends at once, so no connection is accepted, observed or closed.
\<close>
theorem restarted_proxy_serves_nothing:
  "serve disp evs (proxy_calls (before @ StopCall # calls) s) = proxy_calls (before @ StopCall # calls) s
    \<and> px_sock (proxy_calls (before @ [StopCall, StartCall (\<lambda>a. Inr a)]) s) \<noteq> None"
proof -
  have "px_stop (proxy_calls (before @ StopCall # calls) s)"
    using stopped_for_good [of "state_after (proxy_stop (proxy_calls before s))" calls] by (simp add: proxy_stop_def)
  then have "serve disp evs (proxy_calls (before @ StopCall # calls) s) = proxy_calls (before @ StopCall # calls) s"
    by (cases evs) simp_all
  moreover have "px_sock (proxy_calls (before @ [StopCall, StartCall (\<lambda>a. Inr a)]) s) \<noteq> None"
    by (simp add: proxy_stop_def proxy_start_def)
  ultimately show ?thesis by blast
qed

end
