(* ===== verification/Certs.thy ===== *)
theory Certs
  imports Connection
begin

text \<open>
  \<^verbatim>\<open>halt/intercept/certs.py\<close>: the certificate authority of the proxy, one leaf per hostname,
  minted by the \<^verbatim>\<open>openssl\<close> command and cached. \<^verbatim>\<open>subprocess.run\<close> and \<^verbatim>\<open>write_text\<close> are calls
  on the outside world \<open>'h\<close>.
\<close>

record cert_pair =
  pair_cert_path :: string
  pair_key_path :: string

record openssl_result =
  os_returncode :: int
  os_stderr :: string

record 'h cert_authority =
  ca_dir :: string
  ca_openssl :: string
  ca_leaves :: "string \<rightharpoonup> cert_pair"
  ca_run :: "string list \<Rightarrow> ('h, openssl_result) py"
  ca_write_text :: "string \<Rightarrow> string \<Rightarrow> ('h, unit) py"
  ca_host :: 'h

text \<open>
  \<^verbatim>\<open>str(self._dir / name)\<close> for the names built here, none of which holds a slash; the
  directory is a non-empty path other than the root and the current directory.
\<close>

definition in_dir :: "string \<Rightarrow> string \<Rightarrow> string" where
  "in_dir d name = d @ ''/'' @ name"

definition ca_pair :: "('h, 'z) cert_authority_scheme \<Rightarrow> cert_pair" where
  "ca_pair a = \<lparr>pair_cert_path = in_dir (ca_dir a) ''ca.crt'', pair_key_path = in_dir (ca_dir a) ''ca.key''\<rparr>"

definition ca_cert_path :: "('h, 'z) cert_authority_scheme \<Rightarrow> string" where
  "ca_cert_path a = pair_cert_path (ca_pair a)"

definition on_host :: "('h, 'a) py \<Rightarrow> ('h cert_authority, 'a) py" where
  "on_host m = py_on ca_host (\<lambda>h a. a\<lparr>ca_host := h\<rparr>) m"

definition openssl :: "string list \<Rightarrow> ('h cert_authority, unit) py" where
  "openssl args a =
     py_bind (on_host (ca_run a (ca_openssl a # args))) (\<lambda>r.
       if os_returncode r \<noteq> 0
       then py_raise (Exn RuntimeErrorC (''openssl '' @ hd args @ '' failed: '' @ strip (os_stderr r)))
       else py_return ()) a"

definition mint_ca :: "('h cert_authority, unit) py" where
  "mint_ca a =
     openssl [''req'', ''-x509'', ''-newkey'', ''ec'',
       ''-pkeyopt'', ''ec_paramgen_curve:prime256v1'', ''-nodes'',
       ''-keyout'', pair_key_path (ca_pair a), ''-out'', pair_cert_path (ca_pair a),
       ''-days'', ''3650'', ''-subj'', ''/CN=HALT egress CA'',
       ''-addext'', ''basicConstraints=critical,CA:TRUE'',
       ''-addext'', ''keyUsage=critical,keyCertSign,cRLSign''] a"

text \<open>\<open>exists\<close> is whether the CA certificate is already there; the mkdir is done by the caller.\<close>

definition cert_authority_init ::
  "string \<Rightarrow> string \<Rightarrow> (string list \<Rightarrow> ('h, openssl_result) py) \<Rightarrow> (string \<Rightarrow> string \<Rightarrow> ('h, unit) py) \<Rightarrow>
   (string \<Rightarrow> bool) \<Rightarrow> 'h \<Rightarrow> (py_exn + unit) \<times> 'h cert_authority" where
  "cert_authority_init d ossl run write exists h =
     (let a = \<lparr>ca_dir = d, ca_openssl = ossl, ca_leaves = Map.empty, ca_run = run, ca_write_text = write, ca_host = h\<rparr>
      in if exists (pair_cert_path (ca_pair a)) then (Inr (), a) else mint_ca a)"

section \<open>Leaves\<close>

text \<open>\<^verbatim>\<open>all(p.isdigit() and 0 <= int(p) <= 255 for p in parts)\<close>, left to right; \<^verbatim>\<open>int\<close> may raise.\<close>

fun all_octets :: "string list \<Rightarrow> py_exn + bool" where
  "all_octets [] = Inr True"
| "all_octets (p # ps) =
     (if isdigit p then
        (case py_int p of Inl e \<Rightarrow> Inl e | Inr n \<Rightarrow> if 0 \<le> n \<and> n \<le> 255 then all_octets ps else Inr False)
      else Inr False)"

definition looks_like_ipv4 :: "string \<Rightarrow> py_exn + bool" where
  "looks_like_ipv4 s =
     (let parts = split_on ''.'' s in if length parts = 4 then all_octets parts else Inr False)"

definition safe_name :: "string \<Rightarrow> string" where
  "safe_name hostname = map (\<lambda>c. if is_alnum_char c \<or> c \<in> set ''.-'' then c else CHR ''_'') hostname"

definition leaf_pair :: "string \<Rightarrow> string \<Rightarrow> cert_pair" where
  "leaf_pair d hostname =
     \<lparr>pair_cert_path = in_dir d (safe_name hostname @ ''.crt''), pair_key_path = in_dir d (safe_name hostname @ ''.key'')\<rparr>"

definition extension_text :: "bool \<Rightarrow> string \<Rightarrow> string" where
  "extension_text ip hostname =
     ''subjectAltName='' @ (if ip then ''IP:'' else ''DNS:'') @ hostname @ [LF]
   @ ''basicConstraints=CA:FALSE'' @ [LF]
   @ ''keyUsage=digitalSignature,keyEncipherment'' @ [LF]
   @ ''extendedKeyUsage=serverAuth'' @ [LF]"

definition leaf_file :: "('h, 'z) cert_authority_scheme \<Rightarrow> string \<Rightarrow> string \<Rightarrow> string" where
  "leaf_file a hostname ending = in_dir (ca_dir a) (safe_name hostname @ ending)"

text \<open>The three calls on the outside world of \<^verbatim>\<open>_mint_leaf\<close>.\<close>

definition write_extension :: "string \<Rightarrow> bool \<Rightarrow> ('h cert_authority, unit) py" where
  "write_extension hostname ip a =
     on_host (ca_write_text a (leaf_file a hostname ''.ext'') (extension_text ip hostname)) a"

definition request_leaf :: "string \<Rightarrow> ('h cert_authority, unit) py" where
  "request_leaf hostname a =
     openssl [''req'', ''-new'', ''-newkey'', ''ec'',
       ''-pkeyopt'', ''ec_paramgen_curve:prime256v1'', ''-nodes'',
       ''-keyout'', leaf_file a hostname ''.key'', ''-out'', leaf_file a hostname ''.csr'',
       ''-subj'', ''/CN='' @ hostname] a"

definition sign_leaf :: "string \<Rightarrow> ('h cert_authority, unit) py" where
  "sign_leaf hostname a =
     openssl [''x509'', ''-req'', ''-in'', leaf_file a hostname ''.csr'',
       ''-CA'', pair_cert_path (ca_pair a), ''-CAkey'', pair_key_path (ca_pair a),
       ''-CAcreateserial'', ''-out'', leaf_file a hostname ''.crt'', ''-days'', ''30'',
       ''-extfile'', leaf_file a hostname ''.ext''] a"

definition minted_pair :: "string \<Rightarrow> ('h cert_authority, cert_pair) py" where
  "minted_pair hostname = py_bind (py_get ca_dir) (\<lambda>d. py_return (leaf_pair d hostname))"

definition mint_leaf :: "string \<Rightarrow> ('h cert_authority, cert_pair) py" where
  "mint_leaf hostname =
     (case looks_like_ipv4 hostname of
        Inl e \<Rightarrow> py_raise e
      | Inr ip \<Rightarrow>
          py_seq (write_extension hostname ip)
            (py_seq (request_leaf hostname) (py_seq (sign_leaf hostname) (minted_pair hostname))))"

definition keep_leaf :: "string \<Rightarrow> cert_pair \<Rightarrow> ('h cert_authority, cert_pair) py" where
  "keep_leaf hostname pair =
     py_seq (py_modify (\<lambda>a. a\<lparr>ca_leaves := (ca_leaves a)(hostname \<mapsto> pair)\<rparr>)) (py_return pair)"

text \<open>Under \<^verbatim>\<open>self._lock\<close>: one caller at a time. The theory LeafThreads runs several against the lock.\<close>

definition leaf_for :: "string \<Rightarrow> ('h cert_authority, cert_pair) py" where
  "leaf_for hostname a =
     (case ca_leaves a hostname of
        Some pair \<Rightarrow> (Inr pair, a)
      | None \<Rightarrow> py_bind (mint_leaf hostname) (keep_leaf hostname) a)"

section \<open>The cache\<close>

lemmas mint_ops = write_extension_def request_leaf_def sign_leaf_def minted_pair_def keep_leaf_def leaf_file_def

definition leaves_ok :: "'h cert_authority \<Rightarrow> bool" where
  "leaves_ok a \<longleftrightarrow> (\<forall>h pair. ca_leaves a h = Some pair \<longrightarrow> pair = leaf_pair (ca_dir a) h)"

text \<open>Commands and file writes change the outside world only.\<close>

lemma on_host_run [py_simps]: "on_host m a = (case m (ca_host a) of (r, h) \<Rightarrow> (r, a\<lparr>ca_host := h\<rparr>))"
  by (simp add: on_host_def py_simps)

definition frames :: "'h cert_authority \<Rightarrow> ('h cert_authority, 'a) py \<Rightarrow> (py_exn + 'a \<Rightarrow> bool) \<Rightarrow> bool" where
  "frames a m P \<longleftrightarrow> (\<forall>h. \<exists>r h'. m (a\<lparr>ca_host := h\<rparr>) = (r, a\<lparr>ca_host := h'\<rparr>) \<and> P r)"

lemma frames_seq:
  assumes "frames a m (\<lambda>_. True)" "frames a k P" "\<And>e. P (Inl e)"
  shows "frames a (py_seq m k) P"
  unfolding frames_def
proof
  fix h
  obtain r h1 where 1: "m (a\<lparr>ca_host := h\<rparr>) = (r, a\<lparr>ca_host := h1\<rparr>)" using assms(1) unfolding frames_def by blast
  obtain r' h2 where 2: "k (a\<lparr>ca_host := h1\<rparr>) = (r', a\<lparr>ca_host := h2\<rparr>)" "P r'"
    using assms(2) unfolding frames_def by blast
  show "\<exists>r h'. py_seq m k (a\<lparr>ca_host := h\<rparr>) = (r, a\<lparr>ca_host := h'\<rparr>) \<and> P r"
    using 1 2 assms(3) by (cases r) (auto simp: py_simps)
qed

lemma frames_openssl:
  assumes "\<And>h. args (a\<lparr>ca_host := h\<rparr>) = args a"
  shows "frames a (\<lambda>a. openssl (args a) a) (\<lambda>_. True)"
  unfolding frames_def
proof
  fix h
  obtain r h' where "ca_run a (ca_openssl a # args a) h = (r, h')" by fastforce
  then show "\<exists>r h'. openssl (args (a\<lparr>ca_host := h\<rparr>)) (a\<lparr>ca_host := h\<rparr>) = (r, a\<lparr>ca_host := h'\<rparr>) \<and> True"
    by (cases r) (auto simp: openssl_def py_simps assms)
qed

lemma frames_write: "frames a (write_extension hostname ip) (\<lambda>_. True)"
  unfolding frames_def
proof
  fix h
  show "\<exists>r h'. write_extension hostname ip (a\<lparr>ca_host := h\<rparr>) = (r, a\<lparr>ca_host := h'\<rparr>) \<and> True"
    by (cases "ca_write_text a (leaf_file a hostname ''.ext'') (extension_text ip hostname) h")
      (auto simp: write_extension_def py_simps leaf_file_def)
qed

lemma frames_request: "frames a (request_leaf hostname) (\<lambda>_. True)"
  unfolding request_leaf_def by (rule frames_openssl) (simp add: leaf_file_def)

lemma frames_sign: "frames a (sign_leaf hostname) (\<lambda>_. True)"
  unfolding sign_leaf_def by (rule frames_openssl) (simp add: leaf_file_def ca_pair_def)

lemma frames_minted: "frames a (minted_pair hostname) (\<lambda>r. r = Inr (leaf_pair (ca_dir a) hostname))"
  by (auto simp: frames_def minted_pair_def py_simps)

lemmas frames_ops = frames_write frames_request frames_sign

lemma mint_leaf_frame:
  "\<exists>r h. mint_leaf hostname a = (r, a\<lparr>ca_host := h\<rparr>) \<and> (case r of Inl _ \<Rightarrow> True | Inr pair \<Rightarrow> pair = leaf_pair (ca_dir a) hostname)"
proof (cases "looks_like_ipv4 hostname")
  case (Inl e)
  then show ?thesis by (intro exI [of _ "Inl e"] exI [of _ "ca_host a"]) (simp add: mint_leaf_def py_simps)
next
  case (Inr ip)
  have "frames a (minted_pair hostname) (\<lambda>r. case r of Inl _ \<Rightarrow> True | Inr pair \<Rightarrow> pair = leaf_pair (ca_dir a) hostname)"
    using frames_minted [of a hostname] by (fastforce simp: frames_def)
  then have "frames a (mint_leaf hostname) (\<lambda>r. case r of Inl _ \<Rightarrow> True | Inr pair \<Rightarrow> pair = leaf_pair (ca_dir a) hostname)"
    unfolding mint_leaf_def Inr sum.case by (intro frames_seq frames_ops) simp_all
  then show ?thesis by (force simp: frames_def dest: spec [of _ "ca_host a"])
qed

text \<open>Whatever is minted, the path handed to the sandbox's trust store stays the same.\<close>

lemma ca_path_kept: "ca_cert_path (snd (leaf_for hostname a)) = ca_cert_path a"
proof (cases "ca_leaves a hostname")
  case None
  obtain r h where "mint_leaf hostname a = (r, a\<lparr>ca_host := h\<rparr>)" using mint_leaf_frame [of hostname a] by blast
  then show ?thesis using None
    by (cases r) (auto simp: leaf_for_def keep_leaf_def py_simps ca_cert_path_def ca_pair_def)
qed (simp add: leaf_for_def)

text \<open>
  \<^verbatim>\<open>leaf_for\<close> answers with the pair its hostname names and caches it: asked again, it
  returns the same pair without running a command. A failed mint caches nothing.
\<close>
theorem leaf_is_cached:
  assumes "leaves_ok a"
  shows "case leaf_for hostname a of
      (Inl _, a') \<Rightarrow> ca_leaves a' = ca_leaves a
    | (Inr pair, a') \<Rightarrow> pair = leaf_pair (ca_dir a) hostname \<and> leaf_for hostname a' = (Inr pair, a') \<and> leaves_ok a'"
proof (cases "ca_leaves a hostname")
  case (Some pair)
  then show ?thesis using assms by (simp add: leaf_for_def leaves_ok_def)
next
  case None
  obtain r h where m: "mint_leaf hostname a = (r, a\<lparr>ca_host := h\<rparr>)"
      "case r of Inl _ \<Rightarrow> True | Inr pair \<Rightarrow> pair = leaf_pair (ca_dir a) hostname"
    using mint_leaf_frame [of hostname a] by auto
  then show ?thesis using None assms
    by (cases r) (auto simp: leaf_for_def keep_leaf_def py_simps leaves_ok_def)
qed

definition demo_ca :: "string list list cert_authority" where
  "demo_ca =
     \<lparr>ca_dir = ''/run/halt-ca'', ca_openssl = ''openssl'', ca_leaves = Map.empty,
      ca_run = (\<lambda>cmd log. (Inr \<lparr>os_returncode = 0, os_stderr = []\<rparr>, log @ [cmd])),
      ca_write_text = (\<lambda>_ _ log. (Inr (), log)), ca_host = []\<rparr>"

lemma demo_ca_ok: "leaves_ok demo_ca"
  by (simp add: leaves_ok_def demo_ca_def)

lemma demo_leaf: "looks_like_ipv4 ''pypi.org'' = Inr False"
  by code_simp

lemma demo_mint:
  "\<exists>a'. leaf_for ''pypi.org'' demo_ca = (Inr (leaf_pair ''/run/halt-ca'' ''pypi.org''), a') \<and> length (ca_host a') = 2"
  by (simp add: leaf_for_def mint_leaf_def demo_leaf mint_ops py_simps openssl_def demo_ca_def)

theorem leaf_is_cached_witness:
  "\<exists>a'. leaf_for ''pypi.org'' demo_ca = (Inr (leaf_pair ''/run/halt-ca'' ''pypi.org''), a')
     \<and> leaf_for ''pypi.org'' a' = (Inr (leaf_pair ''/run/halt-ca'' ''pypi.org''), a') \<and> length (ca_host a') = 2"
proof -
  obtain a' where "leaf_for ''pypi.org'' demo_ca = (Inr (leaf_pair ''/run/halt-ca'' ''pypi.org''), a')"
      "length (ca_host a') = 2"
    using demo_mint by blast
  then show ?thesis using leaf_is_cached [OF demo_ca_ok, of "''pypi.org''"] by (intro exI [of _ a']) simp
qed

section \<open>File names\<close>

lemma safe_name_chars: "c \<in> set (safe_name h) \<Longrightarrow> is_alnum_char c \<or> c \<in> {CHR ''.'', CHR ''-'', CHR ''_''}"
  by (auto simp: safe_name_def split: if_splits)

lemma slash_not_safe: "CHR ''/'' \<notin> set (safe_name h)"
proof
  assume "CHR ''/'' \<in> set (safe_name h)"
  moreover have "\<not> is_alnum_char (CHR ''/'')" by code_simp
  ultimately show False using safe_name_chars [of "CHR ''/''" h] by simp
qed

text \<open>
  Whatever name an agent sends as SNI, the certificate and key files are direct children of
  the CA's directory: no separator survives, so no path traversal.
\<close>
theorem leaf_files_stay_in_directory:
  "\<exists>crt key. pair_cert_path (leaf_pair d hostname) = in_dir d crt \<and> pair_key_path (leaf_pair d hostname) = in_dir d key
     \<and> CHR ''/'' \<notin> set crt \<union> set key \<and> crt \<notin> {''.'', ''..''} \<and> key \<notin> {''.'', ''..''}"
proof -
  have "safe_name hostname @ ''.crt'' \<notin> {''.'', ''..''}" "safe_name hostname @ ''.key'' \<notin> {''.'', ''..''}"
    by (auto simp: append_eq_Cons_conv)
  then show ?thesis using slash_not_safe [of hostname]
    by (intro exI [of _ "safe_name hostname @ ''.crt''"] exI [of _ "safe_name hostname @ ''.key''"])
       (simp add: leaf_pair_def)
qed

text \<open>
  But names do meet: two hostnames that differ only in replaced characters share their
  files, so minting the second overwrites the first one's key under its cached pair; and the
  SNI \<^verbatim>\<open>ca\<close> names the authority's own certificate and key, which minting its leaf overwrites.
\<close>
theorem leaf_files_collide:
  "leaf_pair d ''a_b.example'' = leaf_pair d ''a*b.example'' \<and> leaf_pair (ca_dir a) ''ca'' = ca_pair a
    \<and> (\<exists>a'. leaf_for ''ca'' demo_ca = (Inr (ca_pair demo_ca), a')
          \<and> take 10 (drop 8 (hd (ca_host a'))) = [''-keyout'', pair_key_path (ca_pair demo_ca), ''-out'',
               in_dir (ca_dir demo_ca) ''ca.csr'', ''-subj'', ''/CN=ca''])"
proof -
  have s: "safe_name ''a_b.example'' = safe_name ''a*b.example''" "safe_name ''ca'' = ''ca''"
    "looks_like_ipv4 ''ca'' = Inr False"
    by code_simp+
  show ?thesis using s
    by (simp add: leaf_pair_def ca_pair_def leaf_for_def mint_leaf_def mint_ops py_simps openssl_def demo_ca_def)
qed

text \<open>
  An IPv4 address in the form the kernel's addresses are shown gets an \<^verbatim>\<open>IP:\<close> alternative
  name, so a client that connects by address can verify the leaf.
\<close>

lemma show_nat_octet: "unat (b :: 8 word) < 256"
  using unsigned_less [of b, where ?'a = nat] by simp

lemma all_octets_shown: "all_octets (map (\<lambda>b :: 8 word. show_nat (unat b)) bs) = Inr True"
proof (induction bs)
  case (Cons b bs)
  have dec: "list_all is_decimal (show_nat (unat b))" by (rule show_nat_decimal)
  have "length (show_nat (unat b)) \<le> int_max_str_digits"
    using show_nat_octet [of b] by (subst show_nat.simps, subst show_nat.simps, subst show_nat.simps)
      (auto simp: int_max_str_digits_def)
  then have "py_int (show_nat (unat b)) = Inr (int (unat b))"
    using dec by (simp add: py_int_def)
  moreover have "uint b \<le> 255" using uint_lt2p [of b] by simp
  ultimately show ?case
    using Cons isdigit_decimal [OF dec] by simp
qed simp

theorem kernel_addresses_look_like_ipv4:
  assumes "length addr = 4"
  shows "looks_like_ipv4 (inet_ntoa addr) = Inr True"
proof -
  have "split_on ''.'' (inet_ntoa addr) = map (\<lambda>b. show_nat (unat b)) addr"
    unfolding inet_ntoa_def using assms dot_not_decimal by (intro split_on_intercalate) auto
  then show ?thesis using assms all_octets_shown by (simp add: looks_like_ipv4_def)
qed

theorem kernel_addresses_look_like_ipv4_witness: "looks_like_ipv4 ''1.1.1.1'' = Inr True"
proof -
  have "inet_ntoa [1, 1, 1, 1] = ''1.1.1.1''" by code_simp
  then show ?thesis using kernel_addresses_look_like_ipv4 [of "[1, 1, 1, 1]"] by simp
qed

end
