(* ===== verification/Kill.thy ===== *)
theory Kill
  imports Prelude "HOL-Library.Sublist"
begin

text \<open>
  \<^verbatim>\<open>halt/kill.py\<close>: the kill sequence and the seam \<^verbatim>\<open>KillBackend\<close> it drives.

  A backend is the record of its three methods over its own state \<open>'b\<close>, with the class
  attribute that picks the order of the last two. \<open>execute_kill\<close> is
  \<^verbatim>\<open>execute_kill()\<close>; \<open>local_backend\<close> is \<^verbatim>\<open>LocalProcessBackend\<close>. The Firecracker and
  gVisor backends are in the theory Backends.
\<close>

record kill_result =
  kr_run_id :: string
  kr_credentials_revoked :: "string list"
  kr_network_severed :: bool
  kr_process_terminated :: bool

record 'b kill_backend =
  can_sever_network_before_terminate :: bool
  kb_revoke_credential :: "string \<Rightarrow> ('b, bool) py"
  kb_sever_network :: "string \<Rightarrow> ('b, bool) py"
  kb_terminate :: "string \<Rightarrow> ('b, bool) py"

primrec revoke_loop :: "'b kill_backend \<Rightarrow> string list \<Rightarrow> ('b, string list) py" where
  "revoke_loop B [] = py_return []"
| "revoke_loop B (c # cs) =
     py_bind (kb_revoke_credential B c) (\<lambda>ok.
     py_bind (revoke_loop B cs) (\<lambda>done.
     py_return (if ok then c # done else done)))"

definition execute_kill :: "'b kill_backend \<Rightarrow> string \<Rightarrow> string list \<Rightarrow> ('b, kill_result) py" where
  "execute_kill B run creds =
     py_bind (revoke_loop B creds) (\<lambda>revoked.
     if can_sever_network_before_terminate B then
       py_bind (kb_sever_network B run) (\<lambda>severed.
       py_bind (kb_terminate B run) (\<lambda>gone.
       py_return \<lparr>kr_run_id = run, kr_credentials_revoked = revoked, kr_network_severed = severed,
                  kr_process_terminated = gone\<rparr>))
     else
       py_bind (kb_terminate B run) (\<lambda>gone.
       py_bind (kb_sever_network B run) (\<lambda>severed.
       py_return \<lparr>kr_run_id = run, kr_credentials_revoked = revoked, kr_network_severed = severed,
                  kr_process_terminated = gone\<rparr>)))"

section \<open>The order of the calls\<close>

text \<open>
  A backend that logs each call before making it: what the calls of \<open>execute_kill\<close> are,
  whatever the backend does, is a fact about this log.
\<close>

datatype kill_call = Revoke string | Sever string | Terminate string

definition logged :: "kill_call \<Rightarrow> ('b, 'a) py \<Rightarrow> ('b \<times> kill_call list, 'a) py" where
  "logged c m = (\<lambda>(b, log). case m b of (r, b') \<Rightarrow> (r, (b', log @ [c])))"

definition logging :: "'b kill_backend \<Rightarrow> ('b \<times> kill_call list) kill_backend" where
  "logging B =
     \<lparr>can_sever_network_before_terminate = can_sever_network_before_terminate B,
      kb_revoke_credential = (\<lambda>t. logged (Revoke t) (kb_revoke_credential B t)),
      kb_sever_network = (\<lambda>r. logged (Sever r) (kb_sever_network B r)),
      kb_terminate = (\<lambda>r. logged (Terminate r) (kb_terminate B r))\<rparr>"

definition kill_plan :: "'b kill_backend \<Rightarrow> string \<Rightarrow> string list \<Rightarrow> kill_call list" where
  "kill_plan B run creds =
     map Revoke creds @ (if can_sever_network_before_terminate B then [Sever run, Terminate run]
                         else [Terminate run, Sever run])"

lemma logged_run [py_simps]: "logged c m (b, log) = (case m b of (r, b') \<Rightarrow> (r, (b', log @ [c])))"
  by (simp add: logged_def)

lemma logging_sel [simp]:
  "can_sever_network_before_terminate (logging B) = can_sever_network_before_terminate B"
  "kb_revoke_credential (logging B) t = logged (Revoke t) (kb_revoke_credential B t)"
  "kb_sever_network (logging B) r = logged (Sever r) (kb_sever_network B r)"
  "kb_terminate (logging B) r = logged (Terminate r) (kb_terminate B r)"
  by (simp_all add: logging_def)

lemma revoke_loop_log:
  "\<exists>n. revoke_loop (logging B) cs (b, log) =
     (fst (revoke_loop B cs b), (snd (revoke_loop B cs b), log @ take n (map Revoke cs)))
     \<and> (returns (revoke_loop B cs b) \<longrightarrow> n = length cs)"
proof (induction cs arbitrary: b log)
  case Nil
  then show ?case by (simp add: py_simps)
next
  case (Cons c cs)
  obtain r b' where m: "kb_revoke_credential B c b = (r, b')" by fastforce
  show ?case
  proof (cases r)
    case (Inl e)
    then show ?thesis using m by (intro exI [of _ 1]) (simp add: py_simps)
  next
    case (Inr ok)
    obtain n where n: "revoke_loop (logging B) cs (b', log @ [Revoke c]) =
        (fst (revoke_loop B cs b'), (snd (revoke_loop B cs b'), (log @ [Revoke c]) @ take n (map Revoke cs)))"
      "returns (revoke_loop B cs b') \<longrightarrow> n = length cs"
      using Cons.IH [of b' "log @ [Revoke c]"] by blast
    show ?thesis
      by (intro exI [of _ "Suc n"], cases "revoke_loop B cs b'", rename_tac z s, case_tac z)
         (use m Inr n in \<open>simp_all add: py_simps\<close>)
  qed
qed

lemma execute_kill_log:
  "\<exists>n. execute_kill (logging B) run creds (b, []) =
     (fst (execute_kill B run creds b), (snd (execute_kill B run creds b), take n (kill_plan B run creds)))
     \<and> (returns (execute_kill B run creds b) \<longrightarrow> n = length (kill_plan B run creds))"
proof -
  obtain n where n: "revoke_loop (logging B) creds (b, []) =
      (fst (revoke_loop B creds b), (snd (revoke_loop B creds b), take n (map Revoke creds)))"
    "returns (revoke_loop B creds b) \<longrightarrow> n = length creds"
    using revoke_loop_log [of B creds b "[]"] by auto
  obtain r b1 where r: "revoke_loop B creds b = (r, b1)" by fastforce
  show ?thesis
  proof (cases r)
    case (Inl e)
    then show ?thesis
      using n r by (intro exI [of _ "min n (length creds)"])
        (simp add: execute_kill_def py_simps kill_plan_def take_map min_def)
  next
    case (Inr revoked)
    then have all: "n = length creds" using n r by simp
    obtain r1 b2 where s: "kb_sever_network B run b1 = (r1, b2)" by fastforce
    obtain r2 b3 where st: "kb_terminate B run b2 = (r2, b3)" by fastforce
    obtain q1 c2 where t: "kb_terminate B run b1 = (q1, c2)" by fastforce
    obtain q2 c3 where ts: "kb_sever_network B run c2 = (q2, c3)" by fastforce
    let ?first = "if can_sever_network_before_terminate B then isl r1 else isl q1"
    show ?thesis
      by (intro exI [of _ "length creds + (if ?first then 1 else 2)"], cases r1; cases r2; cases q1; cases q2)
         (use n r Inr all s st t ts in \<open>simp_all add: execute_kill_def py_simps kill_plan_def\<close>)
  qed
qed

text \<open>
  C17. Credentials first, always: whatever the backend does, the calls \<^verbatim>\<open>execute_kill\<close> makes are
  a prefix of the plan (every revocation in order, then the two infrastructure actions in
  the backend's order), all of it when the kill returns; logging changes neither the
  outcome nor the backend's state.
\<close>
theorem kill_order:
  "\<exists>log. execute_kill (logging B) run creds (b, []) =
       (fst (execute_kill B run creds b), (snd (execute_kill B run creds b), log))
     \<and> (if returns (execute_kill B run creds b) then log = kill_plan B run creds
         else prefix log (kill_plan B run creds))"
proof -
  obtain n where n: "execute_kill (logging B) run creds (b, []) =
      (fst (execute_kill B run creds b), (snd (execute_kill B run creds b), take n (kill_plan B run creds)))"
    "returns (execute_kill B run creds b) \<longrightarrow> n = length (kill_plan B run creds)"
    using execute_kill_log [of B run creds b] by blast
  then show ?thesis by (auto simp: take_is_prefix)
qed

section \<open>What a kill reports\<close>

text \<open>\<^verbatim>\<open>credentials_revoked\<close> lists, in order, the credentials whose revocation answered \<^verbatim>\<open>True\<close>.\<close>

lemma revoke_loop_subseq: "revoke_loop B cs b = (Inr ds, b') \<Longrightarrow> subseq ds cs"
proof (induction cs arbitrary: b ds)
  case (Cons c cs)
  then show ?case
    by (auto simp: py_simps split: prod.splits sum.splits if_splits)
qed (simp add: py_simps)

section \<open>The contract of a backend\<close>

text \<open>
  Nothing on the kill path may raise: from a state satisfying \<open>ok\<close> every method returns
  and keeps \<open>ok\<close>. Under that contract \<open>execute_kill\<close> returns, having tried everything.
\<close>

locale total_backend =
  fixes B :: "'b kill_backend" and ok :: "'b \<Rightarrow> bool"
  assumes revoke_total: "ok b \<Longrightarrow> \<exists>v b'. kb_revoke_credential B tok b = (Inr v, b') \<and> ok b'"
    and sever_total: "ok b \<Longrightarrow> \<exists>v b'. kb_sever_network B run b = (Inr v, b') \<and> ok b'"
    and terminate_total: "ok b \<Longrightarrow> \<exists>v b'. kb_terminate B run b = (Inr v, b') \<and> ok b'"
begin

lemma revoke_loop_total: "ok b \<Longrightarrow> \<exists>ds b'. revoke_loop B cs b = (Inr ds, b') \<and> ok b'"
proof (induction cs arbitrary: b)
  case (Cons c cs)
  obtain v b1 where v: "kb_revoke_credential B c b = (Inr v, b1)" "ok b1"
    using revoke_total [OF Cons.prems] by blast
  obtain ds b2 where "revoke_loop B cs b1 = (Inr ds, b2)" "ok b2"
    using Cons.IH [OF v(2)] by blast
  then show ?case using v by (simp add: py_simps)
qed (simp add: py_simps)

lemma execute_kill_total:
  assumes "ok b"
  shows "\<exists>r b'. execute_kill B run creds b = (Inr r, b') \<and> ok b' \<and> kr_run_id r = run
    \<and> subseq (kr_credentials_revoked r) creds"
proof -
  obtain ds b1 where 1: "revoke_loop B creds b = (Inr ds, b1)" "ok b1"
    using revoke_loop_total [OF assms] by blast
  obtain s1 b2 where 2: "kb_sever_network B run b1 = (Inr s1, b2)" "ok b2"
    using sever_total [OF 1(2)] by blast
  obtain t1 b3 where 3: "kb_terminate B run b2 = (Inr t1, b3)" "ok b3"
    using terminate_total [OF 2(2)] by blast
  obtain t2 c2 where 4: "kb_terminate B run b1 = (Inr t2, c2)" "ok c2"
    using terminate_total [OF 1(2)] by blast
  obtain s2 c3 where 5: "kb_sever_network B run c2 = (Inr s2, c3)" "ok c3"
    using sever_total [OF 4(2)] by blast
  show ?thesis
    using 1 2 3 4 5 revoke_loop_subseq [OF 1(1)] by (auto simp: execute_kill_def py_simps)
qed

end

section \<open>LocalProcessBackend\<close>

text \<open>
  The dev and test backend: two sets and the registered processes. A \<^verbatim>\<open>Popen\<close> is a handle;
  \<open>lb_killed\<close> holds the handles \<^verbatim>\<open>kill()\<close> was called on.
\<close>

record local_state =
  lb_revoked :: "string set"
  lb_network_severed :: "string set"
  lb_processes :: "string \<rightharpoonup> nat"
  lb_killed :: "nat set"

definition local_init :: local_state where
  "local_init = \<lparr>lb_revoked = {}, lb_network_severed = {}, lb_processes = Map.empty, lb_killed = {}\<rparr>"

definition register_process :: "string \<Rightarrow> nat \<Rightarrow> local_state \<Rightarrow> local_state" where
  "register_process run proc b = b\<lparr>lb_processes := (lb_processes b)(run \<mapsto> proc)\<rparr>"

definition local_revoke_credential :: "string \<Rightarrow> (local_state, bool) py" where
  "local_revoke_credential tok b = (Inr True, b\<lparr>lb_revoked := insert tok (lb_revoked b)\<rparr>)"

definition is_revoked :: "local_state \<Rightarrow> string \<Rightarrow> bool" where
  "is_revoked b tok \<longleftrightarrow> tok \<in> lb_revoked b"

definition local_sever_network :: "string \<Rightarrow> (local_state, bool) py" where
  "local_sever_network run b = (Inr True, b\<lparr>lb_network_severed := insert run (lb_network_severed b)\<rparr>)"

definition is_network_severed :: "local_state \<Rightarrow> string \<Rightarrow> bool" where
  "is_network_severed b run \<longleftrightarrow> run \<in> lb_network_severed b"

definition local_terminate :: "string \<Rightarrow> (local_state, bool) py" where
  "local_terminate run b =
     (case lb_processes b run of
        None \<Rightarrow> (Inr False, b)
      | Some proc \<Rightarrow> (Inr True, b\<lparr>lb_killed := insert proc (lb_killed b)\<rparr>))"

definition local_backend :: "local_state kill_backend" where
  "local_backend =
     \<lparr>can_sever_network_before_terminate = True, kb_revoke_credential = local_revoke_credential,
      kb_sever_network = local_sever_network, kb_terminate = local_terminate\<rparr>"

lemma local_backend_sel [simp]:
  "can_sever_network_before_terminate local_backend"
  "kb_revoke_credential local_backend = local_revoke_credential"
  "kb_sever_network local_backend = local_sever_network"
  "kb_terminate local_backend = local_terminate"
  by (simp_all add: local_backend_def)

interpretation local: total_backend local_backend "\<lambda>_. True"
  by unfold_locales
     (auto simp: local_revoke_credential_def local_sever_network_def local_terminate_def split: option.splits)

lemma local_revoke_loop:
  "revoke_loop local_backend cs b = (Inr cs, b\<lparr>lb_revoked := lb_revoked b \<union> set cs\<rparr>)"
  by (induction cs arbitrary: b) (auto simp: py_simps local_revoke_credential_def)

lemma local_kill_outcome:
  "execute_kill local_backend run creds b =
     (Inr \<lparr>kr_run_id = run, kr_credentials_revoked = creds, kr_network_severed = True,
           kr_process_terminated = (lb_processes b run \<noteq> None)\<rparr>,
      b\<lparr>lb_revoked := lb_revoked b \<union> set creds,
        lb_network_severed := insert run (lb_network_severed b),
        lb_killed := set_option (lb_processes b run) \<union> lb_killed b\<rparr>)"
  by (auto simp: execute_kill_def py_simps local_revoke_loop local_sever_network_def local_terminate_def
      split: option.splits)

text \<open>
  A kill on the local backend does all of it: every credential is revoked and reported,
  the network is severed, a registered process is killed and its absence reported, and the
  other runs and tokens are left as they were.
\<close>
theorem local_kill_complete:
  "case execute_kill local_backend run creds b of (r, b') \<Rightarrow>
       r = Inr \<lparr>kr_run_id = run, kr_credentials_revoked = creds, kr_network_severed = True,
                kr_process_terminated = (run \<in> dom (lb_processes b))\<rparr>
     \<and> (\<forall>tok. is_revoked b' tok = (tok \<in> set creds \<or> is_revoked b tok))
     \<and> (\<forall>run'. is_network_severed b' run' = (run' = run \<or> is_network_severed b run'))
     \<and> lb_killed b' = (case lb_processes b run of None \<Rightarrow> {} | Some proc \<Rightarrow> {proc}) \<union> lb_killed b
     \<and> lb_processes b' = lb_processes b"
  by (auto simp: local_kill_outcome is_revoked_def is_network_severed_def split: option.splits)

end
