(* ===== verification/Backends.thy ===== *)
theory Backends
  imports Kill Json
begin

text \<open>
  \<^verbatim>\<open>halt/backends/\<close>: the gVisor and Firecracker backends. The host commands run through
  the injected \<^verbatim>\<open>run_command\<close>, a call on the outside world \<open>'h\<close> that may raise; the
  revocation callback is another such call, or absent.
\<close>

record completed =
  cp_returncode :: int
  cp_stdout :: "string option"

type_synonym 'h runner = "string list \<Rightarrow> ('h, completed) py"

definition total_runner :: "'h runner \<Rightarrow> bool" where
  "total_runner run \<longleftrightarrow> (\<forall>cmd h. returns (run cmd h))"

lemma total_runnerD: "total_runner run \<Longrightarrow> \<exists>c h'. run cmd h = (Inr c, h')"
  unfolding total_runner_def by (metis returnsE)

definition total_revoker :: "(string \<Rightarrow> ('h, bool) py) option \<Rightarrow> bool" where
  "total_revoker rv \<longleftrightarrow> (case rv of None \<Rightarrow> False | Some f \<Rightarrow> \<forall>tok h. returns (f tok h))"

text \<open>What both \<^verbatim>\<open>revoke_credential\<close> methods do without a callback.\<close>

definition no_revoker :: "string \<Rightarrow> py_exn" where
  "no_revoker cls = Exn NotImplementedErrorC (cls @ '' has no application-credential concept of its own; ''
     @ ''pass revoke_credential_fn to wire this up to your IAM/token service'')"

section \<open>gVisor\<close>

record gvisor_container =
  gc_run_id :: string
  gc_container_id :: string
  gc_veth_device :: string

record 'h gvisor =
  gv_containers :: "string \<rightharpoonup> gvisor_container"
  gv_revoke_fn :: "(string \<Rightarrow> ('h, bool) py) option"
  gv_run :: "'h runner"
  gv_host :: 'h

definition gvisor_init :: "(string \<Rightarrow> ('h, bool) py) option \<Rightarrow> 'h runner \<Rightarrow> 'h \<Rightarrow> 'h gvisor" where
  "gvisor_init rv run h = \<lparr>gv_containers = Map.empty, gv_revoke_fn = rv, gv_run = run, gv_host = h\<rparr>"

definition register_container :: "gvisor_container \<Rightarrow> 'h gvisor \<Rightarrow> 'h gvisor" where
  "register_container c g = g\<lparr>gv_containers := (gv_containers g)(gc_run_id c \<mapsto> c)\<rparr>"

definition gvisor_revoke_credential :: "string \<Rightarrow> ('h gvisor, bool) py" where
  "gvisor_revoke_credential tok g =
     (case gv_revoke_fn g of
        None \<Rightarrow> (Inl (no_revoker ''GvisorBackend''), g)
      | Some f \<Rightarrow> py_on gv_host (\<lambda>h g. g\<lparr>gv_host := h\<rparr>) (f tok) g)"

definition gvisor_sever_network :: "string \<Rightarrow> ('h gvisor, bool) py" where
  "gvisor_sever_network run g =
     (case gv_containers g run of
        None \<Rightarrow> (Inr False, g)
      | Some c \<Rightarrow>
          py_on gv_host (\<lambda>h g. g\<lparr>gv_host := h\<rparr>)
            (py_bind (gv_run g [''ip'', ''link'', ''delete'', gc_veth_device c])
               (\<lambda>r. py_return (cp_returncode r = 0))) g)"

definition gvisor_terminate :: "string \<Rightarrow> ('h gvisor, bool) py" where
  "gvisor_terminate run g =
     (case gv_containers g run of
        None \<Rightarrow> (Inr False, g)
      | Some c \<Rightarrow>
          py_on gv_host (\<lambda>h g. g\<lparr>gv_host := h\<rparr>)
            (py_bind (gv_run g [''runsc'', ''kill'', gc_container_id c, ''SIGKILL''])
               (\<lambda>r. py_return (cp_returncode r = 0))) g)"

text \<open>\<^verbatim>\<open>can_sever_network_before_terminate\<close> is inherited from \<^verbatim>\<open>KillBackend\<close>: \<^verbatim>\<open>True\<close>.\<close>

definition gvisor_backend :: "'h gvisor kill_backend" where
  "gvisor_backend =
     \<lparr>can_sever_network_before_terminate = True, kb_revoke_credential = gvisor_revoke_credential,
      kb_sever_network = gvisor_sever_network, kb_terminate = gvisor_terminate\<rparr>"

lemma gvisor_backend_sel [simp]:
  "can_sever_network_before_terminate gvisor_backend"
  "kb_revoke_credential gvisor_backend = gvisor_revoke_credential"
  "kb_sever_network gvisor_backend = gvisor_sever_network"
  "kb_terminate gvisor_backend = gvisor_terminate"
  by (simp_all add: gvisor_backend_def)

definition gvisor_total :: "'h gvisor \<Rightarrow> bool" where
  "gvisor_total g \<longleftrightarrow> total_runner (gv_run g) \<and> total_revoker (gv_revoke_fn g)"

interpretation gvisor: total_backend gvisor_backend gvisor_total
proof unfold_locales
  fix b :: "'a gvisor" and tok
  assume "gvisor_total b"
  then obtain f where f: "gv_revoke_fn b = Some f" "returns (f tok (gv_host b))"
    by (auto simp: gvisor_total_def total_revoker_def split: option.splits)
  then obtain v h where "f tok (gv_host b) = (Inr v, h)" by (auto elim: returnsE)
  then show "\<exists>v b'. kb_revoke_credential gvisor_backend tok b = (Inr v, b') \<and> gvisor_total b'"
    using f \<open>gvisor_total b\<close> by (simp add: gvisor_revoke_credential_def py_simps gvisor_total_def)
next
  fix b :: "'a gvisor" and run
  assume t: "gvisor_total b"
  show "\<exists>v b'. kb_sever_network gvisor_backend run b = (Inr v, b') \<and> gvisor_total b'"
  proof (cases "gv_containers b run")
    case (Some c)
    obtain r h where "gv_run b [''ip'', ''link'', ''delete'', gc_veth_device c] (gv_host b) = (Inr r, h)"
      using t total_runnerD [of "gv_run b"] unfolding gvisor_total_def by blast
    then show ?thesis using t Some by (simp add: gvisor_sever_network_def py_simps gvisor_total_def)
  qed (use t in \<open>auto simp: gvisor_sever_network_def\<close>)
  show "\<exists>v b'. kb_terminate gvisor_backend run b = (Inr v, b') \<and> gvisor_total b'"
  proof (cases "gv_containers b run")
    case (Some c)
    obtain r h where "gv_run b [''runsc'', ''kill'', gc_container_id c, ''SIGKILL''] (gv_host b) = (Inr r, h)"
      using t total_runnerD [of "gv_run b"] unfolding gvisor_total_def by blast
    then show ?thesis using t Some by (simp add: gvisor_terminate_def py_simps gvisor_total_def)
  qed (use t in \<open>auto simp: gvisor_terminate_def\<close>)
qed

section \<open>Firecracker\<close>

record firecracker_vm =
  fv_run_id :: string
  fv_api_socket_path :: string
  fv_firecracker_pid :: int
  fv_tap_device :: string

text \<open>\<open>fc_oskill\<close> is \<^verbatim>\<open>os.kill(pid, sig)\<close> on the host.\<close>

record 'h firecracker =
  fc_vms :: "string \<rightharpoonup> firecracker_vm"
  fc_revoke_fn :: "(string \<Rightarrow> ('h, bool) py) option"
  fc_run :: "'h runner"
  fc_oskill :: "int \<Rightarrow> int \<Rightarrow> ('h, unit) py"
  fc_host :: 'h

definition SIGKILL :: int where "SIGKILL = 9"

definition firecracker_init ::
  "(string \<Rightarrow> ('h, bool) py) option \<Rightarrow> 'h runner \<Rightarrow> (int \<Rightarrow> int \<Rightarrow> ('h, unit) py) \<Rightarrow> 'h \<Rightarrow> 'h firecracker" where
  "firecracker_init rv run kill h =
     \<lparr>fc_vms = Map.empty, fc_revoke_fn = rv, fc_run = run, fc_oskill = kill, fc_host = h\<rparr>"

definition register_vm :: "firecracker_vm \<Rightarrow> 'h firecracker \<Rightarrow> 'h firecracker" where
  "register_vm v f = f\<lparr>fc_vms := (fc_vms f)(fv_run_id v \<mapsto> v)\<rparr>"

definition firecracker_revoke_credential :: "string \<Rightarrow> ('h firecracker, bool) py" where
  "firecracker_revoke_credential tok f =
     (case fc_revoke_fn f of
        None \<Rightarrow> (Inl (no_revoker ''FirecrackerBackend''), f)
      | Some g \<Rightarrow> py_on fc_host (\<lambda>h f. f\<lparr>fc_host := h\<rparr>) (g tok) f)"

definition firecracker_sever_network :: "string \<Rightarrow> ('h firecracker, bool) py" where
  "firecracker_sever_network run f =
     (case fc_vms f run of
        None \<Rightarrow> (Inr False, f)
      | Some v \<Rightarrow>
          py_on fc_host (\<lambda>h f. f\<lparr>fc_host := h\<rparr>)
            (py_bind (fc_run f [''ip'', ''link'', ''set'', fv_tap_device v, ''down'']) (\<lambda>_.
             py_bind (fc_run f [''ip'', ''tuntap'', ''del'', ''dev'', fv_tap_device v, ''mode'', ''tap''])
               (\<lambda>r. py_return (cp_returncode r = 0)))) f)"

definition is_ProcessLookupError :: "py_exn \<Rightarrow> bool" where
  "is_ProcessLookupError e \<longleftrightarrow> exn_class e = ProcessLookupErrorC"

definition firecracker_terminate :: "string \<Rightarrow> ('h firecracker, bool) py" where
  "firecracker_terminate run f =
     (case fc_vms f run of
        None \<Rightarrow> (Inr False, f)
      | Some v \<Rightarrow>
          py_on fc_host (\<lambda>h f. f\<lparr>fc_host := h\<rparr>)
            (py_except is_ProcessLookupError
               (py_bind (fc_oskill f (fv_firecracker_pid v) SIGKILL) (\<lambda>_. py_return True))
               (\<lambda>_. py_return False)) f)"

text \<open>
  \<^verbatim>\<open>_call_api\<close>, the graceful alternative no other code calls. \<^verbatim>\<open>_UnixSocketHTTPConnection\<close>
  is \<^verbatim>\<open>http.client.HTTPConnection\<close> with its \<^verbatim>\<open>connect\<close> replaced: \<^verbatim>\<open>request\<close> connects when there
  is no socket yet, and puts the request on it. The operating system's part is a parameter:
  descriptors, and what happens on them.
\<close>

record api_request =
  aq_method :: string
  aq_path :: string
  aq_body :: string
  aq_headers :: "(string \<times> string) list"

record 'h unix_sockets =
  us_socket :: "('h, nat) py"
  us_connect :: "nat \<Rightarrow> string \<Rightarrow> ('h, unit) py"
  us_send :: "nat \<Rightarrow> api_request \<Rightarrow> ('h, unit) py"
  us_answer :: "nat \<Rightarrow> ('h, bytes) py"
  us_close :: "nat \<Rightarrow> ('h, unit) py"

record unix_connection =
  uc_host :: string
  uc_socket_path :: string
  uc_sock :: "nat option"

definition unix_connection_init :: "string \<Rightarrow> unix_connection" where
  "unix_connection_init path = \<lparr>uc_host = ''localhost'', uc_socket_path = path, uc_sock = None\<rparr>"

definition on_os :: "('h, 'a) py \<Rightarrow> (unix_connection \<times> 'h, 'a) py" where
  "on_os m = py_on snd (\<lambda>h (c, _). (c, h)) m"

definition unix_connect :: "'h unix_sockets \<Rightarrow> (unix_connection \<times> 'h, unit) py" where
  "unix_connect os =
     py_bind (on_os (us_socket os)) (\<lambda>fd.
     py_seq (py_modify (\<lambda>(c, h). (c\<lparr>uc_sock := Some fd\<rparr>, h)))
     (py_bind (py_get (uc_socket_path \<circ> fst)) (\<lambda>path. on_os (us_connect os fd path))))"

text \<open>A method of \<^verbatim>\<open>HTTPConnection\<close> on its socket; \<open>idle\<close> is what it does without one.\<close>

definition on_sock :: "(unix_connection \<times> 'h, 'a) py \<Rightarrow> (nat \<Rightarrow> ('h, 'a) py) \<Rightarrow> (unix_connection \<times> 'h, 'a) py" where
  "on_sock idle m =
     py_bind (py_get (uc_sock \<circ> fst)) (\<lambda>sk. case sk of None \<Rightarrow> idle | Some fd \<Rightarrow> on_os (m fd))"

definition not_ready :: py_exn where
  "not_ready = Exn (OtherErrorC ''ResponseNotReady'') ''Idle''"

definition connection_request :: "'h unix_sockets \<Rightarrow> api_request \<Rightarrow> (unix_connection \<times> 'h, unit) py" where
  "connection_request os rq =
     py_seq (on_sock (unix_connect os) (\<lambda>_. py_return ()))
       (on_sock (py_raise not_ready) (\<lambda>fd. us_send os fd rq))"

definition call_api ::
  "'h unix_sockets \<Rightarrow> (rat \<Rightarrow> string) \<Rightarrow> firecracker_vm \<Rightarrow> string \<Rightarrow> string \<Rightarrow> dict \<Rightarrow> ('h firecracker, unit) py" where
  "call_api os fr v verb path body =
     py_on (\<lambda>f. (unix_connection_init (fv_api_socket_path v), fc_host f)) (\<lambda>(_, h) f. f\<lparr>fc_host := h\<rparr>)
       (py_seq (connection_request os \<lparr>aq_method = verb, aq_path = path, aq_body = dumps fr (JObj body),
                  aq_headers = [(''Content-Type'', ''application/json'')]\<rparr>)
       (py_seq (on_sock (py_raise not_ready) (us_answer os))
          (on_sock (py_return ()) (us_close os))))"

text \<open>
  One request goes out, on a socket connected to the VM's own path, and its body parses back
  to the dict that was passed; when the connection fails, nothing is sent and the exception
  comes out.
\<close>

lemma call_api_request:
  assumes "json_ok fr fp (JObj body)"
    and "us_socket os (fc_host f) = (Inr fd, h1)" "us_connect os fd (fv_api_socket_path v) h1 = (c, h2)"
  shows "\<exists>rq. loads fp (aq_body rq) = Some (JObj body) \<and> aq_method rq = verb \<and> aq_path rq = path
    \<and> call_api os fr v verb path body f =
       (case c of Inl e \<Rightarrow> (Inl e, f\<lparr>fc_host := h2\<rparr>)
        | Inr _ \<Rightarrow> (case py_seq (us_send os fd rq) (py_seq (us_answer os fd) (us_close os fd)) h2 of
                     (r, h) \<Rightarrow> (r, f\<lparr>fc_host := h\<rparr>)))"
  using loads_dumps [OF assms(1)] assms(2,3)
  by (intro exI [of _ "\<lparr>aq_method = verb, aq_path = path, aq_body = dumps fr (JObj body),
        aq_headers = [(''Content-Type'', ''application/json'')]\<rparr>"])
    (auto simp: call_api_def unix_connection_init_def connection_request_def unix_connect_def on_os_def on_sock_def py_simps
      split: prod.splits sum.splits)

definition firecracker_backend :: "'h firecracker kill_backend" where
  "firecracker_backend =
     \<lparr>can_sever_network_before_terminate = False, kb_revoke_credential = firecracker_revoke_credential,
      kb_sever_network = firecracker_sever_network, kb_terminate = firecracker_terminate\<rparr>"

lemma firecracker_backend_sel [simp]:
  "\<not> can_sever_network_before_terminate firecracker_backend"
  "kb_revoke_credential firecracker_backend = firecracker_revoke_credential"
  "kb_sever_network firecracker_backend = firecracker_sever_network"
  "kb_terminate firecracker_backend = firecracker_terminate"
  by (simp_all add: firecracker_backend_def)

definition oskill_total :: "(int \<Rightarrow> int \<Rightarrow> ('h, unit) py) \<Rightarrow> bool" where
  "oskill_total k \<longleftrightarrow> (\<forall>pid sig h. case fst (k pid sig h) of Inl e \<Rightarrow> is_ProcessLookupError e | Inr _ \<Rightarrow> True)"

definition firecracker_total :: "'h firecracker \<Rightarrow> bool" where
  "firecracker_total f \<longleftrightarrow> total_runner (fc_run f) \<and> total_revoker (fc_revoke_fn f) \<and> oskill_total (fc_oskill f)"

lemma oskill_totalE:
  assumes "oskill_total k"
  obtains (gone) e h' where "k pid sig h = (Inl e, h')" "is_ProcessLookupError e"
  | (killed) h' where "k pid sig h = (Inr (), h')"
proof (cases "k pid sig h")
  case (Pair r h')
  then have "case r of Inl e \<Rightarrow> is_ProcessLookupError e | Inr _ \<Rightarrow> True"
    using assms unfolding oskill_total_def by (metis fst_conv)
  then show ?thesis using Pair that by (cases r) auto
qed

interpretation firecracker: total_backend firecracker_backend firecracker_total
proof unfold_locales
  fix b :: "'a firecracker" and tok
  assume "firecracker_total b"
  then obtain f where f: "fc_revoke_fn b = Some f" "returns (f tok (fc_host b))"
    by (auto simp: firecracker_total_def total_revoker_def split: option.splits)
  then obtain v h where "f tok (fc_host b) = (Inr v, h)" by (auto elim: returnsE)
  then show "\<exists>v b'. kb_revoke_credential firecracker_backend tok b = (Inr v, b') \<and> firecracker_total b'"
    using f \<open>firecracker_total b\<close> by (simp add: firecracker_revoke_credential_def py_simps firecracker_total_def)
next
  fix b :: "'a firecracker" and run
  assume t: "firecracker_total b"
  show "\<exists>v b'. kb_sever_network firecracker_backend run b = (Inr v, b') \<and> firecracker_total b'"
  proof (cases "fc_vms b run")
    case (Some v)
    obtain r1 h1 where 1: "fc_run b [''ip'', ''link'', ''set'', fv_tap_device v, ''down''] (fc_host b) = (Inr r1, h1)"
      using t total_runnerD [of "fc_run b"] unfolding firecracker_total_def by blast
    obtain r2 h2 where "fc_run b [''ip'', ''tuntap'', ''del'', ''dev'', fv_tap_device v, ''mode'', ''tap''] h1 = (Inr r2, h2)"
      using t total_runnerD [of "fc_run b"] unfolding firecracker_total_def by blast
    then show ?thesis using t Some 1
      by (simp add: firecracker_sever_network_def py_simps firecracker_total_def)
  qed (use t in \<open>auto simp: firecracker_sever_network_def\<close>)
  show "\<exists>v b'. kb_terminate firecracker_backend run b = (Inr v, b') \<and> firecracker_total b'"
  proof (cases "fc_vms b run")
    case (Some v)
    have "oskill_total (fc_oskill b)" using t by (simp add: firecracker_total_def)
    then show ?thesis
      by (rule oskill_totalE [where pid = "fv_firecracker_pid v" and sig = SIGKILL and h = "fc_host b"])
         (use t Some in \<open>auto simp: firecracker_terminate_def py_simps firecracker_total_def\<close>)
  qed (use t in \<open>auto simp: firecracker_terminate_def\<close>)
qed

section \<open>The order a backend needs\<close>

text \<open>
  A host whose tap device is held open by the VM process: deleting it fails while the
  process lives and succeeds once \<^verbatim>\<open>SIGKILL\<close> has ended it. This is what the source records
  of a live microVM (\<^verbatim>\<open>firecracker.py\<close>, \<^verbatim>\<open>kill.py\<close>).
\<close>

definition busy_tap_host ::
  "('h \<Rightarrow> bool) \<Rightarrow> firecracker_vm \<Rightarrow> 'h runner \<Rightarrow> (int \<Rightarrow> int \<Rightarrow> ('h, unit) py) \<Rightarrow> bool" where
  "busy_tap_host alive v run kill \<longleftrightarrow>
     (\<forall>h. \<exists>c h'. run [''ip'', ''link'', ''set'', fv_tap_device v, ''down''] h = (Inr c, h') \<and> alive h' = alive h)
   \<and> (\<forall>h. \<exists>c h'. run [''ip'', ''tuntap'', ''del'', ''dev'', fv_tap_device v, ''mode'', ''tap''] h = (Inr c, h')
          \<and> (cp_returncode c = 0 \<longleftrightarrow> \<not> alive h) \<and> alive h' = alive h)
   \<and> (\<forall>h. alive h \<longrightarrow> (\<exists>h'. kill (fv_firecracker_pid v) SIGKILL h = (Inr (), h') \<and> \<not> alive h'))"

lemma busy_tap_sever:
  assumes "busy_tap_host alive v (fc_run f) (fc_oskill f)" "fc_vms f run = Some v"
  shows "\<exists>h'. firecracker_sever_network run f = (Inr (\<not> alive (fc_host f)), f\<lparr>fc_host := h'\<rparr>)
    \<and> alive h' = alive (fc_host f)"
proof -
  obtain c1 h1 where 1: "fc_run f [''ip'', ''link'', ''set'', fv_tap_device v, ''down''] (fc_host f) = (Inr c1, h1)"
      "alive h1 = alive (fc_host f)"
    using assms(1) unfolding busy_tap_host_def by blast
  obtain c2 h2 where 2: "fc_run f [''ip'', ''tuntap'', ''del'', ''dev'', fv_tap_device v, ''mode'', ''tap''] h1 = (Inr c2, h2)"
      "cp_returncode c2 = 0 \<longleftrightarrow> \<not> alive h1" "alive h2 = alive h1"
    using assms(1) unfolding busy_tap_host_def by blast
  show ?thesis
    using 1 2 assms(2) by (auto simp: firecracker_sever_network_def py_simps)
qed

lemma busy_tap_terminate:
  assumes "busy_tap_host alive v (fc_run f) (fc_oskill f)" "fc_vms f run = Some v" "alive (fc_host f)"
  shows "\<exists>h'. firecracker_terminate run f = (Inr True, f\<lparr>fc_host := h'\<rparr>) \<and> \<not> alive h'"
proof -
  obtain h' where "fc_oskill f (fv_firecracker_pid v) SIGKILL (fc_host f) = (Inr (), h')" "\<not> alive h'"
    using assms(1,3) unfolding busy_tap_host_def by blast
  then show ?thesis using assms(2) by (auto simp: firecracker_terminate_def py_simps)
qed

text \<open>
  C31. On such a host the Firecracker order (terminate, then sever) does both; the other order
  kills the VM but leaves the network path unsevered. So
  \<^verbatim>\<open>can_sever_network_before_terminate = False\<close> is required, not stylistic.
\<close>
theorem firecracker_order_required:
  assumes "busy_tap_host alive v (fc_run f) (fc_oskill f)" "fc_vms f run = Some v" "alive (fc_host f)"
  shows "\<exists>f' g'.
      execute_kill firecracker_backend run [] f =
        (Inr \<lparr>kr_run_id = run, kr_credentials_revoked = [], kr_network_severed = True, kr_process_terminated = True\<rparr>, f')
    \<and> execute_kill (firecracker_backend\<lparr>can_sever_network_before_terminate := True\<rparr>) run [] f =
        (Inr \<lparr>kr_run_id = run, kr_credentials_revoked = [], kr_network_severed = False, kr_process_terminated = True\<rparr>, g')"
proof -
  obtain h1 where t: "firecracker_terminate run f = (Inr True, f\<lparr>fc_host := h1\<rparr>)" "\<not> alive h1"
    using busy_tap_terminate [OF assms] by blast
  obtain h2 where s: "firecracker_sever_network run (f\<lparr>fc_host := h1\<rparr>) = (Inr True, f\<lparr>fc_host := h2\<rparr>)"
    using busy_tap_sever [of alive v "f\<lparr>fc_host := h1\<rparr>" run] assms t(2) by auto
  obtain h3 where s': "firecracker_sever_network run f = (Inr False, f\<lparr>fc_host := h3\<rparr>)" "alive h3"
    using busy_tap_sever [OF assms(1,2)] assms(3) by auto
  obtain h4 where t': "firecracker_terminate run (f\<lparr>fc_host := h3\<rparr>) = (Inr True, f\<lparr>fc_host := h4\<rparr>)"
    using busy_tap_terminate [of alive v "f\<lparr>fc_host := h3\<rparr>" run] assms s'(2) by auto
  show ?thesis
    using t(1) s s'(1) t' by (simp add: execute_kill_def py_simps firecracker_backend_def)
qed

definition demo_vm :: firecracker_vm where
  "demo_vm = \<lparr>fv_run_id = ''run-1'', fv_api_socket_path = ''/tmp/fc.sock'', fv_firecracker_pid = 4242,
              fv_tap_device = ''tap0''\<rparr>"

text \<open>A host that is only whether the VM process is alive.\<close>

definition demo_run :: "bool runner" where
  "demo_run cmd alive =
     (Inr \<lparr>cp_returncode = (if tl cmd \<noteq> [] \<and> hd (tl cmd) = ''tuntap'' \<and> alive then 1 else 0), cp_stdout = None\<rparr>, alive)"

definition demo_firecracker :: "bool firecracker" where
  "demo_firecracker = register_vm demo_vm (firecracker_init None demo_run (\<lambda>_ _ _. (Inr (), False)) True)"

theorem firecracker_order_required_witness:
  "\<exists>f' g'.
      execute_kill firecracker_backend ''run-1'' [] demo_firecracker =
        (Inr \<lparr>kr_run_id = ''run-1'', kr_credentials_revoked = [], kr_network_severed = True,
              kr_process_terminated = True\<rparr>, f')
    \<and> execute_kill (firecracker_backend\<lparr>can_sever_network_before_terminate := True\<rparr>) ''run-1'' [] demo_firecracker =
        (Inr \<lparr>kr_run_id = ''run-1'', kr_credentials_revoked = [], kr_network_severed = False,
              kr_process_terminated = True\<rparr>, g')"
  by (rule firecracker_order_required [of "\<lambda>alive. alive" demo_vm])
     (auto simp: busy_tap_host_def demo_firecracker_def demo_run_def firecracker_init_def register_vm_def
        demo_vm_def)

text \<open>
  Without a revocation callback a gVisor or Firecracker kill of a run with credentials
  raises before anything else happens: no command is issued, so the network stays up and
  the sandbox keeps running.
\<close>
theorem kill_without_revoker_raises:
  "execute_kill gvisor_backend run (c # cs) (g\<lparr>gv_revoke_fn := None\<rparr>) =
     (Inl (no_revoker ''GvisorBackend''), g\<lparr>gv_revoke_fn := None\<rparr>)
   \<and> execute_kill firecracker_backend run (c # cs) (f\<lparr>fc_revoke_fn := None\<rparr>) =
     (Inl (no_revoker ''FirecrackerBackend''), f\<lparr>fc_revoke_fn := None\<rparr>)"
  by (simp add: execute_kill_def py_simps gvisor_revoke_credential_def firecracker_revoke_credential_def)

end
