(* ===== verification/Supervisor.thy ===== *)
theory Supervisor
  imports Kill Sinks Backends
begin

text \<open>
  \<^verbatim>\<open>halt/supervisor.py\<close>: the one caller of \<^verbatim>\<open>execute_kill\<close>. \<open>report\<close> is
  \<^verbatim>\<open>Supervisor.report\<close> run alone, over any sink (\<open>em\<close>, its \<^verbatim>\<open>emit\<close>) and any backend;
  the theory Concurrency runs many of them against the lock. The contracts it relies on,
  \<open>recording_sink\<close> and \<open>total_backend\<close>, are joined in the locale \<open>supervised\<close>.
\<close>

record ('k, 'b) supervisor =
  sup_backend :: 'b
  sup_sink :: 'k
  sup_run_id :: string
  sup_credential_ids :: "string list"
  sup_killed :: bool
  sup_cause :: "trip_event option"
  sup_kill_result :: "kill_result option"

definition supervisor_init :: "'b \<Rightarrow> 'k \<Rightarrow> string \<Rightarrow> string list option \<Rightarrow> ('k, 'b) supervisor" where
  "supervisor_init b k run creds =
     \<lparr>sup_backend = b, sup_sink = k, sup_run_id = run,
      sup_credential_ids = (case creds of None \<Rightarrow> [] | Some cs \<Rightarrow> cs),
      sup_killed = False, sup_cause = None, sup_kill_result = None\<rparr>"

definition sink_emit :: "(trip_event \<Rightarrow> ('k, unit) py) \<Rightarrow> trip_event \<Rightarrow> (('k, 'b) supervisor, unit) py" where
  "sink_emit em e = py_on sup_sink (\<lambda>k s. s\<lparr>sup_sink := k\<rparr>) (em e)"

text \<open>The last statement of \<^verbatim>\<open>report\<close>: \<^verbatim>\<open>self._kill_result = execute_kill(...)\<close>.\<close>

definition run_kill :: "'b kill_backend \<Rightarrow> (('k, 'b) supervisor, unit) py" where
  "run_kill B s =
     py_bind (py_on sup_backend (\<lambda>b s. s\<lparr>sup_backend := b\<rparr>)
                (execute_kill B (sup_run_id s) (sup_credential_ids s)))
       (\<lambda>r. py_modify (\<lambda>s. s\<lparr>sup_kill_result := Some r\<rparr>)) s"

definition report :: "(trip_event \<Rightarrow> ('k, unit) py) \<Rightarrow> 'b kill_backend \<Rightarrow> trip_event \<Rightarrow> (('k, 'b) supervisor, unit) py" where
  "report em B e =
     py_seq (sink_emit em e)
       (if te_severity e \<noteq> KILL then py_return ()
        else py_bind (py_get sup_killed) (\<lambda>killed.
          if killed then py_return ()
          else py_seq (py_modify (\<lambda>s. s\<lparr>sup_killed := True\<rparr>))
              (py_seq (py_modify (\<lambda>s. s\<lparr>sup_cause := Some e\<rparr>))
                 (run_kill B))))"

section \<open>One report\<close>

abbreviation is_kill :: "trip_event \<Rightarrow> bool" where
  "is_kill e \<equiv> te_severity e = KILL"

lemma sink_emit_run [py_simps]:
  "sink_emit em e s = (case em e (sup_sink s) of (r, k) \<Rightarrow> (r, s\<lparr>sup_sink := k\<rparr>))"
  by (simp add: sink_emit_def py_simps)

lemma run_kill_run [py_simps]:
  "run_kill B s =
     (case execute_kill B (sup_run_id s) (sup_credential_ids s) (sup_backend s) of
        (Inl x, b) \<Rightarrow> (Inl x, s\<lparr>sup_backend := b\<rparr>)
      | (Inr r, b) \<Rightarrow> (Inr (), s\<lparr>sup_backend := b, sup_kill_result := Some r\<rparr>))"
  by (simp add: run_kill_def py_simps split: prod.splits sum.splits)

lemma report_sink_raises:
  "em e (sup_sink s) = (Inl x, k) \<Longrightarrow> report em B e s = (Inl x, s\<lparr>sup_sink := k\<rparr>)"
  by (simp add: report_def py_simps)

lemma report_observation:
  "em e (sup_sink s) = (Inr (), k) \<Longrightarrow> \<not> is_kill e \<or> sup_killed s \<Longrightarrow>
     report em B e s = (Inr (), s\<lparr>sup_sink := k\<rparr>)"
  by (auto simp: report_def py_simps)

lemma report_first_kill:
  assumes "em e (sup_sink s) = (Inr (), k)" "is_kill e" "\<not> sup_killed s"
  shows "report em B e s =
    (case execute_kill B (sup_run_id s) (sup_credential_ids s) (sup_backend s) of
       (Inl x, b) \<Rightarrow> (Inl x, s\<lparr>sup_sink := k, sup_killed := True, sup_cause := Some e, sup_backend := b\<rparr>)
     | (Inr r, b) \<Rightarrow> (Inr (), s\<lparr>sup_sink := k, sup_killed := True, sup_cause := Some e, sup_backend := b,
                              sup_kill_result := Some r\<rparr>))"
  using assms by (simp add: report_def py_simps split: prod.splits sum.splits)

text \<open>After a kill the events are still emitted and nothing else changes.\<close>

lemma reports_after_kill:
  "sup_killed s \<Longrightarrow> py_for es em (sup_sink s) = (Inr (), k) \<Longrightarrow>
     py_for es (report em B) s = (Inr (), s\<lparr>sup_sink := k\<rparr>)"
proof (induction es arbitrary: s)
  case Nil
  then show ?case by (cases s) (simp add: py_simps)
next
  case (Cons e es)
  obtain r k1 where 1: "em e (sup_sink s) = (r, k1)" by fastforce
  with Cons.prems obtain u where "r = Inr u" by (cases r) (auto simp: py_simps)
  with 1 have "report em B e s = (Inr (), s\<lparr>sup_sink := k1\<rparr>)"
    using Cons.prems by (intro report_observation) auto
  then show ?case using Cons.prems Cons.IH [of "s\<lparr>sup_sink := k1\<rparr>"] 1 \<open>r = Inr u\<close> by (simp add: py_simps)
qed

section \<open>A run of reports against its specification\<close>

text \<open>
  What a supervisor promises of a run of events: all of them are emitted, in order; the
  first \<open>KILL\<close> is the cause, and exactly one kill is executed, at that event.
\<close>

definition spec_run :: "'b kill_backend \<Rightarrow> trip_event list \<Rightarrow> ('k, 'b) supervisor \<Rightarrow> ('k, 'b) supervisor" where
  "spec_run B es s =
     (case find is_kill es of
        None \<Rightarrow> s
      | Some e \<Rightarrow>
          (case execute_kill B (sup_run_id s) (sup_credential_ids s) (sup_backend s) of
             (Inl x, b) \<Rightarrow> s\<lparr>sup_killed := True, sup_cause := Some e, sup_backend := b\<rparr>
           | (Inr r, b) \<Rightarrow> s\<lparr>sup_killed := True, sup_cause := Some e, sup_backend := b,
                             sup_kill_result := Some r\<rparr>))"

locale reporting = total_sink em good fine + total_backend B ok
  for em :: "trip_event \<Rightarrow> ('k, unit) py" and good :: "'k \<Rightarrow> bool" and fine :: "trip_event \<Rightarrow> bool"
    and B :: "'b kill_backend" and ok :: "'b \<Rightarrow> bool"
begin

lemma report_total:
  assumes "good (sup_sink s)" "fine e" "ok (sup_backend s)"
  shows "\<exists>s'. report em B e s = (Inr (), s') \<and> good (sup_sink s') \<and> ok (sup_backend s')
    \<and> (sup_killed s' \<longleftrightarrow> sup_killed s \<or> is_kill e)
    \<and> sup_cause s' = (if \<not> sup_killed s \<and> is_kill e then Some e else sup_cause s)"
proof -
  obtain k where k: "em e (sup_sink s) = (Inr (), k)" "good k"
    using emit_total [OF assms(1,2)] by blast
  obtain r b where x: "execute_kill B (sup_run_id s) (sup_credential_ids s) (sup_backend s) = (Inr r, b)" "ok b"
    using execute_kill_total [OF assms(3)] by blast
  show ?thesis
    by (cases "is_kill e"; cases "sup_killed s") (use k x assms(3) in \<open>simp_all add: report_def py_simps\<close>)
qed

end

locale supervised = recording_sink em good fine record_of + total_backend B ok
  for em :: "trip_event \<Rightarrow> ('k, unit) py" and good :: "'k \<Rightarrow> bool" and fine :: "trip_event \<Rightarrow> bool"
    and record_of :: "'k \<Rightarrow> trip_event list" and B :: "'b kill_backend" and ok :: "'b \<Rightarrow> bool"
begin

lemma reports_spec:
  assumes "good (sup_sink s)" "list_all fine es" "ok (sup_backend s)" "\<not> sup_killed s"
  shows "\<exists>k. py_for es (report em B) s = (Inr (), (spec_run B es s)\<lparr>sup_sink := k\<rparr>)
    \<and> good k \<and> record_of k = record_of (sup_sink s) @ es"
  using assms
proof (induction es arbitrary: s)
  case Nil
  then show ?case by (intro exI [of _ "sup_sink s"]) (simp add: py_simps spec_run_def)
next
  case (Cons e es)
  have fe: "fine e" and fs: "list_all fine es" using Cons.prems(2) by simp_all
  obtain k1 where k1: "em e (sup_sink s) = (Inr (), k1)" "good k1"
    using emit_total [OF Cons.prems(1) fe] by blast
  have r1: "record_of k1 = record_of (sup_sink s) @ [e]"
    using emit_records [OF Cons.prems(1) fe k1(1)] .
  show ?case
  proof (cases "is_kill e")
    case False
    obtain k where "py_for es (report em B) (s\<lparr>sup_sink := k1\<rparr>) =
        (Inr (), (spec_run B es (s\<lparr>sup_sink := k1\<rparr>))\<lparr>sup_sink := k\<rparr>)"
      "good k" "record_of k = record_of k1 @ es"
      using Cons.IH [of "s\<lparr>sup_sink := k1\<rparr>"] Cons.prems k1(2) fs by auto
    moreover have "(spec_run B es (s\<lparr>sup_sink := k1\<rparr>))\<lparr>sup_sink := k\<rparr> = (spec_run B (e # es) s)\<lparr>sup_sink := k\<rparr>"
      using False by (simp add: spec_run_def split: option.splits prod.splits sum.splits)
    ultimately show ?thesis
      using report_observation [of em e s k1 B] k1(1) False r1 by (auto simp: py_simps intro: exI [of _ k])
  next
    case True
    obtain r b where x: "execute_kill B (sup_run_id s) (sup_credential_ids s) (sup_backend s) = (Inr r, b)"
      using execute_kill_total [OF Cons.prems(3)] by blast
    obtain k where k: "py_for es em k1 = (Inr (), k)" "good k"
      using emit_all_total [OF k1(2) fs] by blast
    have "record_of k = record_of k1 @ es" using emit_all_records [OF k1(2) fs k(1)] .
    then show ?thesis
      using report_first_kill [of em e s k1 B, OF k1(1) True Cons.prems(4)] reports_after_kill [of _ es em k B] k x True r1
      by (auto simp: py_simps spec_run_def intro: exI [of _ k])
  qed
qed

end

sublocale supervised \<subseteq> reporting em good fine B ok
  by unfold_locales

text \<open>A backend that logs its calls is as total as the backend.\<close>

lemma logging_total:
  assumes "total_backend B ok"
  shows "total_backend (logging B) (\<lambda>(b, log). ok b)"
proof unfold_locales
  fix p :: "'a \<times> kill_call list" and tok run
  assume "case p of (b, cs) \<Rightarrow> ok b"
  then obtain b cs where p: "p = (b, cs)" and b: "ok b" by (cases p) auto
  show "\<exists>v b'. kb_revoke_credential (logging B) tok p = (Inr v, b') \<and> (case b' of (b, cs) \<Rightarrow> ok b)"
    using total_backend.revoke_total [OF assms b, of tok] by (auto simp: p logged_def)
  show "\<exists>v b'. kb_sever_network (logging B) run p = (Inr v, b') \<and> (case b' of (b, cs) \<Rightarrow> ok b)"
    using total_backend.sever_total [OF assms b, of run] by (auto simp: p logged_def)
  show "\<exists>v b'. kb_terminate (logging B) run p = (Inr v, b') \<and> (case b' of (b, cs) \<Rightarrow> ok b)"
    using total_backend.terminate_total [OF assms b, of run] by (auto simp: p logged_def)
qed

lemma logged_kill_calls:
  assumes "execute_kill B run creds b = (Inr r, b')"
  shows "execute_kill (logging B) run creds (b, []) = (Inr r, (b', kill_plan B run creds))"
  using execute_kill_log [of B run creds b] assms by auto

text \<open>
  What a finished run of reports has to show: the first \<open>KILL\<close> of the run is the cause, the
  backend was called for exactly one kill (or for none), and its result names the run and
  lists credentials of the run only.
\<close>

definition kill_outcome ::
  "'b kill_backend \<Rightarrow> string \<Rightarrow> string list \<Rightarrow> trip_event list \<Rightarrow> ('k, 'b \<times> kill_call list) supervisor \<Rightarrow> bool" where
  "kill_outcome B run creds es s \<longleftrightarrow>
     sup_cause s = find is_kill es
   \<and> sup_killed s = (\<exists>e \<in> set es. is_kill e)
   \<and> snd (sup_backend s) = (if sup_killed s then kill_plan B run creds else [])
   \<and> (case sup_kill_result s of None \<Rightarrow> \<not> sup_killed s
      | Some r \<Rightarrow> sup_killed s \<and> kr_run_id r = run \<and> subseq (kr_credentials_revoked r) creds)"

lemma kill_outcome_sink [simp]: "kill_outcome B run creds es (s\<lparr>sup_sink := k\<rparr>) = kill_outcome B run creds es s"
  by (simp add: kill_outcome_def cong: option.case_cong)

lemma spec_run_logged:
  assumes "total_backend B ok" "ok b"
  shows "kill_outcome B run creds es (spec_run (logging B) es (supervisor_init (b, []) k run (Some creds)))"
proof -
  obtain r b' where r: "execute_kill B run creds b = (Inr r, b')"
      "kr_run_id r = run" "subseq (kr_credentials_revoked r) creds"
    using total_backend.execute_kill_total [OF assms] by blast
  show ?thesis
  proof (cases "find is_kill es")
    case None
    then have "\<not> (\<exists>e \<in> set es. is_kill e)" by (auto simp: find_None_iff)
    then show ?thesis using None by (simp add: spec_run_def supervisor_init_def kill_outcome_def)
  next
    case (Some e)
    then have "\<exists>e \<in> set es. is_kill e" by (auto simp: find_Some_iff)
    then show ?thesis using Some r logged_kill_calls [OF r(1)]
      by (simp add: spec_run_def supervisor_init_def kill_outcome_def)
  qed
qed

section \<open>The supervisor over the program's own sinks and backends\<close>

text \<open>Every backend that keeps its contract, under the durable record.\<close>

lemma durable_supervised:
  "total_backend B ok \<Longrightarrow>
     supervised (emit fr) (durable fp) (event_ok fr fp) (durable_record fp) (logging B) (\<lambda>(b, cs). ok b)"
  by (intro supervised.intro disk.recording_sink_axioms logging_total)

interpretation gvisor_run: supervised "emit fr" "durable fp" "event_ok fr fp" "durable_record fp"
  "logging gvisor_backend" "\<lambda>(b, cs). gvisor_total b" for fr fp
  by (rule durable_supervised [OF gvisor.total_backend_axioms])

interpretation firecracker_run: supervised "emit fr" "durable fp" "event_ok fr fp" "durable_record fp"
  "logging firecracker_backend" "\<lambda>(b, cs). firecracker_total b" for fr fp
  by (rule durable_supervised [OF firecracker.total_backend_axioms])

interpretation tee_gvisor: reporting "emit fr" tame_tee "\<lambda>_. True" gvisor_backend gvisor_total for fr
  using tee.total_sink_axioms gvisor.total_backend_axioms by (intro reporting.intro tee.total_sink_axioms)

interpretation tee_firecracker: reporting "emit fr" tame_tee "\<lambda>_. True" firecracker_backend firecracker_total for fr
  using tee.total_sink_axioms firecracker.total_backend_axioms by (intro reporting.intro tee.total_sink_axioms)

interpretation local_run: supervised "emit fr" "durable fp" "event_ok fr fp" "durable_record fp"
  "logging local_backend" "\<lambda>(b, cs). True" for fr fp
  using durable_supervised [OF local.total_backend_axioms] .

lemma supervised_run:
  assumes "supervised em good fine record_of (logging B) (\<lambda>(b, cs). ok b)" "total_backend B ok"
    and "good k" "list_all fine es" "ok b"
  shows "\<exists>s'. py_for es (report em (logging B)) (supervisor_init (b, []) k run (Some creds)) = (Inr (), s')
    \<and> record_of (sup_sink s') = record_of k @ es \<and> kill_outcome B run creds es s'"
proof -
  let ?s = "supervisor_init (b, [] :: kill_call list) k run (Some creds)"
  have i: "sup_sink ?s = k" "sup_backend ?s = (b, [])" "\<not> sup_killed ?s" "sup_credential_ids ?s = creds"
    by (simp_all add: supervisor_init_def)
  have pre: "good (sup_sink ?s)" "case sup_backend ?s of (b, cs) \<Rightarrow> ok b" using assms(3,5) i(1,2) by simp_all
  obtain k' where k': "py_for es (report em (logging B)) ?s = (Inr (), (spec_run (logging B) es ?s)\<lparr>sup_sink := k'\<rparr>)"
      "record_of k' = record_of (sup_sink ?s) @ es"
    using supervised.reports_spec [OF assms(1) pre(1) assms(4) pre(2) i(3)] by blast
  then show ?thesis
    using spec_run_logged [OF assms(2,5), of run creds es k] i(1) by simp
qed

text \<open>
  gVisor, with a durable record: whatever events are reported, every one is in the record,
  in order, the first \<open>KILL\<close> and no other is the cause, and the kill runs exactly once.
\<close>
theorem gvisor_reports:
  assumes "durable fp k" "list_all (event_ok fr fp) es" "gvisor_total g"
  shows "\<exists>s'. py_for es (report (emit fr) (logging gvisor_backend)) (supervisor_init (g, []) k run (Some creds)) = (Inr (), s')
    \<and> durable_record fp (sup_sink s') = durable_record fp k @ es \<and> kill_outcome gvisor_backend run creds es s'"
  by (rule supervised_run [OF gvisor_run.supervised_axioms gvisor.total_backend_axioms assms])

definition demo_gvisor :: "unit gvisor" where
  "demo_gvisor =
     register_container \<lparr>gc_run_id = ''run-1'', gc_container_id = ''c1'', gc_veth_device = ''veth0''\<rparr>
       (gvisor_init (Some (\<lambda>_ h. (Inr True, h))) (\<lambda>_ h. (Inr \<lparr>cp_returncode = 0, cp_stdout = None\<rparr>, h)) ())"

definition demo_tee :: "unit sink" where
  "demo_tee = tee_init [Jsonl \<lparr>js_file = None, js_disk = []\<rparr>]"

lemma demo_tee_durable: "durable demo_fp demo_tee" "durable_record demo_fp demo_tee = []"
  by (simp_all add: demo_tee_def tee_init_def readable_def file_record_def read_all_def)

lemma demo_gvisor_total: "gvisor_total demo_gvisor"
  by (simp add: demo_gvisor_def register_container_def gvisor_init_def gvisor_total_def total_runner_def
      total_revoker_def)

theorem gvisor_reports_witness:
  "\<exists>s'. py_for [demo_event, demo_event] (report (emit demo_fr) (logging gvisor_backend))
        (supervisor_init (demo_gvisor, []) demo_tee ''run-1'' (Some [''tok-1''])) = (Inr (), s')
    \<and> durable_record demo_fp (sup_sink s') = [demo_event, demo_event]
    \<and> sup_cause s' = Some demo_event
    \<and> snd (sup_backend s') = [Revoke ''tok-1'', Sever ''run-1'', Terminate ''run-1'']"
proof -
  have "list_all (event_ok demo_fr demo_fp) [demo_event, demo_event]" by (simp add: demo_event_ok)
  from gvisor_reports [OF demo_tee_durable(1) this demo_gvisor_total, of "''run-1''" "[''tok-1'']"]
  show ?thesis
    by (auto simp: demo_tee_durable(2) kill_outcome_def kill_plan_def demo_event_def make_event_def)
qed

text \<open>The same on Firecracker, whose plan terminates before it severs.\<close>
theorem firecracker_reports:
  assumes "durable fp k" "list_all (event_ok fr fp) es" "firecracker_total f"
  shows "\<exists>s'. py_for es (report (emit fr) (logging firecracker_backend)) (supervisor_init (f, []) k run (Some creds)) = (Inr (), s')
    \<and> durable_record fp (sup_sink s') = durable_record fp k @ es \<and> kill_outcome firecracker_backend run creds es s'"
  by (rule supervised_run [OF firecracker_run.supervised_axioms firecracker.total_backend_axioms assms])

definition demo_sup_firecracker :: "bool firecracker" where
  "demo_sup_firecracker = demo_firecracker\<lparr>fc_revoke_fn := Some (\<lambda>_ h. (Inr True, h))\<rparr>"

lemma demo_sup_firecracker_total: "firecracker_total demo_sup_firecracker"
  by (simp add: demo_sup_firecracker_def demo_firecracker_def register_vm_def firecracker_init_def
      firecracker_total_def total_runner_def total_revoker_def oskill_total_def demo_run_def)

theorem firecracker_reports_witness:
  "\<exists>s'. py_for [demo_event] (report (emit demo_fr) (logging firecracker_backend))
        (supervisor_init (demo_sup_firecracker, []) demo_tee ''run-1'' (Some [''tok-1''])) = (Inr (), s')
    \<and> snd (sup_backend s') = [Revoke ''tok-1'', Terminate ''run-1'', Sever ''run-1'']"
proof -
  have "list_all (event_ok demo_fr demo_fp) [demo_event]" by (simp add: demo_event_ok)
  from firecracker_reports [OF demo_tee_durable(1) this demo_sup_firecracker_total, of "''run-1''" "[''tok-1'']"]
  show ?thesis by (auto simp: kill_outcome_def kill_plan_def demo_event_def make_event_def)
qed

section \<open>Where the contracts end\<close>

text \<open>
  A \<^verbatim>\<open>LocalJsonlSink\<close> used directly: as long as the file cannot be opened, \<^verbatim>\<open>report\<close> raises
  before the severity is looked at, so however many \<open>KILL\<close> events are reported, nothing is
  killed, recorded or remembered.
\<close>
theorem unwritable_file_blocks_kill:
  "foldl (\<lambda>s e. state_after (report (emit fr) B e s)) (s\<lparr>sup_sink := Jsonl (j\<lparr>js_disk := map (\<lambda>p. OpenFails (snd p)) ps @ d\<rparr>)\<rparr>) (map fst ps)
     = s\<lparr>sup_sink := Jsonl (j\<lparr>js_disk := d\<rparr>)\<rparr>"
proof (induction ps arbitrary: s)
  case (Cons x ps)
  have "state_after (report (emit fr) B (fst x) (s\<lparr>sup_sink := Jsonl (j\<lparr>js_disk := map (\<lambda>p. OpenFails (snd p)) (x # ps) @ d\<rparr>)\<rparr>)) =
      s\<lparr>sup_sink := Jsonl (j\<lparr>js_disk := map (\<lambda>p. OpenFails (snd p)) ps @ d\<rparr>)\<rparr>"
    by (simp add: report_def py_simps jsonl_emit_def next_write_def)
  then show ?case using Cons by simp
qed simp

text \<open>
  C36. \<^verbatim>\<open>_killed\<close> is set before \<^verbatim>\<open>execute_kill\<close> runs. Whatever the backend and whatever its kill
  raises, over any sink that takes the events: the exception comes out of \<^verbatim>\<open>report\<close>, with the
  backend as the failed kill left it and no result, and no later report, \<open>KILL\<close> or not, tries
  again: each is emitted and changes nothing else.
\<close>
theorem failed_kill_is_final:
  assumes "is_kill e" "\<not> sup_killed s" "sup_kill_result s = None" "em e (sup_sink s) = (Inr (), k)"
    and "execute_kill B (sup_run_id s) (sup_credential_ids s) (sup_backend s) = (Inl x, b)"
    and "py_for es em k = (Inr (), k')"
  shows "\<exists>s1. report em B e s = (Inl x, s1) \<and> sup_killed s1 \<and> sup_cause s1 = Some e \<and> sup_kill_result s1 = None
    \<and> sup_backend s1 = b \<and> py_for es (report em B) s1 = (Inr (), s1\<lparr>sup_sink := k'\<rparr>)"
  using report_first_kill [of em e s k B, OF assms(4,1,2)] assms(3,5,6)
    reports_after_kill [of "s\<lparr>sup_sink := k, sup_killed := True, sup_cause := Some e, sup_backend := b\<rparr>" es em k' B]
  by auto

theorem failed_kill_is_final_witness:
  "\<exists>s1. report (emit demo_fr) gvisor_backend demo_event
      (supervisor_init (demo_gvisor\<lparr>gv_revoke_fn := None\<rparr>) demo_tee ''run-1'' (Some [''tok-1''])) =
        (Inl (no_revoker ''GvisorBackend''), s1)
    \<and> sup_killed s1 \<and> sup_kill_result s1 = None
    \<and> (\<exists>k. py_for [demo_event] (report (emit demo_fr) gvisor_backend) s1 = (Inr (), s1\<lparr>sup_sink := k\<rparr>))"
proof -
  let ?s = "supervisor_init (demo_gvisor\<lparr>gv_revoke_fn := None\<rparr>) demo_tee ''run-1'' (Some [''tok-1''])"
  have d: "is_kill demo_event" "\<not> sup_killed ?s" "sup_kill_result ?s = None" "sup_sink ?s = demo_tee"
    by (simp_all add: supervisor_init_def demo_event_def make_event_def)
  obtain k where k: "emit demo_fr demo_event demo_tee = (Inr (), k)" "tame_tee k"
    using tee.emit_total [where k = demo_tee and e = demo_event and fr = demo_fr] by (auto simp: demo_tee_def tee_init_def)
  obtain k' where k': "py_for [demo_event] (emit demo_fr) k = (Inr (), k')"
    using tee.emit_all_total [where es = "[demo_event]" and fr = demo_fr, OF k(2)] by auto
  have x: "execute_kill gvisor_backend (sup_run_id ?s) (sup_credential_ids ?s) (sup_backend ?s) =
      (Inl (no_revoker ''GvisorBackend''), sup_backend ?s)"
    by (simp add: supervisor_init_def execute_kill_def py_simps gvisor_revoke_credential_def)
  have e: "emit demo_fr demo_event (sup_sink ?s) = (Inr (), k)" using k(1) d(4) by simp
  from failed_kill_is_final [OF d(1-3) e x k'] show ?thesis by blast
qed

end
