(* ===== verification/Glob.thy ===== *)
theory Glob
  imports Prelude
begin

text \<open>
  \<^verbatim>\<open>fnmatch.fnmatch(name, pat)\<close> of the standard library on a POSIX system, where case
  normalisation does nothing: the pattern language of \<^verbatim>\<open>NetworkRule.host\<close>
  (\<^verbatim>\<open>halt/policy.py\<close>). \<open>glob_parse\<close> follows \<^verbatim>\<open>fnmatch.translate\<close> with its bracket and
  range rules; \<open>glob_match\<close> is the match of the regular expression it builds.
\<close>

datatype glob_tok =
    GStar
  | GAny
  | GNever
  | GLit char
  | GSet bool "(char \<times> char) list"  \<comment> \<open>negated, ranges\<close>

text \<open>
  What follows a \<^verbatim>\<open>[\<close>: the text up to the closing bracket (a \<^verbatim>\<open>]\<close> right after the opening
  or after \<^verbatim>\<open>!\<close> does not close) and the rest of the pattern.
\<close>

definition split_off :: "char \<Rightarrow> string \<Rightarrow> string \<times> string" where
  "split_off c s = (case s of [] \<Rightarrow> ([], []) | x # r \<Rightarrow> if x = c then ([x], r) else ([], s))"

definition bracket :: "string \<Rightarrow> (string \<times> string) option" where
  "bracket s =
     (let (neg, r1) = split_off (CHR ''!'') s; (lead, r2) = split_off (CHR '']'') r1;
          body = takeWhile (\<lambda>c. c \<noteq> CHR '']'') r2
      in case dropWhile (\<lambda>c. c \<noteq> CHR '']'') r2 of [] \<Rightarrow> None | _ # rest \<Rightarrow> Some (neg @ lead @ body, rest))"

lemma split_off_append: "split_off c s = (a, b) \<Longrightarrow> s = a @ b"
  by (auto simp: split_off_def split: list.splits if_splits)

lemma bracket_shorter: "bracket s = Some (a, b) \<Longrightarrow> length b < length s"
proof -
  assume a: "bracket s = Some (a, b)"
  obtain neg r1 where 1: "split_off (CHR ''!'') s = (neg, r1)" by fastforce
  obtain lead r2 where 2: "split_off (CHR '']'') r1 = (lead, r2)" by fastforce
  obtain c where "dropWhile (\<lambda>c. c \<noteq> CHR '']'') r2 = c # b"
    using a 1 2 by (auto simp: bracket_def split: list.splits)
  then have "length b < length r2" using length_dropWhile_le [of _ r2] by (metis Suc_le_lessD length_Cons)
  then show ?thesis using split_off_append [OF 1] split_off_append [OF 2] by simp
qed

text \<open>
  The bracket's text is cut into chunks at the hyphens that form ranges: the search for
  the next hyphen starts two characters into a chunk (one into the first, two with a
  leading \<^verbatim>\<open>!\<close>). A hyphen at the very end belongs to the last chunk.
\<close>

function chunks :: "nat \<Rightarrow> string \<Rightarrow> string list" where
  "chunks off s =
     (let h = takeWhile (\<lambda>c. c \<noteq> CHR ''-'') (drop off s) in
      if off + length h < length s then take (off + length h) s # chunks 2 (drop (off + length h + 1) s)
      else [s])"
  by pat_completeness auto
termination
  by (relation "measure (\<lambda>(off, s). length s)") auto

declare chunks.simps [simp del]

fun join_last :: "string list \<Rightarrow> string list" where
  "join_last [a, []] = [a @ ''-'']"
| "join_last (a # b # r) = a # join_last (b # r)"
| "join_last r = r"

text \<open>Ranges whose ends are out of order are removed, from the right.\<close>

fun drop_empty_ranges :: "string list \<Rightarrow> string list" where
  "drop_empty_ranges (a # b # r) =
     (case drop_empty_ranges (b # r) of
        [] \<Rightarrow> [a]
      | h # t \<Rightarrow> if ord_of (hd h) < ord_of (last a) then (butlast a @ tl h) # t else a # h # t)"
| "drop_empty_ranges r = r"

text \<open>
  The characters of the class, each with whether it is escaped: only the hyphens put back
  between chunks are not, so only they make ranges.
\<close>

fun class_body :: "string list \<Rightarrow> (bool \<times> char) list" where
  "class_body [] = []"
| "class_body [a] = map (Pair True) a"
| "class_body (a # r) = map (Pair True) a @ (False, CHR ''-'') # class_body r"

fun class_items :: "(bool \<times> char) list \<Rightarrow> (char \<times> char) list" where
  "class_items ((_, a) # (e, b) # (f, c) # r) =
     (if \<not> e \<and> b = CHR ''-'' then (a, c) # class_items r
      else (a, a) # class_items ((e, b) # (f, c) # r))"
| "class_items r = map (\<lambda>(_, a). (a, a)) r"

definition class_tok :: "string \<Rightarrow> glob_tok" where
  "class_tok stuff =
     (let body =
        (if CHR ''-'' \<notin> set stuff then map (Pair True) stuff
         else class_body (drop_empty_ranges (join_last
                (chunks (if starts_with stuff ''!'' then 2 else 1) stuff))))
      in case body of
           [] \<Rightarrow> GNever
         | (_, c) # r \<Rightarrow>
             if c = CHR ''!'' then (if r = [] then GAny else GSet True (class_items r))
             else GSet False (class_items body))"

function glob_parse :: "string \<Rightarrow> glob_tok list" where
  "glob_parse [] = []"
| "glob_parse (c # s) =
     (if c = CHR ''*'' then GStar # glob_parse s
      else if c = CHR ''?'' then GAny # glob_parse s
      else if c = CHR ''['' then
        (case bracket s of
           None \<Rightarrow> GLit c # glob_parse s
         | Some (stuff, rest) \<Rightarrow> class_tok stuff # glob_parse rest)
      else GLit c # glob_parse s)"
  by pat_completeness auto
termination
  by (relation "measure length") (auto dest: bracket_shorter)

fun tok_matches :: "glob_tok \<Rightarrow> char \<Rightarrow> bool" where
  "tok_matches GAny c = True"
| "tok_matches (GLit d) c = (c = d)"
| "tok_matches (GSet neg rs) c = (list_ex (\<lambda>(lo, hi). ord_of lo \<le> ord_of c \<and> ord_of c \<le> ord_of hi) rs \<noteq> neg)"
| "tok_matches _ c = False"

fun glob_match :: "glob_tok list \<Rightarrow> string \<Rightarrow> bool" where
  "glob_match [] s = (s = [])"
| "glob_match (GStar # ts) [] = glob_match ts []"
| "glob_match (GStar # ts) (c # s) = (glob_match ts (c # s) \<or> glob_match (GStar # ts) s)"
| "glob_match (t # ts) [] = False"
| "glob_match (t # ts) (c # s) = (tok_matches t c \<and> glob_match ts s)"

definition fnmatch :: "string \<Rightarrow> string \<Rightarrow> bool" where
  "fnmatch name pat = glob_match (glob_parse pat) name"

section \<open>What patterns mean\<close>

definition glob_literal :: "string \<Rightarrow> bool" where
  "glob_literal p \<longleftrightarrow> list_all (\<lambda>c. c \<notin> {CHR ''*'', CHR ''?'', CHR ''[''}) p"

lemma glob_parse_literal: "glob_literal p \<Longrightarrow> glob_parse (p @ q) = map GLit p @ glob_parse q"
  by (induction p) (auto simp: glob_literal_def)

lemma glob_match_literal: "glob_match (map GLit p @ ts) s \<longleftrightarrow> (\<exists>t. s = p @ t \<and> glob_match ts t)"
proof (induction p arbitrary: s)
  case (Cons c p)
  then show ?case by (cases s) auto
qed simp

lemma glob_match_star: "glob_match (GStar # ts) s \<longleftrightarrow> (\<exists>a b. s = a @ b \<and> glob_match ts b)"
proof (induction s)
  case (Cons c s)
  show ?case
  proof
    assume "glob_match (GStar # ts) (c # s)"
    then show "\<exists>a b. c # s = a @ b \<and> glob_match ts b"
      using Cons.IH by (metis append_Cons append_Nil glob_match.simps(3))
  next
    assume "\<exists>a b. c # s = a @ b \<and> glob_match ts b"
    then show "glob_match (GStar # ts) (c # s)"
      using Cons.IH by (metis Cons_eq_append_conv glob_match.simps(3))
  qed
qed simp

text \<open>A pattern without metacharacters matches only itself; \<^verbatim>\<open>*suffix\<close> matches every name with the suffix.\<close>

lemma fnmatch_literal: "glob_literal p \<Longrightarrow> fnmatch name p \<longleftrightarrow> name = p"
  using glob_parse_literal [of p "[]"] glob_match_literal [of p "[]" name] by (simp add: fnmatch_def)

lemma fnmatch_star_suffix: "glob_literal p \<Longrightarrow> fnmatch name (CHR ''*'' # p) \<longleftrightarrow> (\<exists>a. name = a @ p)"
  using glob_parse_literal [of p "[]"] glob_match_literal [of p "[]"]
  by (simp add: fnmatch_def glob_match_star)

lemma fnmatch_star_all: "fnmatch name ''*''"
  using fnmatch_star_suffix [of "[]" name] by (simp add: glob_literal_def)

end
