(* ===== verification/Policy.thy ===== *)
theory Policy
  imports Complex_Main Glob "HOL-Library.FSet"
begin

text \<open>
  \<^verbatim>\<open>halt/policy.py\<close>: the closed allowlist of one run. Network rules match host glob, port
  and path prefix; credential rules map a token to its scopes, the first rule for a token
  winning.
\<close>

record network_rule =
  nr_host :: string
  nr_port :: int
  nr_path_prefix :: string

definition rule_matches :: "network_rule \<Rightarrow> string \<Rightarrow> int \<Rightarrow> string \<Rightarrow> bool" where
  "rule_matches r host port path \<longleftrightarrow>
     fnmatch host (nr_host r) \<and> port = nr_port r \<and> starts_with path (nr_path_prefix r)"

record credential_rule =
  cr_token_id :: string
  cr_allowed_scopes :: "string fset"

record policy =
  pol_run_id :: string
  pol_org_id :: string
  pol_network_rules :: "network_rule list"
  pol_credential_rules :: "credential_rule list"
  pol_heartbeat_timeout_s :: rat

text \<open>The dataclass defaults.\<close>

definition default_policy :: "string \<Rightarrow> policy" where
  "default_policy run =
     \<lparr>pol_run_id = run, pol_org_id = ''local'', pol_network_rules = [], pol_credential_rules = [],
      pol_heartbeat_timeout_s = 30\<rparr>"

definition network_allowed :: "policy \<Rightarrow> string \<Rightarrow> int \<Rightarrow> string \<Rightarrow> bool" where
  "network_allowed p host port path = list_ex (\<lambda>r. rule_matches r host port path) (pol_network_rules p)"

fun first_scopes :: "credential_rule list \<Rightarrow> string \<Rightarrow> string fset option" where
  "first_scopes [] tok = None"
| "first_scopes (r # rs) tok = (if cr_token_id r = tok then Some (cr_allowed_scopes r) else first_scopes rs tok)"

definition credential_scopes_for :: "policy \<Rightarrow> string \<Rightarrow> string fset option" where
  "credential_scopes_for p tok = first_scopes (pol_credential_rules p) tok"

lemma network_allowed_iff:
  "network_allowed p host port path \<longleftrightarrow> (\<exists>r \<in> set (pol_network_rules p). rule_matches r host port path)"
  by (simp add: network_allowed_def list_ex_iff)

lemma first_scopes_map_of: "first_scopes rs tok = map_of (map (\<lambda>r. (cr_token_id r, cr_allowed_scopes r)) rs) tok"
  by (induction rs) auto

text \<open>A path admitted by no prefix of the rules for its port is denied, whatever the host.\<close>

lemma denied_off_prefix:
  assumes "\<And>r. r \<in> set (pol_network_rules p) \<Longrightarrow> nr_port r = port \<Longrightarrow> \<not> starts_with path (nr_path_prefix r)"
  shows "\<not> network_allowed p host port path"
  using assms by (auto simp: network_allowed_iff rule_matches_def)

text \<open>
  C22. A policy whose host patterns are literal names permits a request exactly when one rule
  names its host and port and its path starts with that rule's prefix. In particular an
  allowlisted host on another port or outside the prefix is denied: a host-only match is
  never enough.
\<close>
theorem literal_policy_exact:
  assumes "\<forall>r \<in> set (pol_network_rules p). glob_literal (nr_host r)"
  shows "network_allowed p host port path \<longleftrightarrow>
    (\<exists>r \<in> set (pol_network_rules p). host = nr_host r \<and> port = nr_port r
       \<and> (\<exists>rest. path = nr_path_prefix r @ rest))"
  using assms by (auto simp: network_allowed_iff rule_matches_def fnmatch_literal starts_with_iff)

definition npm_policy :: policy where
  "npm_policy =
     \<lparr>pol_run_id = ''run-1'', pol_org_id = ''acme'',
      pol_network_rules = [\<lparr>nr_host = ''artifactory.internal'', nr_port = 443, nr_path_prefix = ''/api/npm/''\<rparr>],
      pol_credential_rules = [\<lparr>cr_token_id = ''tok-1'', cr_allowed_scopes = {|''npm:read''|}\<rparr>],
      pol_heartbeat_timeout_s = 30\<rparr>"

theorem literal_policy_exact_witness:
  "network_allowed npm_policy ''artifactory.internal'' 443 ''/api/npm/foo''
   \<and> \<not> network_allowed npm_policy ''artifactory.internal'' 443 ''/api/admin/tokens''
   \<and> \<not> network_allowed npm_policy ''artifactory.internal'' 9999 ''/api/npm/foo''"
proof -
  have h: "\<forall>r \<in> set (pol_network_rules npm_policy). glob_literal (nr_host r)"
    by (simp add: npm_policy_def glob_literal_def)
  show ?thesis
    using h by (simp add: literal_policy_exact [OF h]) (simp add: npm_policy_def)
qed

text \<open>
  The path is compared as text: a path that climbs out of the permitted directory with dot
  segments still starts with the prefix, so it is allowed. The policy for
  \<^verbatim>\<open>/api/npm/\<close> admits \<^verbatim>\<open>/api/npm/../admin/tokens\<close>, which a server that resolves dot
  segments answers from \<^verbatim>\<open>/api/admin/tokens\<close>.
\<close>
theorem dot_segments_escape_prefix:
  assumes "r \<in> set (pol_network_rules p)" "glob_literal (nr_host r)"
  shows "network_allowed p (nr_host r) (nr_port r) (nr_path_prefix r @ ''../'' @ rest)"
  using assms by (auto simp: network_allowed_iff rule_matches_def fnmatch_literal starts_with_iff
      intro!: bexI)

theorem dot_segments_escape_prefix_witness:
  "network_allowed npm_policy ''artifactory.internal'' 443 ''/api/npm/../admin/tokens''"
  using dot_segments_escape_prefix [of "\<lparr>nr_host = ''artifactory.internal'', nr_port = 443, nr_path_prefix = ''/api/npm/''\<rparr>" npm_policy
      "''admin/tokens''"]
  by (simp add: npm_policy_def glob_literal_def)

end
