(* ===== verification/Fuses.thy ===== *)
theory Fuses
  imports Events Policy "HOL-Library.List_Lexorder" "HOL-Library.Char_ord"
begin

text \<open>
  \<^verbatim>\<open>halt/fuses/\<close>: each fuse takes one observation and returns nothing or a \<open>KILL\<close> event.
  \<^verbatim>\<open>Fuse.observe\<close>'s contract is the locale \<open>fuse_contract\<close>; each fuse is an
  interpretation of it.
\<close>

section \<open>Text of the reasons\<close>

text \<open>\<^verbatim>\<open>repr(s)\<close> of a string (\<^verbatim>\<open>{token_id!r}\<close>).\<close>

definition repr_char :: "char \<Rightarrow> char \<Rightarrow> string" where
  "repr_char q c =
     (let n = ord_of c in
      if c = q \<or> c = CHR 0x5C then [CHR 0x5C, c]
      else if n = 9 then [CHR 0x5C, CHR ''t''] else if n = 10 then [CHR 0x5C, CHR ''n'']
      else if n = 13 then [CHR 0x5C, CHR ''r'']
      else if n < 32 \<or> (127 \<le> n \<and> n \<le> 160) \<or> n = 173
        then [CHR 0x5C, CHR ''x'', hex_digit (n div 16), hex_digit (n mod 16)]
      else [c])"

definition py_repr :: "string \<Rightarrow> string" where
  "py_repr s =
     (let q = (if CHR 0x27 \<in> set s \<and> CHR 0x22 \<notin> set s then CHR 0x22 else CHR 0x27)
      in q # concat (map (repr_char q) s) @ [q])"

text \<open>\<^verbatim>\<open>f"{x:.1f}"\<close>: one decimal, ties to even.\<close>

definition round_half_even :: "rat \<Rightarrow> int" where
  "round_half_even x =
     (let f = \<lfloor>x\<rfloor>; r = x - of_int f in
      if r < 1/2 then f else if 1/2 < r then f + 1 else if even f then f else f + 1)"

definition fmt_1f :: "rat \<Rightarrow> string" where
  "fmt_1f x =
     (let t = nat (round_half_even (\<bar>x\<bar> * 10))
      in (if x < 0 then ''-'' else []) @ show_nat (t div 10) @ ''.'' @ [digit_char (t mod 10)])"

section \<open>The contract\<close>

locale fuse_contract =
  fixes observe :: "'obs \<Rightarrow> stamp \<Rightarrow> trip_event option"
    and violates :: "'obs \<Rightarrow> bool"
    and pol :: policy
  assumes silent: "\<not> violates obs \<Longrightarrow> observe obs st = None"
    and trips: "violates obs \<Longrightarrow> \<exists>e. observe obs st = Some e \<and> te_severity e = KILL
      \<and> te_org_id e = pol_org_id pol \<and> te_run_id e = pol_run_id pol
      \<and> te_event_id e = st_event_id st \<and> te_ts e = st_ts st"
begin

lemma observe_None_iff: "observe obs st = None \<longleftrightarrow> \<not> violates obs"
  using silent [of obs st] trips [of obs st] by (cases "violates obs") auto

lemma observe_SomeD: "observe obs st = Some e \<Longrightarrow> violates obs \<and> te_severity e = KILL \<and> te_run_id e = pol_run_id pol"
  using observe_None_iff [of obs st] trips [of obs st] by auto

lemma observe_Some_iff: "(\<exists>e. observe obs st = Some e) \<longleftrightarrow> violates obs"
  using observe_None_iff [of obs st] by auto

text \<open>The events a sequence of observations produces are exactly the violations, in order.\<close>

lemma observations_trip:
  "length (List.map_filter (\<lambda>(ob, st). observe ob st) obs) = length (filter (violates \<circ> fst) obs)"
proof (induction obs)
  case (Cons x obs)
  obtain ob st where x: "x = (ob, st)" by (cases x)
  show ?case
    using Cons observe_Some_iff [of ob st] x
    by (cases "observe ob st") (auto simp: map_filter_simps)
qed (simp add: map_filter_simps)

end

section \<open>NetworkFuse\<close>

definition network_observe :: "policy \<Rightarrow> stamp \<Rightarrow> string \<Rightarrow> int \<Rightarrow> string \<Rightarrow> trip_event option" where
  "network_observe p st host port path =
     (if network_allowed p host port path then None
      else Some (make_event st NETWORK KILL
        (''egress to '' @ host @ '':'' @ show_int port @ path @ '' not in allowlist'')
        [(''host'', JStr host), (''port'', JInt port), (''path'', JStr path)]
        (pol_org_id p) (pol_run_id p)))"

interpretation net: fuse_contract
  "\<lambda>(host, port, path) st. network_observe p st host port path"
  "\<lambda>(host, port, path). \<not> network_allowed p host port path" p for p
  by unfold_locales (auto simp: network_observe_def make_event_def)

section \<open>CredentialFuse\<close>

definition credential_observe :: "policy \<Rightarrow> stamp \<Rightarrow> string \<Rightarrow> string \<Rightarrow> trip_event option" where
  "credential_observe p st tok scope =
     (case credential_scopes_for p tok of
        None \<Rightarrow> Some (make_event st CREDENTIAL KILL
          (''unknown token '' @ py_repr tok @ '' used (not issued for this run)'')
          [(''token_id'', JStr tok), (''requested_scope'', JStr scope)]
          (pol_org_id p) (pol_run_id p))
      | Some allowed \<Rightarrow>
          if scope |\<notin>| allowed then
            Some (make_event st CREDENTIAL KILL
              (''token '' @ py_repr tok @ '' used outside allowed scope'')
              [(''token_id'', JStr tok), (''requested_scope'', JStr scope),
               (''allowed_scopes'', JArr (map JStr (sorted_list_of_fset allowed)))]
              (pol_org_id p) (pol_run_id p))
          else None)"

definition credential_permitted :: "policy \<Rightarrow> string \<Rightarrow> string \<Rightarrow> bool" where
  "credential_permitted p tok scope \<longleftrightarrow>
     (case credential_scopes_for p tok of None \<Rightarrow> False | Some allowed \<Rightarrow> scope |\<in>| allowed)"

interpretation cred: fuse_contract
  "\<lambda>(tok, scope) st. credential_observe p st tok scope"
  "\<lambda>(tok, scope). \<not> credential_permitted p tok scope" p for p
  by unfold_locales
     (auto simp: credential_observe_def credential_permitted_def make_event_def split: option.splits)

section \<open>WatchdogFuse\<close>

text \<open>
  The fuse keeps the clock reading of the last heartbeat; the readings of the injected
  clock are inputs. \<open>fr\<close> prints the limit (\<^verbatim>\<open>{heartbeat_timeout_s}\<close> is \<^verbatim>\<open>str(float)\<close>).
\<close>

record watchdog =
  wd_policy :: policy
  wd_last_beat :: rat

definition watchdog_init :: "policy \<Rightarrow> rat \<Rightarrow> watchdog" where
  "watchdog_init p now = \<lparr>wd_policy = p, wd_last_beat = now\<rparr>"

definition heartbeat :: "rat \<Rightarrow> watchdog \<Rightarrow> watchdog" where
  "heartbeat now w = w\<lparr>wd_last_beat := now\<rparr>"

definition watchdog_observe :: "(rat \<Rightarrow> string) \<Rightarrow> watchdog \<Rightarrow> stamp \<Rightarrow> rat \<Rightarrow> trip_event option" where
  "watchdog_observe fr w st now =
     (let elapsed = now - wd_last_beat w; limit = pol_heartbeat_timeout_s (wd_policy w) in
      if elapsed \<le> limit then None
      else Some (make_event st WATCHDOG KILL
        (''no heartbeat for '' @ fmt_1f elapsed @ ''s (limit '' @ fr limit @ ''s)'')
        [(''elapsed_s'', JFloat elapsed), (''limit_s'', JFloat limit)]
        (pol_org_id (wd_policy w)) (pol_run_id (wd_policy w))))"

interpretation wd: fuse_contract
  "\<lambda>now st. watchdog_observe fr w st now"
  "\<lambda>now. pol_heartbeat_timeout_s (wd_policy w) < now - wd_last_beat w" "wd_policy w" for fr w
  by unfold_locales (auto simp: watchdog_observe_def make_event_def Let_def)

section \<open>NonTcpEgressFuse\<close>

text \<open>The counter is a call that may raise; the exception passes through \<^verbatim>\<open>observe\<close>.\<close>

definition nontcp_trip :: "policy \<Rightarrow> int \<Rightarrow> stamp \<Rightarrow> trip_event option" where
  "nontcp_trip p n st =
     (if n \<le> 0 then None
      else Some (make_event st NETWORK KILL
        (show_int n @ '' non-TCP packet(s) left the sandbox (policy is HTTP-only)'')
        [(''non_tcp_packets'', JInt n)] (pol_org_id p) (pol_run_id p)))"

definition nontcp_observe :: "policy \<Rightarrow> ('s, int) py \<Rightarrow> stamp \<Rightarrow> ('s, trip_event option) py" where
  "nontcp_observe p read st = py_bind read (\<lambda>n. py_return (nontcp_trip p n st))"

interpretation nontcp: fuse_contract "nontcp_trip p" "\<lambda>n. 0 < n" p for p
  by unfold_locales (auto simp: nontcp_trip_def make_event_def)

text \<open>
  Dead-man's switch: between two heartbeats the watchdog trips at exactly the readings
  more than the limit after the last one, however many readings were taken in between and
  whatever came before it.
\<close>

fun watchdog_run :: "(rat \<Rightarrow> string) \<Rightarrow> watchdog \<Rightarrow> (rat + rat \<times> stamp) list \<Rightarrow> trip_event option list" where
  "watchdog_run fr w [] = []"
| "watchdog_run fr w (Inl now # es) = watchdog_run fr (heartbeat now w) es"
| "watchdog_run fr w (Inr (now, st) # es) = watchdog_observe fr w st now # watchdog_run fr w es"

lemma watchdog_run_append:
  "watchdog_run fr w (es @ Inl b # fs) = watchdog_run fr w es @ watchdog_run fr (watchdog_init (wd_policy w) b) fs"
proof (induction es arbitrary: w)
  case Nil
  then show ?case by (cases w) (simp add: heartbeat_def watchdog_init_def)
next
  case (Cons e es)
  then show ?case by (cases e) (auto simp: heartbeat_def)
qed

text \<open>
  C35. The watchdog trips on exactly the reads that come more than the timeout after the last
  heartbeat, whatever happened before that heartbeat.
\<close>
theorem watchdog_trips_after_silence:
  "map (\<lambda>z. z \<noteq> None) (watchdog_run fr w (es @ Inl beat # map Inr reads)) =
   map (\<lambda>z. z \<noteq> None) (watchdog_run fr w es)
     @ map (\<lambda>(now, st). pol_heartbeat_timeout_s (wd_policy w) < now - beat) reads"
proof -
  have "map (\<lambda>z. z \<noteq> None) (watchdog_run fr v (map Inr reads)) =
      map (\<lambda>(now, st). pol_heartbeat_timeout_s (wd_policy v) < now - wd_last_beat v) reads" for v
    using wd.observe_Some_iff [of fr v] by (induction reads) auto
  then show ?thesis by (simp add: watchdog_run_append watchdog_init_def)
qed

end
