(* ===== verification/Gate.thy ===== *)
theory Gate
  imports Supervisor Fuses Connection
begin

text \<open>
  \<^verbatim>\<open>halt/intercept/gate.py\<close>: \<^verbatim>\<open>PolicyGate.decide\<close> turns a connection into a network fuse
  observation, reports the decision to the supervisor and answers forward or drop. It is
  the provider of the interface \<open>decider\<close>.
\<close>

definition decision_evidence :: "intercepted_connection \<Rightarrow> dict" where
  "decision_evidence c =
     [(''host'', JStr (ic_host c)),
      (''port'', JInt (ic_port c)),
      (''path'', case ic_path c of None \<Rightarrow> JNull | Some p \<Rightarrow> JStr p),
      (''peer'', case ic_peer c of None \<Rightarrow> JNull | Some (h, n) \<Rightarrow> JArr [JStr h, JInt n]),
      (''redirected'', JBool (ic_redirected c)),
      (''tls'', JBool (ic_tls c))]"

definition decide ::
  "(trip_event \<Rightarrow> ('k, unit) py) \<Rightarrow> 'b kill_backend \<Rightarrow> policy \<Rightarrow> stamp \<Rightarrow> intercepted_connection \<Rightarrow>
   (('k, 'b) supervisor, bool) py" where
  "decide em B p st c =
     (case ic_path c of
        None \<Rightarrow>
          py_seq (report em B (make_event st NETWORK KILL
              (''egress to '' @ ic_host c @ '':'' @ show_int (ic_port c) @ '' with no HTTP request observed'')
              (decision_evidence c) (pol_org_id p) (pol_run_id p)))
            (py_return False)
      | Some path \<Rightarrow>
          (case network_observe p st (ic_host c) (ic_port c) path of
             Some event \<Rightarrow>
               py_seq (report em B (event\<lparr>te_evidence := dict_merge (decision_evidence c) (te_evidence event)\<rparr>))
                 (py_return False)
           | None \<Rightarrow>
               py_seq (report em B (make_event st NETWORK INFO
                   (''egress to '' @ ic_host c @ '':'' @ show_int (ic_port c) @ path @ '' allowed'')
                   (decision_evidence c) (pol_org_id p) (pol_run_id p)))
                 (py_return True)))"

section \<open>One report per decision\<close>

definition gate_permits :: "policy \<Rightarrow> intercepted_connection \<Rightarrow> bool" where
  "gate_permits p c = (case ic_path c of None \<Rightarrow> False | Some path \<Rightarrow> network_allowed p (ic_host c) (ic_port c) path)"

definition decision_event :: "policy \<Rightarrow> stamp \<Rightarrow> intercepted_connection \<Rightarrow> trip_event" where
  "decision_event p st c =
     make_event st NETWORK (if gate_permits p c then INFO else KILL)
       (''egress to '' @ ic_host c @ '':'' @ show_int (ic_port c)
          @ (case ic_path c of None \<Rightarrow> '' with no HTTP request observed''
             | Some path \<Rightarrow> path @ (if gate_permits p c then '' allowed'' else '' not in allowlist'')))
       (decision_evidence c) (pol_org_id p) (pol_run_id p)"

text \<open>Merging the fuse's evidence into the gate's changes nothing: its three entries are the gate's.\<close>

lemma merged_evidence:
  "ic_path c = Some path \<Longrightarrow>
     dict_merge (decision_evidence c) [(''host'', JStr (ic_host c)), (''port'', JInt (ic_port c)), (''path'', JStr path)]
       = decision_evidence c"
  by (simp add: dict_merge_def decision_evidence_def)

lemma decide_eq: "decide em B p st c = py_seq (report em B (decision_event p st c)) (py_return (gate_permits p c))"
proof (cases "ic_path c")
  case None
  then show ?thesis by (simp add: decide_def decision_event_def gate_permits_def)
next
  case (Some path)
  then show ?thesis
    by (cases "network_allowed p (ic_host c) (ic_port c) path")
       (simp_all add: decide_def decision_event_def gate_permits_def network_observe_def make_event_def
          merged_evidence)
qed

lemma decision_event_sel [simp]:
  "is_kill (decision_event p st c) \<longleftrightarrow> \<not> gate_permits p c"
  "te_evidence (decision_event p st c) = decision_evidence c"
  "te_ts (decision_event p st c) = st_ts st"
  by (simp_all add: decision_event_def make_event_def)

text \<open>Ports and peers of real connections have few digits, so a decision can be recorded.\<close>

definition recordable :: "(rat \<Rightarrow> string) \<Rightarrow> (string \<Rightarrow> rat option) \<Rightarrow> stamp \<Rightarrow> intercepted_connection \<Rightarrow> bool" where
  "recordable fr fp st c \<longleftrightarrow>
     float_text fr fp (st_ts st) \<and> length (show_nat (nat \<bar>ic_port c\<bar>)) \<le> int_max_str_digits
   \<and> (case ic_peer c of None \<Rightarrow> True | Some (h, n) \<Rightarrow> length (show_nat (nat \<bar>n\<bar>)) \<le> int_max_str_digits)"

lemma decision_event_ok: "recordable fr fp st c \<Longrightarrow> event_ok fr fp (decision_event p st c)"
  by (auto simp: recordable_def event_ok_def decision_evidence_def split: option.splits)

section \<open>The gate as a decider\<close>

context reporting
begin

lemma decide_total:
  assumes "good (sup_sink s)" "ok (sup_backend s)" "fine (decision_event p st c)"
  shows "\<exists>s'. decide em B p st c s = (Inr (gate_permits p c), s') \<and> good (sup_sink s') \<and> ok (sup_backend s')
    \<and> (sup_killed s' \<longleftrightarrow> sup_killed s \<or> \<not> gate_permits p c)
    \<and> sup_cause s' = (if \<not> sup_killed s \<and> \<not> gate_permits p c then Some (decision_event p st c) else sup_cause s)"
proof -
  obtain s' where "report em B (decision_event p st c) s = (Inr (), s')" "good (sup_sink s')" "ok (sup_backend s')"
      "sup_killed s' \<longleftrightarrow> sup_killed s \<or> is_kill (decision_event p st c)"
      "sup_cause s' = (if \<not> sup_killed s \<and> is_kill (decision_event p st c) then Some (decision_event p st c) else sup_cause s)"
    using report_total [OF assms(1,3,2)] by blast
  then show ?thesis by (simp add: decide_eq py_simps)
qed

end

interpretation gvisor_gate: decider "decide (emit fr) gvisor_backend p"
  "\<lambda>s. tame_tee (sup_sink s) \<and> gvisor_total (sup_backend s)" "\<lambda>_ _. True" "gate_permits p" for fr p
  by unfold_locales
     (use tee_gvisor.decide_total in blast, simp add: gate_permits_def)

interpretation firecracker_gate: decider "decide (emit fr) firecracker_backend p"
  "\<lambda>s. tame_tee (sup_sink s) \<and> firecracker_total (sup_backend s)" "\<lambda>_ _. True" "gate_permits p" for fr p
  by unfold_locales
     (use tee_firecracker.decide_total in blast, simp add: gate_permits_def)

section \<open>A session of decisions\<close>

fun decide_all ::
  "(trip_event \<Rightarrow> ('k, unit) py) \<Rightarrow> 'b kill_backend \<Rightarrow> policy \<Rightarrow> (stamp \<times> intercepted_connection) list \<Rightarrow>
   (('k, 'b) supervisor, bool list) py" where
  "decide_all em B p [] = py_return []"
| "decide_all em B p ((st, c) # ds) =
     py_bind (decide em B p st c) (\<lambda>a. py_bind (decide_all em B p ds) (\<lambda>as. py_return (a # as)))"

abbreviation decision_events :: "policy \<Rightarrow> (stamp \<times> intercepted_connection) list \<Rightarrow> trip_event list" where
  "decision_events p ds \<equiv> map (\<lambda>(st, c). decision_event p st c) ds"

lemma decide_all_reports:
  "py_for (decision_events p ds) (report em B) s = (Inr (), s') \<Longrightarrow>
     decide_all em B p ds s = (Inr (map (gate_permits p \<circ> snd) ds), s')"
proof (induction ds arbitrary: s)
  case (Cons d ds)
  obtain st c where d: "d = (st, c)" by (cases d)
  from Cons.prems d obtain s1 where 1: "report em B (decision_event p st c) s = (Inr (), s1)"
      "py_for (decision_events p ds) (report em B) s1 = (Inr (), s')"
    by (auto simp: py_simps split: prod.splits sum.splits)
  then show ?case using Cons.IH [OF 1(2)] d by (simp add: decide_eq py_simps)
qed (simp add: py_simps)

text \<open>
  C7. A whole session behind the gate, on gVisor with a durable record: every connection is
  answered by the policy (no path means deny), every decision, allow or deny, adds exactly
  its event to the record in order, and the first denial kills the run, once, and is the
  recorded cause.
\<close>
theorem gate_session:
  assumes "durable fp k" "gvisor_total g" "list_all (\<lambda>(st, c). recordable fr fp st c) ds"
  shows "\<exists>s'. decide_all (emit fr) (logging gvisor_backend) p ds (supervisor_init (g, []) k run (Some creds))
        = (Inr (map (gate_permits p \<circ> snd) ds), s')
    \<and> durable_record fp (sup_sink s') = durable_record fp k @ decision_events p ds
    \<and> kill_outcome gvisor_backend run creds (decision_events p ds) s'"
proof -
  have "list_all (event_ok fr fp) (decision_events p ds)"
    using assms(3) by (auto simp: list_all_iff decision_event_ok)
  from supervised_run [OF gvisor_run.supervised_axioms gvisor.total_backend_axioms assms(1) this assms(2)]
  show ?thesis using decide_all_reports by blast
qed

definition demo_conn :: "string \<Rightarrow> string option \<Rightarrow> intercepted_connection" where
  "demo_conn host path =
     \<lparr>ic_host = host, ic_port = 443, ic_path = path, ic_peer = Some (''10.0.0.2'', 40000), ic_redirected = True,
      ic_ip = Some ''1.1.1.1'', ic_tls = True, ic_method = Some ''GET''\<rparr>"

abbreviation demo_stamp :: stamp where
  "demo_stamp \<equiv> \<lparr>st_event_id = ''e-1'', st_ts = 3 / 2\<rparr>"

theorem gate_session_witness:
  "\<exists>s'. decide_all (emit demo_fr) (logging gvisor_backend) npm_policy
        [(demo_stamp, demo_conn ''artifactory.internal'' (Some ''/api/npm/foo'')),
         (demo_stamp, demo_conn ''artifactory.internal'' (Some ''/api/admin/tokens'')),
         (demo_stamp, demo_conn ''artifactory.internal'' None)]
        (supervisor_init (demo_gvisor, []) demo_tee ''run-1'' (Some [''tok-1'']))
      = (Inr [True, False, False], s')
    \<and> length (durable_record demo_fp (sup_sink s')) = 3
    \<and> snd (sup_backend s') = [Revoke ''tok-1'', Sever ''run-1'', Terminate ''run-1'']"
proof -
  let ?ds = "[(demo_stamp, demo_conn ''artifactory.internal'' (Some ''/api/npm/foo'')),
         (demo_stamp, demo_conn ''artifactory.internal'' (Some ''/api/admin/tokens'')),
         (demo_stamp, demo_conn ''artifactory.internal'' None)]"
  have f: "float_text demo_fr demo_fp (3 / 2)"
    using demo_event_ok by (simp add: event_ok_def demo_event_def make_event_def)
  have n: "length (show_nat 443) \<le> int_max_str_digits" "length (show_nat 40000) \<le> int_max_str_digits"
    by (simp_all add: show_nat.simps int_max_str_digits_def)
  have ok: "list_all (\<lambda>(st, c). recordable demo_fr demo_fp st c) ?ds"
    using f n by (simp add: recordable_def demo_conn_def)
  have h: "fnmatch ''artifactory.internal'' ''artifactory.internal''"
    by (rule fnmatch_literal [THEN iffD2]) (simp_all add: glob_literal_def)
  have g: "map (gate_permits npm_policy \<circ> snd) ?ds = [True, False, False]"
    using h by (simp add: gate_permits_def demo_conn_def network_allowed_iff npm_policy_def rule_matches_def)
  obtain s' where s': "decide_all (emit demo_fr) (logging gvisor_backend) npm_policy ?ds
        (supervisor_init (demo_gvisor, []) demo_tee ''run-1'' (Some [''tok-1''])) = (Inr (map (gate_permits npm_policy \<circ> snd) ?ds), s')"
      "durable_record demo_fp (sup_sink s') = durable_record demo_fp demo_tee @ decision_events npm_policy ?ds"
      "kill_outcome gvisor_backend ''run-1'' [''tok-1''] (decision_events npm_policy ?ds) s'"
    using gate_session [OF demo_tee_durable(1) demo_gvisor_total ok] by blast
  have "sup_killed s'" using s'(3) g by (simp add: kill_outcome_def)
  then have "snd (sup_backend s') = [Revoke ''tok-1'', Sever ''run-1'', Terminate ''run-1'']"
    using s'(3) by (simp add: kill_outcome_def kill_plan_def)
  then show ?thesis using s'(1,2) g by (intro exI [of _ s']) (simp add: demo_tee_durable(2))
qed

end
