(* ===== verification/Terminate.thy ===== *)
theory Terminate
  imports Relay Proxy Certs Gate
begin

text \<open>
  \<^verbatim>\<open>halt/intercept/terminate.py\<close>: \<^verbatim>\<open>TerminatingProxy\<close>, which reads the request head of a
  connection, asks the decider and forwards or drops. A connection is its socket calls
  (theory Proxy), its raw bytes, its TLS handshake and what the upstream side will do. The
  proxy extends the record of \<^verbatim>\<open>DenyAllProxy\<close>, as the class does.
\<close>

section \<open>The outside of one connection\<close>

text \<open>
  \<open>Hello name e\<close>: a ClientHello with that server name; \<open>e\<close> is what the rest of the handshake
  raised. \<open>NoHello e\<close>: the handshake raised \<open>e\<close> before the SNI callback could run.
\<close>

datatype hello = NoHello py_exn | Hello "string option" "py_exn option"

text \<open>
  The upstream socket: what wrapping it in TLS raises with and without verification, what
  it will send us, what its TCP socket yields in place of what is left of that once a TLS
  layer is taken off (theory Relay), what sending to it does, what closing it raises.
\<close>

record upstream =
  up_verified :: "py_exn option"
  up_unverified :: "py_exn option"
  up_in :: stream
  up_wire :: "stream \<Rightarrow> stream"
  up_out :: send_end
  up_close :: "py_exn option"

text \<open>
  A connection: its socket calls, its bytes without and behind TLS, the same for the client's
  bare socket, and how the threads of its relay will be scheduled.
\<close>

record 't tconn =
  tc_sock :: sock
  tc_raw :: stream
  tc_hello :: hello
  tc_plain :: stream
  tc_wire :: "stream \<Rightarrow> stream"
  tc_turns :: "turn list"
  tc_out :: send_end
  tc_connect :: "address \<Rightarrow> py_exn + upstream"
  tc_stamp :: 't

text \<open>The constructor's arguments that never change, and \<^verbatim>\<open>load_cert_chain\<close>.\<close>

record ('s, 't) term_config =
  tx_decide :: "'t \<Rightarrow> intercepted_connection \<Rightarrow> ('s, bool) py"
  tx_upstream :: "intercepted_connection \<Rightarrow> address"
  tx_verify_upstream :: bool
  tx_load :: "cert_pair \<Rightarrow> py_exn option"

text \<open>
  \<open>fw_sent\<close> is what reached the upstream, \<open>fw_returned\<close> what reached the sandbox;
  \<open>fw_tls_name\<close> the name the upstream certificate is verified for.
\<close>

record forwarding =
  fw_conn :: intercepted_connection
  fw_target :: address
  fw_tls_name :: "string option"
  fw_sent :: bytes
  fw_returned :: bytes

record ('w, 's, 'h) term_proxy = "'w proxy" +
  tp_gate :: 's
  tp_ca :: "'h cert_authority"
  tp_handlers :: nat
  tp_forwarded :: "forwarding list"

section \<open>Where to forward\<close>

definition default_upstream :: "intercepted_connection \<Rightarrow> address" where
  "default_upstream c =
     (case ic_ip c of
        Some ip \<Rightarrow> if ic_redirected c \<and> ip \<noteq> [] then (ip, ic_port c) else (ic_host c, ic_port c)
      | None \<Rightarrow> (ic_host c, ic_port c))"

section \<open>TLS\<close>

definition on_sni :: "('s, 't) term_config \<Rightarrow> string option \<Rightarrow> ('h cert_authority, unit) py" where
  "on_sni cfg server_name =
     (case server_name of
        None \<Rightarrow> py_return ()
      | Some n \<Rightarrow>
          if n = [] then py_return ()
          else py_bind (leaf_for n) (\<lambda>leaf.
            case tx_load cfg leaf of None \<Rightarrow> py_return () | Some e \<Rightarrow> py_raise e))"

text \<open>An exception out of the SNI callback ends the handshake with an alert: \<^verbatim>\<open>SSLError\<close>.\<close>

definition terminate_tls :: "('s, 't) term_config \<Rightarrow> 't tconn \<Rightarrow> (('w, 's, 'h) term_proxy, string option) py" where
  "terminate_tls cfg c =
     (case tc_hello c of
        NoHello e \<Rightarrow> py_raise e
      | Hello name verdict \<Rightarrow>
          py_seq (py_except (\<lambda>_. True) (py_on tp_ca (\<lambda>a s. s\<lparr>tp_ca := a\<rparr>) (on_sni cfg name))
                    (\<lambda>_. py_raise (Exn SSLErrorC ''callback failed'')))
            (case verdict of None \<Rightarrow> py_return name | Some e \<Rightarrow> py_raise e))"

text \<open>\<^verbatim>\<open>_build_server_context\<close>: the placeholder certificate.\<close>

definition build_server_context :: "('s, 't) term_config \<Rightarrow> ('h cert_authority, unit) py" where
  "build_server_context cfg =
     py_bind (leaf_for ''halt.invalid'') (\<lambda>leaf.
       case tx_load cfg leaf of None \<Rightarrow> py_return () | Some e \<Rightarrow> py_raise e)"

definition term_init ::
  "('s, 't) term_config \<Rightarrow> (intercepted_connection \<Rightarrow> ('w, unit) py) option \<Rightarrow> string \<Rightarrow> int \<Rightarrow> 'w \<Rightarrow> 's \<Rightarrow> 'h cert_authority \<Rightarrow>
   py_exn + ('w, 's, 'h) term_proxy" where
  "term_init cfg cb host port w g ca =
     (case build_server_context cfg ca of
        (Inl e, _) \<Rightarrow> Inl e
      | (Inr _, ca') \<Rightarrow>
          Inr (proxy.extend (proxy_init cb host port w)
                 \<lparr>tp_gate = g, tp_ca = ca', tp_handlers = 0, tp_forwarded = []\<rparr>))"

definition term_ca_cert_path :: "('w, 's, 'h) term_proxy \<Rightarrow> string" where
  "term_ca_cert_path p = ca_cert_path (tp_ca p)"

lemma term_init_ca_path: "term_init cfg cb host port w g ca = Inr p \<Longrightarrow> term_ca_cert_path p = ca_cert_path ca"
  using ca_path_kept [of "''halt.invalid''" ca]
  by (auto simp: term_init_def build_server_context_def term_ca_cert_path_def py_simps proxy.defs term_proxy.defs
      split: prod.splits sum.splits option.splits)

section \<open>Forwarding\<close>

text \<open>
  The body of \<^verbatim>\<open>_forward\<close>'s \<^verbatim>\<open>try\<close>: wrap when the client spoke TLS, replay the head, relay.
  Returns the outcome, what reached the upstream and what had reached the sandbox by then.
\<close>

definition tls_layer :: "bool \<Rightarrow> (stream \<Rightarrow> stream) \<Rightarrow> layer" where
  "tls_layer tls wire = (if tls then Tls wire else Plain)"

definition exchange ::
  "bool \<Rightarrow> bool \<Rightarrow> upstream \<Rightarrow> 't tconn \<Rightarrow> bytes \<Rightarrow> stream \<Rightarrow> (py_exn + unit) \<times> bytes \<times> bytes" where
  "exchange verify tls up c head rest =
     (case (if \<not> tls then None else if verify then up_verified up else up_unverified up) of
        Some e \<Rightarrow> (Inl e, se_sent (up_out up), se_sent (tc_out c))
      | None \<Rightarrow>
          (case sendall head (up_out up) of
             (Inl e, d) \<Rightarrow> (Inl e, se_sent d, se_sent (tc_out c))
           | (Inr _, d) \<Rightarrow>
               (case relay (tc_turns c)
                       \<lparr>ry_client_layer = tls_layer tls (tc_wire c), ry_client_in = rest, ry_client_out = tc_out c,
                        ry_server_layer = tls_layer tls (up_wire up), ry_server_in = up_in up, ry_server_out = d\<rparr> of
                  (r, y) \<Rightarrow> (r, se_sent (ry_server_out y), se_sent (ry_client_out y)))))"

definition close_upstream :: "upstream \<Rightarrow> ('s, unit) py" where
  "close_upstream up =
     py_except is_OSError (case up_close up of None \<Rightarrow> py_return () | Some e \<Rightarrow> py_raise e) (\<lambda>_. py_return ())"

definition forward ::
  "('s, 't) term_config \<Rightarrow> 't tconn \<Rightarrow> stream \<Rightarrow> intercepted_connection \<Rightarrow> bytes \<Rightarrow> (('w, 's, 'h) term_proxy, unit) py" where
  "forward cfg c rest observed head =
     (let target = tx_upstream cfg observed in
      case tc_connect c target of
        Inl e \<Rightarrow> py_raise e
      | Inr up \<Rightarrow>
          (case exchange (tx_verify_upstream cfg) (ic_tls observed) up c head rest of
             (r, sent, returned) \<Rightarrow>
               py_finally
                 (py_seq (py_modify (\<lambda>s. s\<lparr>tp_forwarded := tp_forwarded s
                      @ [\<lparr>fw_conn = observed, fw_target = target,
                          fw_tls_name = (if ic_tls observed \<and> tx_verify_upstream cfg then Some (ic_host observed) else None),
                          fw_sent = sent, fw_returned = returned\<rparr>]\<rparr>))
                    (case r of Inl e \<Rightarrow> py_raise e | Inr _ \<Rightarrow> py_return ()))
                 (close_upstream up)))"

section \<open>One connection\<close>

definition TLS_HANDSHAKE :: char where "TLS_HANDSHAKE = CHR 0x16"

text \<open>Address, port and whether they are the pre-NAT destination.\<close>

definition endpoint :: "sock \<Rightarrow> py_exn + string \<times> int \<times> bool" where
  "endpoint c =
     (case original_destination (sk_original_dst c) of
        Inl e \<Rightarrow> Inl e
      | Inr (Some (ip, port)) \<Rightarrow> Inr (ip, port, True)
      | Inr None \<Rightarrow> (case sk_name c of Inl e \<Rightarrow> Inl e | Inr (ip, port) \<Rightarrow> Inr (ip, port, False)))"

text \<open>\<^verbatim>\<open>conn.recv(1, MSG_PEEK)\<close>, an \<^verbatim>\<open>OSError\<close> read as no byte; the stream keeps the byte.\<close>

definition first_byte :: "stream \<Rightarrow> py_exn + bytes" where
  "first_byte s =
     (case recv 1 s of (Inl e, _) \<Rightarrow> if is_OSError e then Inr [] else Inl e | (Inr b, _) \<Rightarrow> Inr b)"

definition bare_observation :: "'t tconn \<Rightarrow> string \<Rightarrow> int \<Rightarrow> bool \<Rightarrow> bool \<Rightarrow> intercepted_connection" where
  "bare_observation c ip port redirected tls =
     \<lparr>ic_host = ip, ic_port = port, ic_path = None, ic_peer = sk_peer (tc_sock c), ic_redirected = redirected,
      ic_ip = Some ip, ic_tls = tls, ic_method = None\<rparr>"

text \<open>\<^verbatim>\<open>sni or host_hdr or ip\<close> and \<^verbatim>\<open>hdr_port or (443 if is_tls else 80)\<close>: empty and zero count as absent.\<close>

definition or_str :: "string option \<Rightarrow> string \<Rightarrow> string" where
  "or_str a b = (case a of None \<Rightarrow> b | Some x \<Rightarrow> if x = [] then b else x)"

definition or_int :: "int option \<Rightarrow> int \<Rightarrow> int" where
  "or_int a b = (case a of None \<Rightarrow> b | Some n \<Rightarrow> if n = 0 then b else n)"

definition request_observation ::
  "'t tconn \<Rightarrow> string \<Rightarrow> int \<Rightarrow> bool \<Rightarrow> bool \<Rightarrow> string option \<Rightarrow> parsed_head \<Rightarrow> intercepted_connection" where
  "request_observation c ip port redirected tls sni parsed =
     (case parsed of (verb, path, host_hdr, hdr_port) \<Rightarrow>
        \<lparr>ic_host = or_str sni (or_str host_hdr ip),
         ic_port = (if redirected then port else or_int hdr_port (if tls then 443 else 80)),
         ic_path = path, ic_peer = sk_peer (tc_sock c), ic_redirected = redirected, ic_ip = Some ip,
         ic_tls = tls, ic_method = verb\<rparr>)"

definition ask :: "('s, 't) term_config \<Rightarrow> 't tconn \<Rightarrow> intercepted_connection \<Rightarrow> (('w, 's, 'h) term_proxy, bool) py" where
  "ask cfg c obs = py_on tp_gate (\<lambda>g s. s\<lparr>tp_gate := g\<rparr>) (tx_decide cfg (tc_stamp c) obs)"

definition handle_request ::
  "('s, 't) term_config \<Rightarrow> 't tconn \<Rightarrow> string \<Rightarrow> int \<Rightarrow> bool \<Rightarrow> bool \<Rightarrow> string option \<Rightarrow> stream \<Rightarrow>
   (('w, 's, 'h) term_proxy, unit) py" where
  "handle_request cfg c ip port redirected tls sni stream =
     (case read_head stream of
        (Inl e, _) \<Rightarrow> py_raise e
      | (Inr head, rest) \<Rightarrow>
          (case parse_head head of
             Inl e \<Rightarrow> py_raise e
           | Inr parsed \<Rightarrow>
               (let observed = request_observation c ip port redirected tls sni parsed in
                py_seq (notify observed)
                  (py_bind (ask cfg c observed) (\<lambda>allowed.
                     if \<not> allowed then py_return () else forward cfg c rest observed head)))))"

text \<open>\<^verbatim>\<open>TerminatingProxy._handle_accepted\<close>.\<close>

definition term_handle :: "('s, 't) term_config \<Rightarrow> 't tconn \<Rightarrow> (('w, 's, 'h) term_proxy, unit) py" where
  "term_handle cfg c =
     (case endpoint (tc_sock c) of
        Inl e \<Rightarrow> py_raise e
      | Inr (ip, port, redirected) \<Rightarrow>
          (case first_byte (tc_raw c) of
             Inl e \<Rightarrow> py_raise e
           | Inr [] \<Rightarrow> notify (bare_observation c ip port redirected False)
           | Inr (b # _) \<Rightarrow>
               if b = TLS_HANDSHAKE then
                 py_bind (py_except is_OSError (py_bind (terminate_tls cfg c) (\<lambda>sni. py_return (Some sni))) (\<lambda>_. py_return None))
                   (\<lambda>r. case r of
                      None \<Rightarrow>
                        (let observed = bare_observation c ip port redirected True in
                         py_seq (notify observed) (py_bind (ask cfg c observed) (\<lambda>_. py_return ())))
                    | Some sni \<Rightarrow> handle_request cfg c ip port redirected True sni (tc_plain c))
               else handle_request cfg c ip port redirected False None (tc_raw c)))"

section \<open>Reading first, acting afterwards\<close>

text \<open>
  The same handler in the two parts every path through it has: up to the observation it
  reads the connection and shares nothing but the certificate authority; from there on it
  observes, asks and forwards.
\<close>

datatype plan =
    Unreadable py_exn
  | Silent intercepted_connection
  | Undecrypted intercepted_connection
  | Request intercepted_connection bytes stream

definition prepare_request ::
  "'t tconn \<Rightarrow> string \<Rightarrow> int \<Rightarrow> bool \<Rightarrow> bool \<Rightarrow> string option \<Rightarrow> stream \<Rightarrow> plan" where
  "prepare_request c ip port redirected tls sni stream =
     (case read_head stream of
        (Inl e, _) \<Rightarrow> Unreadable e
      | (Inr head, rest) \<Rightarrow>
          (case parse_head head of
             Inl e \<Rightarrow> Unreadable e
           | Inr parsed \<Rightarrow> Request (request_observation c ip port redirected tls sni parsed) head rest))"

definition prepare :: "('s, 't) term_config \<Rightarrow> 't tconn \<Rightarrow> ('w, 's, 'h) term_proxy \<Rightarrow> plan \<times> ('w, 's, 'h) term_proxy" where
  "prepare cfg c s =
     (case endpoint (tc_sock c) of
        Inl e \<Rightarrow> (Unreadable e, s)
      | Inr (ip, port, redirected) \<Rightarrow>
          (case first_byte (tc_raw c) of
             Inl e \<Rightarrow> (Unreadable e, s)
           | Inr [] \<Rightarrow> (Silent (bare_observation c ip port redirected False), s)
           | Inr (b # _) \<Rightarrow>
               if b = TLS_HANDSHAKE then
                 (case terminate_tls cfg c s of
                    (Inl x, s1) \<Rightarrow>
                      (if is_OSError x then Undecrypted (bare_observation c ip port redirected True) else Unreadable x, s1)
                  | (Inr sni, s1) \<Rightarrow> (prepare_request c ip port redirected True sni (tc_plain c), s1))
               else (prepare_request c ip port redirected False None (tc_raw c), s)))"

definition carry_out :: "('s, 't) term_config \<Rightarrow> 't tconn \<Rightarrow> plan \<Rightarrow> (('w, 's, 'h) term_proxy, unit) py" where
  "carry_out cfg c pl =
     (case pl of
        Unreadable e \<Rightarrow> py_raise e
      | Silent obs \<Rightarrow> notify obs
      | Undecrypted obs \<Rightarrow> py_seq (notify obs) (py_bind (ask cfg c obs) (\<lambda>_. py_return ()))
      | Request obs head rest \<Rightarrow>
          py_seq (notify obs)
            (py_bind (ask cfg c obs) (\<lambda>allowed. if \<not> allowed then py_return () else forward cfg c rest obs head)))"

text \<open>The question a plan puts to the decider.\<close>

fun asks :: "plan \<Rightarrow> intercepted_connection option" where
  "asks (Undecrypted obs) = Some obs"
| "asks (Request obs head rest) = Some obs"
| "asks _ = None"

section \<open>The handler of a connection\<close>

text \<open>
  \<^verbatim>\<open>_run_handler\<close>, the target of the connection's thread, and \<^verbatim>\<open>_dispatch\<close>, which starts it.
  A handler's steps on the proxy (observing, asking, forwarding) are run here when the
  thread is started; what a handler lets out ends its thread only.
\<close>

definition run_handler :: "('s, 't) term_config \<Rightarrow> 't tconn \<Rightarrow> (('w, 's, 'h) term_proxy, unit) py" where
  "run_handler cfg c = dispatch (\<lambda>_. term_handle cfg c) (tc_sock c)"

definition term_dispatch :: "('s, 't) term_config \<Rightarrow> 't tconn \<Rightarrow> (('w, 's, 'h) term_proxy, unit) py" where
  "term_dispatch cfg c s =
     (Inr (), snd (run_handler cfg c (s\<lparr>tp_handlers := tp_handlers s + 1\<rparr>)))"

definition term_stop :: "(('w, 's, 'h) term_proxy, unit) py" where
  "term_stop = py_seq proxy_stop (py_modify (\<lambda>s. s\<lparr>tp_handlers := 0\<rparr>))"

section \<open>What a forwarding carries\<close>

text \<open>
  The connection's cleartext: the stream behind the handshake, or the raw one. A forwarding
  is faithful to its connection when it goes where the resolver says, its method and path
  were parsed from the beginning of the cleartext, and what reached the upstream is the
  beginning of a tape of that same cleartext, head included: for a plain connection a
  prefix of it, for a TLS one a prefix of it or a cut of it and then what the client's bare
  socket yielded after the relay's other thread had dropped the TLS layer. The same holds of
  what reached the sandbox and the upstream's answer.
\<close>

definition clear_stream :: "'t tconn \<Rightarrow> bool \<Rightarrow> stream" where
  "clear_stream c tls = (if tls then tc_plain c else tc_raw c)"

definition faithful :: "('s, 't) term_config \<Rightarrow> 't tconn \<Rightarrow> forwarding \<Rightarrow> bool" where
  "faithful cfg c f \<longleftrightarrow>
     fw_target f = tx_upstream cfg (fw_conn f)
   \<and> (\<exists>head rest hh hp. bytes_of (clear_stream c (ic_tls (fw_conn f))) = head @ rest
        \<and> parse_head head = Inr (ic_method (fw_conn f), ic_path (fw_conn f), hh, hp))
   \<and> (\<exists>up x x' y y'. tc_connect c (fw_target f) = Inr up
        \<and> fw_sent f = se_sent (up_out up) @ x
        \<and> tape (tls_layer (ic_tls (fw_conn f)) (tc_wire c)) (clear_stream c (ic_tls (fw_conn f))) (x @ x')
        \<and> fw_returned f = se_sent (tc_out c) @ y
        \<and> tape (tls_layer (ic_tls (fw_conn f)) (up_wire up)) (up_in up) (y @ y'))"

lemma tape_after: "tape l rest z \<Longrightarrow> bytes_of src = head @ bytes_of rest \<Longrightarrow> tape l src (head @ z)"
  unfolding tape_def by (metis append.assoc)

lemma exchange_tapes:
  assumes "exchange verify tls up c head rest = (r, sent, ret)" "bytes_of src = head @ bytes_of rest"
  shows "(\<exists>x x'. sent = se_sent (up_out up) @ x \<and> tape (tls_layer tls (tc_wire c)) src (x @ x'))
    \<and> (\<exists>y y'. ret = se_sent (tc_out c) @ y \<and> tape (tls_layer tls (up_wire up)) (up_in up) (y @ y'))"
proof -
  have none: "\<exists>y y'. se_sent (tc_out c) = se_sent (tc_out c) @ y \<and> tape (tls_layer tls (up_wire up)) (up_in up) (y @ y')"
    using tape_whole [of "up_in up" "[] @ bytes_of (up_in up)"] by auto
  have part: "\<exists>x'. tape (tls_layer tls (tc_wire c)) src (x @ x')" if "prefix x head" for x
  proof -
    obtain w where "head = x @ w" using \<open>prefix x head\<close> by (auto simp: prefix_def)
    then have "bytes_of src = x @ w @ bytes_of rest" using assms(2) by simp
    then show ?thesis using tape_whole by blast
  qed
  show ?thesis
  proof (cases "if \<not> tls then None else if verify then up_verified up else up_unverified up")
    case (Some e)
    then have "sent = se_sent (up_out up)" "ret = se_sent (tc_out c)" using assms(1) by (auto simp: exchange_def split: if_splits)
    then show ?thesis using none part [of "[]"] by auto
  next
    case None
    obtain q d where d: "sendall head (up_out up) = (q, d)" by fastforce
    obtain x where x: "se_sent d = se_sent (up_out up) @ x" "prefix x head" "case q of Inl _ \<Rightarrow> True | Inr _ \<Rightarrow> x = head"
      using sendall_prefix [OF d] by blast
    show ?thesis
    proof (cases q)
      case (Inl e)
      then have "sent = se_sent d" "ret = se_sent (tc_out c)" using assms(1) None d by (auto simp: exchange_def split: if_splits)
      then show ?thesis using none part [OF x(2)] x(1) by auto
    next
      case (Inr u)
      let ?s = "\<lparr>ry_client_layer = tls_layer tls (tc_wire c), ry_client_in = rest, ry_client_out = tc_out c,
          ry_server_layer = tls_layer tls (up_wire up), ry_server_in = up_in up, ry_server_out = d\<rparr>"
      obtain q' y where y: "relay (tc_turns c) ?s = (q', y)" by fastforce
      then have e: "sent = se_sent (ry_server_out y)" "ret = se_sent (ry_client_out y)"
        using assms(1) None d Inr by (auto simp: exchange_def split: if_splits)
      obtain z z' where z: "se_sent (ry_server_out y) = se_sent d @ z" "tape (tls_layer tls (tc_wire c)) rest (z @ z')"
        using relay_carries(1) [OF y] by auto
      have "\<exists>x x'. sent = se_sent (up_out up) @ x \<and> tape (tls_layer tls (tc_wire c)) src (x @ x')"
        using tape_after [OF z(2) assms(2)] e(1) z(1) x Inr by (intro exI [of _ "head @ z"] exI [of _ z']) simp
      moreover have "\<exists>y y'. ret = se_sent (tc_out c) @ y \<and> tape (tls_layer tls (up_wire up)) (up_in up) (y @ y')"
        using relay_carries(2) [OF y] e(2) by auto
      ultimately show ?thesis by blast
    qed
  qed
qed

lemma forward_frame:
  assumes "forward cfg c rest obs head s = (r, s')"
  shows "s' = s \<or> (\<exists>f up q. s' = s\<lparr>tp_forwarded := tp_forwarded s @ [f]\<rparr> \<and> fw_conn f = obs
    \<and> fw_target f = tx_upstream cfg obs \<and> tc_connect c (fw_target f) = Inr up
    \<and> exchange (tx_verify_upstream cfg) (ic_tls obs) up c head rest = (q, fw_sent f, fw_returned f))"
proof (cases "tc_connect c (tx_upstream cfg obs)")
  case (Inl e)
  then show ?thesis using assms by (simp add: forward_def py_simps)
next
  case (Inr up)
  obtain q sent ret where x: "exchange (tx_verify_upstream cfg) (ic_tls obs) up c head rest = (q, sent, ret)"
    by (cases "exchange (tx_verify_upstream cfg) (ic_tls obs) up c head rest") auto
  let ?f = "\<lparr>fw_conn = obs, fw_target = tx_upstream cfg obs,
     fw_tls_name = (if ic_tls obs \<and> tx_verify_upstream cfg then Some (ic_host obs) else None),
     fw_sent = sent, fw_returned = ret\<rparr>"
  have "s' = s\<lparr>tp_forwarded := tp_forwarded s @ [?f]\<rparr>"
    using assms Inr x
    by (cases q; cases "up_close up") (auto simp: forward_def py_simps close_upstream_def split: if_splits)
  then show ?thesis using x Inr by (intro disjI2 exI [of _ ?f]) auto
qed

lemma term_proxy_frame:
  "notify obs s = (Inr (), s1) \<Longrightarrow>
     px_seen s1 = px_seen s @ [obs] \<and> tp_gate s1 = tp_gate s \<and> tp_forwarded s1 = tp_forwarded s \<and> tp_ca s1 = tp_ca s
     \<and> px_stop s1 = px_stop s \<and> px_closed s1 = px_closed s"
  for s s1 :: "('w, 's, 'h) term_proxy"
  using notify_returns [of obs s] by auto

section \<open>Mediation\<close>

text \<open>
  What handling one connection may do to the proxy: either it raised before observing
  anything, or it observed exactly one connection and forwarded it at most once, and then
  only a connection the decider permits, faithfully.
\<close>

definition mediated ::
  "('s, 't) term_config \<Rightarrow> (intercepted_connection \<Rightarrow> bool) \<Rightarrow> 't tconn \<Rightarrow> ('w, 's, 'h) term_proxy \<Rightarrow> py_exn + unit \<Rightarrow>
   ('w, 's, 'h) term_proxy \<Rightarrow> bool" where
  "mediated cfg permits c s r s' \<longleftrightarrow>
     px_stop s' = px_stop s \<and> px_closed s' = px_closed s
   \<and> (px_seen s' = px_seen s \<and> tp_forwarded s' = tp_forwarded s \<and> tp_gate s' = tp_gate s \<and> isl r
      \<or> (\<exists>obs. px_seen s' = px_seen s @ [obs]
           \<and> (tp_forwarded s' = tp_forwarded s
              \<or> (\<exists>f. tp_forwarded s' = tp_forwarded s @ [f] \<and> fw_conn f = obs \<and> permits obs \<and> faithful cfg c f))))"

lemma read_head_prefix: "read_head s = (Inr h, s') \<Longrightarrow> h @ bytes_of s' = bytes_of s"
  using read_head_loop_bytes [of "[]" s h s'] by (simp add: read_head_def)

lemma terminate_tls_frame: "terminate_tls cfg c s = (q, s1) \<Longrightarrow> \<exists>a. s1 = s\<lparr>tp_ca := a\<rparr>"
proof -
  assume t: "terminate_tls cfg c s = (q, s1)"
  show "\<exists>a. s1 = s\<lparr>tp_ca := a\<rparr>"
  proof (cases "tc_hello c")
    case (NoHello e)
    then show ?thesis using t by (intro exI [of _ "tp_ca s"]) (simp add: terminate_tls_def py_simps)
  next
    case (Hello name verdict)
    obtain z a where "on_sni cfg name (tp_ca s) = (z, a)" by fastforce
    then show ?thesis using t Hello
      by (intro exI [of _ a]; cases z; cases verdict) (simp_all add: terminate_tls_def py_simps)
  qed
qed

lemma handle_request_plan:
  "handle_request cfg c ip port red tls sni stream = carry_out cfg c (prepare_request c ip port red tls sni stream)"
  by (simp add: handle_request_def carry_out_def prepare_request_def Let_def split: prod.split sum.split)

lemma term_handle_plan: "term_handle cfg c s = (case prepare cfg c s of (pl, s1) \<Rightarrow> carry_out cfg c pl s1)"
proof (cases "\<exists>ip port red b bs. endpoint (tc_sock c) = Inr (ip, port, red) \<and> first_byte (tc_raw c) = Inr (b # bs)")
  case False
  then show ?thesis
    by (auto simp: term_handle_def prepare_def carry_out_def split: sum.split prod.split list.split)
next
  case True
  then obtain ip port red b bs where e: "endpoint (tc_sock c) = Inr (ip, port, red)" "first_byte (tc_raw c) = Inr (b # bs)"
    by blast
  obtain q s1 where q: "terminate_tls cfg c s = (q, s1)" by fastforce
  have t: "py_except is_OSError (py_bind (terminate_tls cfg c) (\<lambda>sni. py_return (Some sni))) (\<lambda>_. py_return None) s =
      (case q of Inl x \<Rightarrow> if is_OSError x then Inr None else Inl x | Inr sni \<Rightarrow> Inr (Some sni), s1)"
    using q by (cases q) (simp_all add: py_simps)
  show ?thesis
    using e q t by (cases q) (auto simp: term_handle_def prepare_def handle_request_plan Let_def py_bind_run py_raise_run carry_out_def)
qed

text \<open>Reading the connection touches the certificate authority only; what it can find out.\<close>

lemma prepare_frame: "prepare cfg c s = (pl, s1) \<Longrightarrow> \<exists>a. s1 = s\<lparr>tp_ca := a\<rparr>"
proof -
  assume p: "prepare cfg c s = (pl, s1)"
  obtain q s2 where q: "terminate_tls cfg c s = (q, s2)" by fastforce
  obtain a where a: "s2 = s\<lparr>tp_ca := a\<rparr>" using terminate_tls_frame [OF q] by blast
  have "s1 = s\<lparr>tp_ca := a\<rparr> \<or> s1 = s\<lparr>tp_ca := tp_ca s\<rparr>"
    using p q a by (auto simp: prepare_def split: sum.splits prod.splits list.splits if_splits)
  then show ?thesis by blast
qed

definition planned :: "'t tconn \<Rightarrow> plan \<Rightarrow> bool" where
  "planned c pl =
     (case pl of
        Unreadable e \<Rightarrow> True
      | Silent obs \<Rightarrow> \<exists>ip port red. endpoint (tc_sock c) = Inr (ip, port, red) \<and> obs = bare_observation c ip port red False
      | Undecrypted obs \<Rightarrow> \<exists>ip port red. endpoint (tc_sock c) = Inr (ip, port, red) \<and> obs = bare_observation c ip port red True
      | Request obs head rest \<Rightarrow>
          \<exists>ip port red tls sni parsed. endpoint (tc_sock c) = Inr (ip, port, red)
            \<and> obs = request_observation c ip port red tls sni parsed
            \<and> read_head (if tls then tc_plain c else tc_raw c) = (Inr head, rest) \<and> parse_head head = Inr parsed)"

lemma planned_request:
  assumes "endpoint (tc_sock c) = Inr (ip, port, red)" "stream = (if tls then tc_plain c else tc_raw c)"
  shows "planned c (prepare_request c ip port red tls sni stream)"
proof (cases "\<exists>head rest parsed. read_head stream = (Inr head, rest) \<and> parse_head head = Inr parsed")
  case True
  then obtain head rest parsed where h: "read_head stream = (Inr head, rest)" "parse_head head = Inr parsed" by blast
  then have r: "prepare_request c ip port red tls sni stream = Request (request_observation c ip port red tls sni parsed) head rest"
    by (simp add: prepare_request_def)
  show ?thesis unfolding r planned_def plan.case
    by (intro exI [of _ ip] exI [of _ port] exI [of _ red] exI [of _ tls] exI [of _ sni] exI [of _ parsed])
      (use assms h in simp)
next
  case False
  then show ?thesis by (auto simp: planned_def prepare_request_def split: prod.split sum.split)
qed

lemma prepare_planned:
  assumes "prepare cfg c s = (pl, s1)"
  shows "planned c pl"
proof (cases "\<exists>ip port red b bs. endpoint (tc_sock c) = Inr (ip, port, red) \<and> first_byte (tc_raw c) = Inr (b # bs)")
  case False
  then consider e where "pl = Unreadable e"
    | ip port red where "endpoint (tc_sock c) = Inr (ip, port, red)" "pl = Silent (bare_observation c ip port red False)"
    using assms by (auto simp: prepare_def split: sum.splits prod.splits list.splits)
  then show ?thesis by cases (simp_all add: planned_def)
next
  case True
  then obtain ip port red b bs where e: "endpoint (tc_sock c) = Inr (ip, port, red)" "first_byte (tc_raw c) = Inr (b # bs)"
    by blast
  obtain q s2 where q: "terminate_tls cfg c s = (q, s2)" by fastforce
  have "planned c (prepare_request c ip port red True sni (tc_plain c))" for sni by (rule planned_request [OF e(1)]) simp
  moreover have "planned c (prepare_request c ip port red False None (tc_raw c))" by (rule planned_request [OF e(1)]) simp
  moreover have "planned c (Undecrypted (bare_observation c ip port red True))" using e(1) by (simp add: planned_def)
  ultimately show ?thesis using assms e q
    by (cases q) (auto simp: prepare_def planned_def [of c "Unreadable _"] split: if_splits)
qed

lemma planned_cleartext:
  assumes "planned c (Request obs head rest)"
  shows "bytes_of (clear_stream c (ic_tls obs)) = head @ bytes_of rest"
    and "\<exists>hh hp. parse_head head = Inr (ic_method obs, ic_path obs, hh, hp)"
  using assms read_head_prefix
  by (auto simp: planned_def clear_stream_def request_observation_def split: if_splits prod.splits)

lemma forward_faithful:
  assumes "forward cfg c rest obs head s = (r, s')" "planned c (Request obs head rest)"
  shows "s' = s \<or> (\<exists>f. s' = s\<lparr>tp_forwarded := tp_forwarded s @ [f]\<rparr> \<and> fw_conn f = obs \<and> faithful cfg c f)"
proof (cases "s' = s")
  case False
  then obtain f up q where f: "s' = s\<lparr>tp_forwarded := tp_forwarded s @ [f]\<rparr>" "fw_conn f = obs"
      "fw_target f = tx_upstream cfg obs" "tc_connect c (fw_target f) = Inr up"
      "exchange (tx_verify_upstream cfg) (ic_tls obs) up c head rest = (q, fw_sent f, fw_returned f)"
    using forward_frame [OF assms(1)] by blast
  have "faithful cfg c f"
    using f(2-4) exchange_tapes [OF f(5) planned_cleartext(1) [OF assms(2)]] planned_cleartext [OF assms(2)]
    unfolding faithful_def by blast
  then show ?thesis using f(1,2) by blast
qed simp

context decider
begin

lemma ask_answers:
  assumes "tx_decide cfg = decide" "good (tp_gate s)" "fit (tc_stamp c) obs"
  obtains g where "ask cfg c obs s = (Inr (permits obs), s\<lparr>tp_gate := g\<rparr>)" "good g"
proof -
  obtain g where "decide (tc_stamp c) obs (tp_gate s) = (Inr (permits obs), g)" "good g"
    using decide_answers [OF assms(2,3)] by blast
  then show ?thesis using that assms(1) by (simp add: ask_def py_simps)
qed

lemma carry_out_mediated:
  fixes s :: "('w, 's, 'h) term_proxy"
  assumes cfg: "tx_decide cfg = decide" "good (tp_gate s)" "\<And>obs. fit (tc_stamp c) obs"
    and pl: "planned c pl" and run: "carry_out cfg c pl s = (r, s')"
  shows "mediated cfg permits c s r s' \<and> good (tp_gate s')"
proof (cases pl)
  case (Unreadable e)
  then show ?thesis using run cfg(2) by (auto simp: carry_out_def py_simps mediated_def)
next
  case (Silent obs)
  obtain s1 where n: "notify obs s = (Inr (), s1)" using notify_returns [of obs s] by blast
  then show ?thesis using Silent run cfg(2) term_proxy_frame [OF n] by (simp add: carry_out_def mediated_def)
next
  case (Undecrypted obs)
  obtain s1 where n: "notify obs s = (Inr (), s1)" using notify_returns [of obs s] by blast
  note f = term_proxy_frame [OF n]
  obtain g where g: "ask cfg c obs s1 = (Inr (permits obs), s1\<lparr>tp_gate := g\<rparr>)" "good g"
    using ask_answers [OF cfg(1) _ cfg(3), of s1 obs] f cfg(2) by auto
  then have "s' = s1\<lparr>tp_gate := g\<rparr>" using Undecrypted run n by (simp add: carry_out_def py_simps)
  then show ?thesis using f g(2) by (simp add: mediated_def)
next
  case (Request obs head rest)
  obtain s1 where n: "notify obs s = (Inr (), s1)" using notify_returns [of obs s] by blast
  note f = term_proxy_frame [OF n]
  obtain g where g: "ask cfg c obs s1 = (Inr (permits obs), s1\<lparr>tp_gate := g\<rparr>)" "good g"
    using ask_answers [OF cfg(1) _ cfg(3), of s1 obs] f cfg(2) by auto
  show ?thesis
  proof (cases "permits obs")
    case False
    then have "s' = s1\<lparr>tp_gate := g\<rparr>" using Request run n g by (simp add: carry_out_def py_simps)
    then show ?thesis using f g(2) by (simp add: mediated_def)
  next
    case True
    then have "forward cfg c rest obs head (s1\<lparr>tp_gate := g\<rparr>) = (r, s')"
      using Request run n g by (simp add: carry_out_def py_simps)
    from forward_faithful [OF this] pl Request show ?thesis
      using True f g(2) by (auto simp: mediated_def)
  qed
qed

lemma term_handle_mediated:
  fixes s :: "('w, 's, 'h) term_proxy"
  assumes cfg: "tx_decide cfg = decide" "good (tp_gate s)" "\<And>obs. fit (tc_stamp c) obs"
    and run: "term_handle cfg c s = (r, s')"
  shows "mediated cfg permits c s r s' \<and> good (tp_gate s')"
proof -
  obtain pl s1 where p: "prepare cfg c s = (pl, s1)" by fastforce
  obtain a where a: "s1 = s\<lparr>tp_ca := a\<rparr>" using prepare_frame [OF p] by blast
  have "carry_out cfg c pl s1 = (r, s')" using run p by (simp add: term_handle_plan)
  then have "mediated cfg permits c s1 r s' \<and> good (tp_gate s')"
    using carry_out_mediated [OF cfg(1) _ cfg(3) prepare_planned [OF p], of s1 r s'] cfg(2) a by simp
  then show ?thesis using a by (simp add: mediated_def)
qed

end

section \<open>A whole run of the proxy\<close>

lemma dispatch_frame:
  assumes "handle c s = (r, s')"
  shows "\<exists>q. dispatch handle c s = (q, s'\<lparr>px_closed := px_closed s' @ [c],
     px_callback_errors := px_callback_errors s' @ (case r of Inl e \<Rightarrow> if is_Exception e then [e] else [] | Inr _ \<Rightarrow> [])\<rparr>)"
  using assms
  by (cases r; cases "sk_close c") (auto simp: dispatch_def py_simps add_error_def close_sock_def)

lemma term_dispatch_frame:
  fixes s :: "('w, 's, 'h) term_proxy"
  assumes "term_handle cfg c (s\<lparr>tp_handlers := tp_handlers s + 1\<rparr>) = (r, s1)"
  shows "\<exists>errs. term_dispatch cfg c s = (Inr (), s1\<lparr>px_closed := px_closed s1 @ [tc_sock c],
     px_callback_errors := px_callback_errors s1 @ errs\<rparr>)"
  using dispatch_frame [of "\<lambda>_. term_handle cfg c" "tc_sock c", OF assms]
  by (auto simp: term_dispatch_def run_handler_def)

text \<open>The record of a run: what it observed and forwarded, given the connections it served.\<close>

definition mediated_run ::
  "('s, 't) term_config \<Rightarrow> (intercepted_connection \<Rightarrow> bool) \<Rightarrow> 't tconn list \<Rightarrow> ('w, 's, 'h) term_proxy \<Rightarrow>
   ('w, 's, 'h) term_proxy \<Rightarrow> bool" where
  "mediated_run cfg permits cs s s' \<longleftrightarrow>
     (\<exists>obs fs. px_seen s' = px_seen s @ obs \<and> tp_forwarded s' = tp_forwarded s @ fs
        \<and> px_closed s' = px_closed s @ map tc_sock cs
        \<and> length obs \<le> length cs \<and> subseq (map fw_conn fs) obs
        \<and> (\<forall>f \<in> set fs. permits (fw_conn f) \<and> (\<exists>c \<in> set cs. faithful cfg c f)))"

lemma mediated_run_Nil: "mediated_run cfg permits [] s s"
  by (simp add: mediated_run_def)

lemma mediated_run_step:
  fixes s :: "('w, 's, 'h) term_proxy"
  assumes m: "mediated cfg permits c s r s1" and run: "mediated_run cfg permits cs s2 s'"
    and s2: "px_seen s2 = px_seen s1" "tp_forwarded s2 = tp_forwarded s1" "px_closed s2 = px_closed s1 @ [tc_sock c]"
  shows "mediated_run cfg permits (c # cs) s s'"
proof -
  obtain obs fs where o: "px_seen s' = px_seen s1 @ obs" "tp_forwarded s' = tp_forwarded s1 @ fs"
      "px_closed s' = px_closed s1 @ tc_sock c # map tc_sock cs" "length obs \<le> length cs"
      "subseq (map fw_conn fs) obs" "\<forall>f \<in> set fs. permits (fw_conn f) \<and> (\<exists>c \<in> set cs. faithful cfg c f)"
    using run s2 unfolding mediated_run_def by auto
  have cl: "px_closed s1 = px_closed s" using m by (simp add: mediated_def)
  consider (none) "px_seen s1 = px_seen s" "tp_forwarded s1 = tp_forwarded s"
    | (seen) ob where "px_seen s1 = px_seen s @ [ob]" "tp_forwarded s1 = tp_forwarded s"
    | (fwd) f where "px_seen s1 = px_seen s @ [fw_conn f]" "tp_forwarded s1 = tp_forwarded s @ [f]"
        "permits (fw_conn f)" "faithful cfg c f"
    using m unfolding mediated_def by metis
  then show ?thesis
  proof cases
    case none
    then show ?thesis unfolding mediated_run_def using o cl
      by (intro exI [of _ obs] exI [of _ fs]) auto
  next
    case seen
    then show ?thesis unfolding mediated_run_def using o cl
      by (intro exI [of _ "ob # obs"] exI [of _ fs]) auto
  next
    case fwd
    then show ?thesis unfolding mediated_run_def using o cl
      by (intro exI [of _ "fw_conn f # obs"] exI [of _ "f # fs"]) auto
  qed
qed

context decider
begin

lemma serve_mediated:
  fixes s :: "('w, 's, 'h) term_proxy"
  assumes cfg: "tx_decide cfg = decide" "\<And>t obs. fit t obs"
  shows "good (tp_gate s) \<Longrightarrow> \<not> px_stop s \<Longrightarrow> mediated_run cfg permits (served evs) s (serve (term_dispatch cfg) evs s)
    \<and> good (tp_gate (serve (term_dispatch cfg) evs s))"
proof (induction evs arbitrary: s)
  case Nil
  then show ?case by (simp add: mediated_run_Nil)
next
  case (Cons ev evs)
  show ?case
  proof (cases ev)
    case StopSet
    then show ?thesis using Cons.prems by (cases evs) (simp_all add: mediated_run_def)
  next
    case (Accepted c)
    let ?s0 = "s\<lparr>tp_handlers := tp_handlers s + 1\<rparr>"
    obtain r s1 where h: "term_handle cfg c ?s0 = (r, s1)" by fastforce
    have m: "mediated cfg permits c ?s0 r s1" "good (tp_gate s1)"
      using term_handle_mediated [OF cfg(1) _ cfg(2) h] Cons.prems(1) by simp_all
    obtain errs where d: "term_dispatch cfg c s = (Inr (), s1\<lparr>px_closed := px_closed s1 @ [tc_sock c],
        px_callback_errors := px_callback_errors s1 @ errs\<rparr>)" (is "_ = (_, ?s2)")
      using term_dispatch_frame [OF h] by blast
    have "px_stop s1 = px_stop s" using m(1) by (simp add: mediated_def)
    then have IH: "mediated_run cfg permits (served evs) ?s2 (serve (term_dispatch cfg) evs ?s2)"
        "good (tp_gate (serve (term_dispatch cfg) evs ?s2))"
      using Cons.IH [of ?s2] m(2) Cons.prems(2) by simp_all
    have "mediated cfg permits c s r s1" using m(1) by (simp add: mediated_def)
    then have "mediated_run cfg permits (c # served evs) s (serve (term_dispatch cfg) evs ?s2)"
      by (rule mediated_run_step [OF _ IH(1)]) simp_all
    then show ?thesis using Accepted d IH(2) Cons.prems(2) by simp
  qed (use Cons in \<open>simp_all add: mediated_run_Nil\<close>)
qed

end

section \<open>What a permitted request gets\<close>

text \<open>An upstream that accepts the connection and works until it closes.\<close>

definition working_upstream :: "bool \<Rightarrow> bool \<Rightarrow> upstream \<Rightarrow> bool" where
  "working_upstream verify tls up \<longleftrightarrow>
     (\<not> tls \<or> (if verify then up_verified up else up_unverified up) = None)
   \<and> clean_end (up_out up) \<and> se_sent (up_out up) = [] \<and> steady (up_in up) \<and> up_close up = None"

lemma exchange_relays:
  assumes "working_upstream verify tls up"
  shows "exchange verify tls up c head rest =
    (case relay (tc_turns c)
            \<lparr>ry_client_layer = tls_layer tls (tc_wire c), ry_client_in = rest, ry_client_out = tc_out c,
             ry_server_layer = tls_layer tls (up_wire up), ry_server_in = up_in up, ry_server_out = (up_out up)\<lparr>se_sent := head\<rparr>\<rparr> of
       (r, y) \<Rightarrow> (r, se_sent (ry_server_out y), se_sent (ry_client_out y)))"
proof -
  have s: "sendall head (up_out up) = (Inr (), (up_out up)\<lparr>se_sent := head\<rparr>)"
    using assms by (simp add: sendall_def working_upstream_def clean_end_def)
  have w: "(if \<not> tls then None else if verify then up_verified up else up_unverified up) = None"
    using assms by (auto simp: working_upstream_def)
  show ?thesis unfolding exchange_def w by (simp add: s)
qed

text \<open>
  Without TLS the upstream gets everything; the answer comes back as far as the relay waited
  for it. With TLS the upstream gets everything if the client closed its half first.
\<close>

lemma exchange_plain:
  assumes "working_upstream verify False up" "clean_end (tc_out c)" "se_sent (tc_out c) = []" "steady rest"
  shows "\<exists>ret. exchange verify False up c head rest = (Inr (), head @ bytes_of rest, ret) \<and> prefix ret (bytes_of (up_in up))
    \<and> (JoinTimeout \<in> set (tc_turns c) \<or> ret = bytes_of (up_in up))"
proof -
  let ?s = "\<lparr>ry_client_layer = tls_layer False (tc_wire c), ry_client_in = rest, ry_client_out = tc_out c,
      ry_server_layer = tls_layer False (up_wire up), ry_server_in = up_in up, ry_server_out = (up_out up)\<lparr>se_sent := head\<rparr>\<rparr>"
  obtain r y where y: "relay (tc_turns c) ?s = (r, y)" by fastforce
  have c: "ry_client_layer ?s = Plain" "ry_server_layer ?s = Plain" "steady (ry_client_in ?s)" "steady (ry_server_in ?s)"
      "clean_end (ry_client_out ?s)" "clean_end (ry_server_out ?s)"
    using assms by (simp_all add: working_upstream_def clean_end_def tls_layer_def)
  have "prefix (se_sent (ry_client_out y)) (bytes_of (up_in up))"
    using relay_carries(2) [OF y] assms(3) by (auto simp: tape_def tls_layer_def) (metis prefixI)
  then show ?thesis
    using plain_request [OF c y] plain_answer [OF c y] assms(3) unfolding exchange_relays [OF assms(1)] y by auto
qed

lemma exchange_client_first:
  assumes "working_upstream verify tls up" "steady rest" "Side \<notin> set (tc_turns c)"
  shows "\<exists>ret. exchange verify tls up c head rest = (Inr (), head @ bytes_of rest, ret)"
proof -
  let ?s = "\<lparr>ry_client_layer = tls_layer tls (tc_wire c), ry_client_in = rest, ry_client_out = tc_out c,
      ry_server_layer = tls_layer tls (up_wire up), ry_server_in = up_in up, ry_server_out = (up_out up)\<lparr>se_sent := head\<rparr>\<rparr>"
  have c: "steady (ry_client_in ?s)" "clean_end (ry_server_out ?s)" "intact (ry_client_layer ?s)"
    using assms(1,2) by (simp_all add: working_upstream_def clean_end_def tls_layer_def)
  from client_first_whole [OF this assms(3)] show ?thesis
    unfolding exchange_relays [OF assms(1)] by auto
qed

text \<open>The forwarding of a connection whose upstream could be reached.\<close>

definition forwarding_of ::
  "('s, 't) term_config \<Rightarrow> intercepted_connection \<Rightarrow> bytes \<Rightarrow> bytes \<Rightarrow> forwarding" where
  "forwarding_of cfg obs sent returned =
     \<lparr>fw_conn = obs, fw_target = tx_upstream cfg obs,
      fw_tls_name = (if ic_tls obs \<and> tx_verify_upstream cfg then Some (ic_host obs) else None),
      fw_sent = sent, fw_returned = returned\<rparr>"

lemma forward_working:
  assumes "tc_connect c (tx_upstream cfg obs) = Inr up" "up_close up = None"
    and "exchange (tx_verify_upstream cfg) (ic_tls obs) up c head rest = (r, sent, ret)"
  shows "forward cfg c rest obs head s = (r, s\<lparr>tp_forwarded := tp_forwarded s @ [forwarding_of cfg obs sent ret]\<rparr>)"
  using assms by (cases r) (simp_all add: forward_def Let_def py_simps close_upstream_def forwarding_of_def)

context decider
begin

lemma request_decided:
  fixes s :: "('w, 's, 'h) term_proxy"
  assumes cfg: "tx_decide cfg = decide" "good (tp_gate s)" "fit (tc_stamp c) obs"
    and head: "read_head stream = (Inr head, rest)" "parse_head head = Inr parsed"
    and obs: "obs = request_observation c ip port red tls sni parsed"
  obtains s1 g where "notify obs s = (Inr (), s1)"
    "decide (tc_stamp c) obs (tp_gate s) = (Inr (permits obs), g)"
    "handle_request cfg c ip port red tls sni stream s =
       (if permits obs then forward cfg c rest obs head (s1\<lparr>tp_gate := g\<rparr>) else (Inr (), s1\<lparr>tp_gate := g\<rparr>))"
proof -
  obtain s1 where n: "notify obs s = (Inr (), s1)" using notify_returns [of obs s] by blast
  obtain g where g: "decide (tc_stamp c) obs (tp_gate s) = (Inr (permits obs), g)"
    using decide_answers [OF cfg(2,3)] by blast
  have a: "ask cfg c obs s1 = (Inr (permits obs), s1\<lparr>tp_gate := g\<rparr>)"
    using g cfg(1) term_proxy_frame [OF n] by (simp add: ask_def py_simps)
  show ?thesis
    by (rule that [OF n g]) (use head n a in \<open>cases "permits obs"; simp add: handle_request_def py_simps Let_def obs [symmetric]\<close>)
qed

end

end
