(* ===== verification/Egress.thy ===== *)
theory Egress
  imports Terminate
begin

text \<open>
  The parts together: a terminating proxy whose decider is the policy gate, whose supervisor
  drives a kill backend. What leaves the sandbox, what is recorded of it, and where the
  chain from a connection to a decision breaks.
\<close>

section \<open>Only what the policy lists is forwarded\<close>

text \<open>
  C6. Whatever connections the sandbox makes, in whatever order, however their bytes are cut,
  whatever the handshakes, upstreams and sockets do and however the threads of the relays are
  scheduled: everything the proxy forwarded is an observed connection with a path, on a host,
  port and path prefix the policy lists; its path was parsed from the connection's own first
  request line, and the upstream received bytes of that connection only: of a plain one a
  prefix of its bytes, of a TLS one a prefix of its cleartext, or a cut of it followed by a
  beginning of what its bare socket yielded after the upstream had closed.
\<close>
theorem gated_egress:
  fixes s :: "('w, ('k sink, 'b gvisor) supervisor, 'h) term_proxy"
  assumes "tx_decide cfg = decide (emit fr) gvisor_backend p"
    and "tame_tee (sup_sink (tp_gate s))" "gvisor_total (sup_backend (tp_gate s))" "\<not> px_stop s"
  shows "\<exists>fs. tp_forwarded (serve (term_dispatch cfg) evs s) = tp_forwarded s @ fs
    \<and> (\<forall>f \<in> set fs. \<exists>path. ic_path (fw_conn f) = Some path
         \<and> network_allowed p (ic_host (fw_conn f)) (ic_port (fw_conn f)) path
         \<and> fw_conn f \<in> set (px_seen (serve (term_dispatch cfg) evs s))
         \<and> (\<exists>c \<in> set (served evs). faithful cfg c f))"
proof -
  have "mediated_run cfg (gate_permits p) (served evs) s (serve (term_dispatch cfg) evs s)"
    using gvisor_gate.serve_mediated [OF assms(1), of s evs] assms(2-4) by simp
  then obtain obs fs where o: "px_seen (serve (term_dispatch cfg) evs s) = px_seen s @ obs"
      "tp_forwarded (serve (term_dispatch cfg) evs s) = tp_forwarded s @ fs" "subseq (map fw_conn fs) obs"
      "\<forall>f \<in> set fs. gate_permits p (fw_conn f) \<and> (\<exists>c \<in> set (served evs). faithful cfg c f)"
    unfolding mediated_run_def by blast
  have "fw_conn f \<in> set obs" if "f \<in> set fs" for f
    using list_emb_set [OF o(3), of "fw_conn f"] that by auto
  then show ?thesis using o by (intro exI [of _ fs]) (fastforce simp: gate_permits_def split: option.splits)
qed

section \<open>A redirected plain HTTP request, end to end\<close>

text \<open>
  A connection the sandbox dialled to \<open>addr:port\<close>, redirected by the kernel, on which it
  sends a request as a client writes it.
\<close>

definition redirected_http ::
  "16 word \<Rightarrow> 8 word list \<Rightarrow> string \<Rightarrow> string \<Rightarrow> string \<Rightarrow> (string \<times> string) list \<Rightarrow> bytes \<Rightarrow> 't tconn \<Rightarrow> bool" where
  "redirected_http port addr m t w hs body c \<longleftrightarrow>
     (\<exists>family. sk_original_dst (tc_sock c) = Inr (sockaddr_in family port addr)) \<and> length addr = 4
   \<and> request_stream m t w hs body (tc_raw c) \<and> m \<noteq> [] \<and> hd m \<noteq> TLS_HANDSHAKE"

definition http_observation ::
  "'t tconn \<Rightarrow> 16 word \<Rightarrow> 8 word list \<Rightarrow> string \<Rightarrow> string \<Rightarrow> string \<Rightarrow> intercepted_connection" where
  "http_observation c port addr m t name =
     \<lparr>ic_host = name, ic_port = uint port, ic_path = Some t, ic_peer = sk_peer (tc_sock c), ic_redirected = True,
      ic_ip = Some (inet_ntoa addr), ic_tls = False, ic_method = Some m\<rparr>"

lemma first_byte_steady: "steady s \<Longrightarrow> bytes_of s = b # bs \<Longrightarrow> first_byte s = Inr [b]"
  by (cases s rule: steady.cases) (auto simp: first_byte_def neq_Nil_conv split: if_splits)

lemma render_head_hd: "m \<noteq> [] \<Longrightarrow> \<exists>bs. render_head m t v hs @ body = hd m # bs"
  by (cases m) (auto simp: render_head_def intercalate_def)

lemma redirected_http_handle:
  assumes "redirected_http port addr m t w hs body c"
  shows "term_handle cfg c s = handle_request cfg c (inet_ntoa addr) (uint port) True False None (tc_raw c) s"
proof -
  obtain family where fam: "sk_original_dst (tc_sock c) = Inr (sockaddr_in family port addr)"
    using assms by (auto simp: redirected_http_def)
  have r: "length addr = 4" "m \<noteq> []"
      "hd m \<noteq> TLS_HANDSHAKE" "steady (tc_raw c)" "bytes_of (tc_raw c) = render_head m t (''HTTP/1.'' @ w) hs @ body"
    using assms by (simp_all add: redirected_http_def request_stream_def)
  obtain bs where "bytes_of (tc_raw c) = hd m # bs" using render_head_hd [OF r(2)] r(5) by metis
  then have "first_byte (tc_raw c) = Inr [hd m]" using first_byte_steady [OF r(4)] by blast
  moreover have "endpoint (tc_sock c) = Inr (inet_ntoa addr, uint port, True)"
    using fam original_destination_sockaddr [OF r(1)] by (simp add: endpoint_def)
  ultimately show ?thesis using r(3) by (simp add: term_handle_def)
qed

lemma redirected_http_head:
  assumes "redirected_http port addr m t w hs body c" "host_header hs = Some (n, host_value name pt)" "name_ok name"
    and "case pt of None \<Rightarrow> True | Some q \<Rightarrow> q < 65536"
  obtains head rest where "read_head (tc_raw c) = (Inr head, rest)" "steady rest" "head @ bytes_of rest = bytes_of (tc_raw c)"
    "parse_head head = Inr (Some m, Some t, Some name, map_option int pt)"
    "request_observation c (inet_ntoa addr) (uint port) True False None (Some m, Some t, Some name, map_option int pt) =
       http_observation c port addr m t name"
proof -
  have q: "request_stream m t w hs body (tc_raw c)" using assms(1) by (simp add: redirected_http_def)
  then have w: "plain m" "plain t" "starts_with t ''/''" "plain w" "list_all header_ok hs"
    by (simp_all add: request_stream_def)
  obtain head rest where h: "read_head (tc_raw c) = (Inr head, rest)" "steady rest" "head @ bytes_of rest = bytes_of (tc_raw c)"
      "parse_head head = parse_head (render_head m t (''HTTP/1.'' @ w) hs @ body)"
    using read_request_stream [OF q] by blast
  have "parse_head head = Inr (Some m, Some t, Some name, map_option int pt)"
    using h(4) parse_render_head [OF w, of body] assms(2) host_field_value [OF assms(3,4)] by simp
  moreover have "name \<noteq> []" using assms(3) by (simp add: name_ok_def)
  ultimately show ?thesis
    using that [OF h(1-3)] by (simp add: request_observation_def http_observation_def or_str_def)
qed

lemma request_forwarded:
  fixes s :: "('w, ('k sink, 'b gvisor) supervisor, 'h) term_proxy"
  assumes cfg: "tx_decide cfg = decide (emit fr) gvisor_backend p"
    and good: "tame_tee (sup_sink (tp_gate s))" "gvisor_total (sup_backend (tp_gate s))"
    and head: "read_head stream = (Inr head, rest)" "parse_head head = Inr parsed"
    and obs: "obs = request_observation c ip port red tls sni parsed" "gate_permits p obs"
    and up: "tc_connect c (tx_upstream cfg obs) = Inr up" "up_close up = None"
      "exchange (tx_verify_upstream cfg) (ic_tls obs) up c head rest = (r, sent, ret)"
  shows "\<exists>s'. handle_request cfg c ip port red tls sni stream s = (r, s')
    \<and> tp_forwarded s' = tp_forwarded s @ [forwarding_of cfg obs sent ret]"
proof -
  have g: "tame_tee (sup_sink (tp_gate s)) \<and> gvisor_total (sup_backend (tp_gate s))" using good by simp
  obtain s1 g' where d: "notify obs s = (Inr (), s1)"
      "handle_request cfg c ip port red tls sni stream s =
        (if gate_permits p obs then forward cfg c rest obs head (s1\<lparr>tp_gate := g'\<rparr>) else (Inr (), s1\<lparr>tp_gate := g'\<rparr>))"
    using gvisor_gate.request_decided [OF cfg g TrueI head obs(1)] by blast
  have "tp_forwarded s1 = tp_forwarded s" using term_proxy_frame [OF d(1)] by simp
  then show ?thesis
    unfolding d(2) using obs(2) forward_working [OF up, of "s1\<lparr>tp_gate := g'\<rparr>"]
    by (intro exI [of _ "s1\<lparr>tp_gate := g', tp_forwarded := tp_forwarded s1 @ [forwarding_of cfg obs sent ret]\<rparr>"]) simp
qed

text \<open>
  C13. A request the policy lists, by the name in its \<^verbatim>\<open>Host\<close> header, on a plain connection whose
  upstream can be reached and works: the upstream receives every byte the client sent, also
  those after the first request; the client has a beginning of the answer when the relay
  returns, and the whole answer unless the relay's \<^verbatim>\<open>join\<close> timed out. The connection goes to
  the address the client dialled, whatever it is: nothing relates it to the name the policy
  was asked about.
\<close>
theorem permitted_request_is_forwarded:
  fixes s :: "('w, ('k sink, 'b gvisor) supervisor, 'h) term_proxy"
  assumes "tx_decide cfg = decide (emit fr) gvisor_backend p" "tx_upstream cfg = default_upstream"
    and "tame_tee (sup_sink (tp_gate s))" "gvisor_total (sup_backend (tp_gate s))"
    and "redirected_http port addr m t w hs body c" "host_header hs = Some (n, host_value name pt)" "name_ok name"
    and "case pt of None \<Rightarrow> True | Some q \<Rightarrow> q < 65536"
    and "network_allowed p name (uint port) t"
    and "tc_connect c (inet_ntoa addr, uint port) = Inr up" "working_upstream (tx_verify_upstream cfg) False up"
    and "clean_end (tc_out c)" "se_sent (tc_out c) = []"
  shows "\<exists>s' f. term_handle cfg c s = (Inr (), s') \<and> tp_forwarded s' = tp_forwarded s @ [f]
    \<and> fw_target f = (inet_ntoa addr, uint port) \<and> fw_conn f = http_observation c port addr m t name
    \<and> fw_sent f = bytes_of (tc_raw c) \<and> prefix (fw_returned f) (bytes_of (up_in up))
    \<and> (JoinTimeout \<in> set (tc_turns c) \<or> fw_returned f = bytes_of (up_in up))"
proof -
  let ?obs = "http_observation c port addr m t name"
  obtain head rest where h: "read_head (tc_raw c) = (Inr head, rest)" "steady rest" "head @ bytes_of rest = bytes_of (tc_raw c)"
      "parse_head head = Inr (Some m, Some t, Some name, map_option int pt)"
      "?obs = request_observation c (inet_ntoa addr) (uint port) True False None (Some m, Some t, Some name, map_option int pt)"
    using redirected_http_head [OF assms(5-8)] by metis
  have perm: "gate_permits p ?obs" using assms(9) by (simp add: gate_permits_def http_observation_def)
  have "inet_ntoa addr \<noteq> []"
    using assms(5) by (cases addr) (auto simp: redirected_http_def inet_ntoa_def intercalate_def)
  then have tgt: "tx_upstream cfg ?obs = (inet_ntoa addr, uint port)"
    using assms(2) by (simp add: default_upstream_def http_observation_def)
  obtain ret where x: "exchange (tx_verify_upstream cfg) False up c head rest = (Inr (), head @ bytes_of rest, ret)"
      "prefix ret (bytes_of (up_in up))" "JoinTimeout \<in> set (tc_turns c) \<or> ret = bytes_of (up_in up)"
    using exchange_plain [OF assms(11-13) h(2)] by blast
  have up: "tc_connect c (tx_upstream cfg ?obs) = Inr up" "up_close up = None"
      "exchange (tx_verify_upstream cfg) (ic_tls ?obs) up c head rest = (Inr (), head @ bytes_of rest, ret)"
    using assms(10,11) tgt x(1) by (simp_all add: http_observation_def working_upstream_def)
  from request_forwarded [OF assms(1,3,4) h(1,4,5) perm up]
  obtain s' where "term_handle cfg c s = (Inr (), s')"
      "tp_forwarded s' = tp_forwarded s @ [forwarding_of cfg ?obs (head @ bytes_of rest) ret]"
    unfolding redirected_http_handle [OF assms(5)] by blast
  then show ?thesis using h(3) tgt x(2,3)
    by (intro exI [of _ s'] exI [of _ "forwarding_of cfg ?obs (head @ bytes_of rest) ret"])
      (simp add: forwarding_of_def)
qed

section \<open>A concrete proxy\<close>

definition demo_policy :: policy where
  "demo_policy = npm_policy\<lparr>pol_network_rules := [\<lparr>nr_host = ''pypi.org'', nr_port = 80, nr_path_prefix = ''/simple/''\<rparr>]\<rparr>"

definition demo_config :: "((unit sink, unit gvisor) supervisor, stamp) term_config" where
  "demo_config =
     \<lparr>tx_decide = decide (emit demo_fr) gvisor_backend demo_policy, tx_upstream = default_upstream,
      tx_verify_upstream = True, tx_load = (\<lambda>_. None)\<rparr>"

definition demo_term :: "(unit, (unit sink, unit gvisor) supervisor, string list list) term_proxy" where
  "demo_term = proxy.extend (proxy_init None ''127.0.0.1'' 0 ())
     \<lparr>tp_gate = supervisor_init demo_gvisor demo_tee ''run-1'' (Some [''tok-1'']), tp_ca = demo_ca, tp_handlers = 0,
      tp_forwarded = []\<rparr>"

text \<open>A toy record layer: each byte behind a type byte.\<close>

definition sealed :: "stream \<Rightarrow> stream" where
  "sealed s = [Data (concat (map (\<lambda>b. [CHR 0x17, b]) (bytes_of s)))]"

definition demo_upstream :: upstream where
  "demo_upstream =
     \<lparr>up_verified = None, up_unverified = None, up_in = [Data ''HTTP/1.1 '', Data ''200 OK''], up_wire = sealed,
      up_out = fresh_end [] None,
      up_close = None\<rparr>"

definition demo_head :: "string \<Rightarrow> bytes" where
  "demo_head host = render_head ''GET'' ''/simple/foo/'' (''HTTP/1.'' @ ''1'') [(''Host'', host)]"

definition demo_tconn :: "stream \<Rightarrow> stamp tconn" where
  "demo_tconn raw =
     \<lparr>tc_sock = demo_sock\<lparr>sk_original_dst := Inr (sockaddr_in 0x0200 80 [1, 1, 1, 1])\<rparr>, tc_raw = raw,
      tc_hello = NoHello (Exn SSLErrorC ''unknown ca''), tc_plain = [], tc_wire = sealed, tc_turns = [Main, Side], tc_out = fresh_end [] None,
      tc_connect = (\<lambda>_. Inr demo_upstream), tc_stamp = demo_stamp\<rparr>"

lemma demo_ntoa: "inet_ntoa [1, 1, 1, 1] = ''1.1.1.1''"
  by code_simp

lemma demo_term_good: "tame_tee (sup_sink (tp_gate demo_term))" "gvisor_total (sup_backend (tp_gate demo_term))"
    "\<not> px_stop demo_term" "\<not> sup_killed (tp_gate demo_term)"
  by (simp_all add: demo_term_def supervisor_init_def demo_gvisor_total demo_tee_def tee_init_def proxy.defs term_proxy.defs proxy_init_def)

lemma demo_config_sel [simp]:
  "tx_decide demo_config = decide (emit demo_fr) gvisor_backend demo_policy" "tx_upstream demo_config = default_upstream"
  by (simp_all add: demo_config_def)

lemma demo_plain:
  "plain ''GET''" "plain ''/simple/foo/''" "starts_with ''/simple/foo/'' ''/''" "plain ''1''" "''GET'' \<noteq> []"
  "hd ''GET'' \<noteq> TLS_HANDSHAKE"
  by code_simp+

lemma demo_host: "lower ''Host'' = ''host''" "header_ok (''Host'', ''pypi.org'')" "header_ok (''Host'', ''evil.org'')"
  "name_ok ''pypi.org''" "name_ok ''evil.org''"
  by code_simp+

lemma demo_redirected:
  assumes "header_ok (''Host'', host)" "steady raw" "bytes_of raw = demo_head host @ body" "length host < 1000"
  shows "redirected_http 80 [1, 1, 1, 1] ''GET'' ''/simple/foo/'' ''1'' [(''Host'', host)] body (demo_tconn raw)"
proof -
  have "length (demo_head host) \<le> 65537"
    using assms(4) by (simp add: demo_head_def render_head_def intercalate_def header_line_def CRLF_def)
  moreover have "\<exists>family. sk_original_dst (tc_sock (demo_tconn raw)) = Inr (sockaddr_in family 80 [1, 1, 1, 1])"
    by (intro exI [of _ "0x0200"]) (simp add: demo_tconn_def)
  ultimately show ?thesis using assms(1-3) demo_plain
    by (simp add: redirected_http_def request_stream_def demo_tconn_def demo_head_def)
qed

definition demo_raw :: "string \<Rightarrow> stream" where
  "demo_raw host = [Data (take 9 (demo_head host)), Data (drop 9 (demo_head host)), Data ''GET /second'']"

lemma demo_raw: "steady (demo_raw ''pypi.org'')" "bytes_of (demo_raw ''pypi.org'') = demo_head ''pypi.org'' @ ''GET /second''"
  "steady (demo_raw ''evil.org'')" "bytes_of (demo_raw ''evil.org'') = demo_head ''evil.org'' @ ''GET /second''"
  by code_simp+

lemma demo_allowed: "network_allowed demo_policy ''pypi.org'' 80 ''/simple/foo/''"
  "\<not> network_allowed demo_policy ''evil.org'' 80 ''/simple/foo/''"
  by code_simp+

lemma demo_host_header: "host_header [(''Host'', v)] = Some (''Host'', host_value v None)"
  by (simp add: host_header_def host_value_def demo_host(1))

theorem permitted_request_is_forwarded_witness:
  "\<exists>s' f. term_handle demo_config (demo_tconn (demo_raw ''pypi.org'')) demo_term = (Inr (), s')
    \<and> tp_forwarded s' = [f] \<and> fw_target f = (''1.1.1.1'', 80)
    \<and> fw_sent f = demo_head ''pypi.org'' @ ''GET /second'' \<and> fw_returned f = ''HTTP/1.1 200 OK''"
proof -
  note a = demo_ntoa
  have c: "tc_connect (demo_tconn raw) t = Inr demo_upstream" "clean_end (tc_out (demo_tconn raw))"
    "se_sent (tc_out (demo_tconn raw)) = []" for raw t
    by (simp_all add: demo_tconn_def clean_end_def fresh_end_def)
  have up: "working_upstream v False demo_upstream" "bytes_of (up_in demo_upstream) = ''HTTP/1.1 200 OK''" for v
    by (simp_all add: working_upstream_def demo_upstream_def fresh_end_def clean_end_def)
  note pre = demo_redirected [OF demo_host(2) demo_raw(1,2)]
  have r: "redirected_http 80 [1, 1, 1, 1] ''GET'' ''/simple/foo/'' ''1'' [(''Host'', ''pypi.org'')] ''GET /second''
      (demo_tconn (demo_raw ''pypi.org''))" by (rule pre) simp
  have n: "network_allowed demo_policy ''pypi.org'' (uint (80 :: 16 word)) ''/simple/foo/''" using demo_allowed(1) by simp
  show ?thesis
    using permitted_request_is_forwarded [OF demo_config_sel demo_term_good(1,2) r demo_host_header demo_host(4) _ n c(1) up(1) c(2,3)]
      demo_raw(2) a up(2)
    by (auto simp: demo_tconn_def demo_term_def proxy.defs term_proxy.defs)
qed

theorem gated_egress_witness:
  "\<exists>fs. tp_forwarded (serve (term_dispatch demo_config) [AcceptTimeout, Accepted (demo_tconn (demo_raw ''pypi.org''))] demo_term) = fs
    \<and> (\<forall>f \<in> set fs. \<exists>path. ic_path (fw_conn f) = Some path \<and> faithful demo_config (demo_tconn (demo_raw ''pypi.org'')) f)"
  using gated_egress [OF demo_config_sel(1) demo_term_good(1-3), of "[AcceptTimeout, Accepted (demo_tconn (demo_raw ''pypi.org''))]"]
  by (auto simp: demo_term_def proxy.defs term_proxy.defs)

section \<open>What is refused\<close>

text \<open>
  The handler decided against \<open>obs\<close>: the observation is recorded, nothing is forwarded, and
  the supervisor has killed the run, for this connection if it was not killed before.
\<close>

definition refused ::
  "policy \<Rightarrow> stamp \<Rightarrow> intercepted_connection \<Rightarrow> ('w, ('k, 'b) supervisor, 'h) term_proxy \<Rightarrow>
   ('w, ('k, 'b) supervisor, 'h) term_proxy \<Rightarrow> bool" where
  "refused p st obs s s' \<longleftrightarrow>
     px_seen s' = px_seen s @ [obs] \<and> tp_forwarded s' = tp_forwarded s \<and> sup_killed (tp_gate s')
   \<and> sup_cause (tp_gate s') = (if sup_killed (tp_gate s) then sup_cause (tp_gate s) else Some (decision_event p st obs))"

lemma refused_ask:
  fixes s :: "('w, ('k sink, 'b gvisor) supervisor, 'h) term_proxy"
  assumes "tx_decide cfg = decide (emit fr) gvisor_backend p" "\<not> gate_permits p obs"
    and "tame_tee (sup_sink (tp_gate s))" "gvisor_total (sup_backend (tp_gate s))"
  shows "\<exists>s' r. py_seq (notify obs) (py_bind (ask cfg c obs) (\<lambda>a. if \<not> a then py_return () else k)) s = (Inr (), s')
    \<and> py_seq (notify obs) (py_bind (ask cfg c obs) (\<lambda>a. py_return ())) s = (Inr (), s')
    \<and> refused p (tc_stamp c) obs s s'"
proof -
  obtain s1 where n: "notify obs s = (Inr (), s1)" using notify_returns [of obs s] by blast
  note f = term_proxy_frame [OF n]
  have "tame_tee (sup_sink (tp_gate s1))" "gvisor_total (sup_backend (tp_gate s1))" using f assms(3,4) by simp_all
  from tee_gvisor.decide_total [OF this TrueI, of fr p "tc_stamp c" obs]
  obtain g where g: "decide (emit fr) gvisor_backend p (tc_stamp c) obs (tp_gate s1) = (Inr False, g)" "sup_killed g"
      "sup_cause g = (if sup_killed (tp_gate s) then sup_cause (tp_gate s) else Some (decision_event p (tc_stamp c) obs))"
    using assms(2) f by auto
  have "ask cfg c obs s1 = (Inr False, s1\<lparr>tp_gate := g\<rparr>)" using g(1) assms(1) by (simp add: ask_def py_simps)
  then show ?thesis using n f g(2,3)
    by (intro exI [of _ "s1\<lparr>tp_gate := g\<rparr>"]) (simp add: py_simps refused_def)
qed

lemma request_refused:
  fixes s :: "('w, ('k sink, 'b gvisor) supervisor, 'h) term_proxy"
  assumes cfg: "tx_decide cfg = decide (emit fr) gvisor_backend p"
    and good: "tame_tee (sup_sink (tp_gate s))" "gvisor_total (sup_backend (tp_gate s))"
    and head: "read_head stream = (Inr head, rest)" "parse_head head = Inr parsed"
    and obs: "obs = request_observation c ip port red tls sni parsed" "\<not> gate_permits p obs"
  shows "\<exists>s'. handle_request cfg c ip port red tls sni stream s = (Inr (), s') \<and> refused p (tc_stamp c) obs s s'"
proof -
  have "handle_request cfg c ip port red tls sni stream s =
      py_seq (notify obs) (py_bind (ask cfg c obs) (\<lambda>a. if \<not> a then py_return () else forward cfg c rest obs head)) s"
    using head unfolding obs(1) by (simp add: handle_request_def Let_def)
  then show ?thesis using refused_ask [OF cfg obs(2) good, of c "forward cfg c rest obs head"] by auto
qed

text \<open>
  C15. A request to a name the policy does not list, redirected from wherever: nothing reaches
  any upstream and the run is killed for exactly this observation.
\<close>
theorem refused_request_kills:
  fixes s :: "('w, ('k sink, 'b gvisor) supervisor, 'h) term_proxy"
  assumes "tx_decide cfg = decide (emit fr) gvisor_backend p"
    and "tame_tee (sup_sink (tp_gate s))" "gvisor_total (sup_backend (tp_gate s))"
    and "redirected_http port addr m t w hs body c" "host_header hs = Some (n, host_value name pt)" "name_ok name"
    and "case pt of None \<Rightarrow> True | Some q \<Rightarrow> q < 65536"
    and "\<not> network_allowed p name (uint port) t"
  shows "\<exists>s'. term_handle cfg c s = (Inr (), s') \<and> refused p (tc_stamp c) (http_observation c port addr m t name) s s'"
proof -
  let ?obs = "http_observation c port addr m t name"
  obtain head rest where h: "read_head (tc_raw c) = (Inr head, rest)"
      "parse_head head = Inr (Some m, Some t, Some name, map_option int pt)"
      "?obs = request_observation c (inet_ntoa addr) (uint port) True False None (Some m, Some t, Some name, map_option int pt)"
    using redirected_http_head [OF assms(4-7)] by metis
  have "\<not> gate_permits p ?obs" using assms(8) by (simp add: gate_permits_def http_observation_def)
  from request_refused [OF assms(1-3) h this] show ?thesis
    unfolding redirected_http_handle [OF assms(4)] .
qed

theorem refused_request_kills_witness:
  "\<exists>s'. term_handle demo_config (demo_tconn (demo_raw ''evil.org'')) demo_term = (Inr (), s')
    \<and> tp_forwarded s' = [] \<and> map ic_host (px_seen s') = [''evil.org''] \<and> sup_killed (tp_gate s')"
proof -
  have r: "redirected_http 80 [1, 1, 1, 1] ''GET'' ''/simple/foo/'' ''1'' [(''Host'', ''evil.org'')] ''GET /second''
      (demo_tconn (demo_raw ''evil.org''))" by (rule demo_redirected [OF demo_host(3) demo_raw(3,4)]) simp
  have n: "\<not> network_allowed demo_policy ''evil.org'' (uint (80 :: 16 word)) ''/simple/foo/''" using demo_allowed(2) by simp
  show ?thesis
    using refused_request_kills [OF demo_config_sel(1) demo_term_good(1,2) r demo_host_header demo_host(5) _ n]
    by (auto simp: refused_def demo_term_def proxy.defs term_proxy.defs proxy_init_def http_observation_def)
qed

text \<open>
  C16. A connection that starts a TLS handshake and does not complete it, because the client
  does not trust the CA, aborts, or the certificate cannot be minted or loaded: it is
  observed at address and port only and the run is killed for it.
\<close>
theorem failed_handshake_kills:
  fixes s :: "('w, ('k sink, 'b gvisor) supervisor, 'h) term_proxy"
  assumes "tx_decide cfg = decide (emit fr) gvisor_backend p"
    and "tame_tee (sup_sink (tp_gate s))" "gvisor_total (sup_backend (tp_gate s))"
    and "endpoint (tc_sock c) = Inr (ip, port, red)" "first_byte (tc_raw c) = Inr (TLS_HANDSHAKE # bs)"
    and "outcome (terminate_tls cfg c s) = Inl e" "is_OSError e"
  shows "\<exists>s'. term_handle cfg c s = (Inr (), s') \<and> refused p (tc_stamp c) (bare_observation c ip port red True) s s'"
proof -
  let ?obs = "bare_observation c ip port red True"
  obtain a where a: "terminate_tls cfg c s = (Inl e, s\<lparr>tp_ca := a\<rparr>)"
    using terminate_tls_frame [of cfg c s "Inl e"] assms(6) by (metis prod.collapse)
  have no: "\<not> gate_permits p ?obs" by (simp add: gate_permits_def bare_observation_def)
  obtain s' where s': "py_seq (notify ?obs) (py_bind (ask cfg c ?obs) (\<lambda>_. py_return ())) (s\<lparr>tp_ca := a\<rparr>) = (Inr (), s')"
      "refused p (tc_stamp c) ?obs (s\<lparr>tp_ca := a\<rparr>) s'"
    using refused_ask [OF assms(1) no, of "s\<lparr>tp_ca := a\<rparr>" c "py_return ()"] assms(2,3) by auto
  have "term_handle cfg c s = (Inr (), s')"
    using s'(1) a assms(4,5,7) by (simp add: term_handle_def py_simps Let_def)
  moreover have "refused p (tc_stamp c) ?obs s s'" using s'(2) by (simp add: refused_def)
  ultimately show ?thesis by blast
qed

theorem failed_handshake_kills_witness:
  "\<exists>s'. term_handle demo_config (demo_tconn [Data [TLS_HANDSHAKE]]) demo_term = (Inr (), s')
    \<and> map ic_host (px_seen s') = [''1.1.1.1''] \<and> tp_forwarded s' = [] \<and> sup_killed (tp_gate s')"
proof -
  note a = demo_ntoa
  have e: "endpoint (tc_sock (demo_tconn raw)) = Inr (''1.1.1.1'', 80, True)" for raw
    using original_destination_sockaddr [of "[1, 1, 1, 1]" "0x0200" 80] a by (simp add: endpoint_def demo_tconn_def)
  have b: "first_byte (tc_raw (demo_tconn [Data [TLS_HANDSHAKE]])) = Inr [TLS_HANDSHAKE]"
    by (simp add: first_byte_def demo_tconn_def)
  have t: "outcome (terminate_tls demo_config (demo_tconn raw) demo_term) = Inl (Exn SSLErrorC ''unknown ca'')" for raw
    by (simp add: terminate_tls_def demo_tconn_def py_simps)
  show ?thesis
    using failed_handshake_kills [OF demo_config_sel(1) demo_term_good(1,2) e b t]
    by (auto simp: is_OSError_def refused_def bare_observation_def demo_term_def proxy.defs term_proxy.defs proxy_init_def)
qed

section \<open>Where the chain to the supervisor breaks\<close>

text \<open>
  A connection on which the sandbox sends nothing (it closes, resets or lets the timeout
  pass) is never asked about.
\<close>

definition silent :: "'t tconn \<Rightarrow> bool" where
  "silent c \<longleftrightarrow> (\<exists>ep. endpoint (tc_sock c) = Inr ep) \<and> first_byte (tc_raw c) = Inr []"

text \<open>
  C37. However many silent connections the sandbox opens, to whatever destinations: the observer
  callback is told, but the supervisor's state is what it was. No event, allow or deny, is
  recorded and nothing is killed, for any decider.
\<close>
theorem silent_connections_are_not_decided:
  fixes s :: "('w, 's, 'h) term_proxy"
  assumes "list_all silent (served evs)" "\<not> px_stop s"
  shows "tp_gate (serve (term_dispatch cfg) evs s) = tp_gate s
    \<and> tp_forwarded (serve (term_dispatch cfg) evs s) = tp_forwarded s
    \<and> length (px_seen (serve (term_dispatch cfg) evs s)) = length (px_seen s) + length (served evs)"
  using assms
proof (induction evs arbitrary: s)
  case (Cons ev evs)
  show ?case
  proof (cases ev)
    case StopSet
    then show ?thesis using Cons.prems by (cases evs) simp_all
  next
    case (Accepted c)
    let ?s0 = "s\<lparr>tp_handlers := tp_handlers s + 1\<rparr>"
    obtain ip port red where e: "endpoint (tc_sock c) = Inr (ip, port, red)" "first_byte (tc_raw c) = Inr []"
      using Cons.prems(1) Accepted by (auto simp: silent_def)
    obtain s1 where n: "notify (bare_observation c ip port red False) ?s0 = (Inr (), s1)"
      using notify_returns [of _ ?s0] by blast
    have h: "term_handle cfg c ?s0 = (Inr (), s1)" using n e by (simp add: term_handle_def)
    obtain errs where d: "term_dispatch cfg c s = (Inr (), s1\<lparr>px_closed := px_closed s1 @ [tc_sock c],
        px_callback_errors := px_callback_errors s1 @ errs\<rparr>)" (is "_ = (_, ?s2)")
      using term_dispatch_frame [OF h] by blast
    have "tp_gate ?s2 = tp_gate s" "tp_forwarded ?s2 = tp_forwarded s" "length (px_seen ?s2) = Suc (length (px_seen s))"
        "px_stop ?s2 = px_stop s"
      using term_proxy_frame [OF n] by simp_all
    then show ?thesis using Cons.IH [of ?s2] Cons.prems d Accepted by simp
  qed (use Cons in simp_all)
qed simp

theorem silent_connections_are_not_decided_witness:
  "let s = serve (term_dispatch demo_config) [Accepted (demo_tconn []), Accepted (demo_tconn [])] demo_term
   in tp_gate s = tp_gate demo_term \<and> length (px_seen s) = 2"
proof -
  have "silent (demo_tconn [])"
    using original_destination_sockaddr [of "[1, 1, 1, 1]" "0x0200" 80]
    by (auto simp: silent_def endpoint_def demo_tconn_def first_byte_def)
  then have l: "list_all silent (served [Accepted (demo_tconn []), Accepted (demo_tconn [])])" by simp
  show ?thesis
    using silent_connections_are_not_decided [OF l demo_term_good(3), of demo_config]
    by (simp add: Let_def demo_term_def proxy.defs term_proxy.defs proxy_init_def)
qed

text \<open>
  A request with digits in its \<^verbatim>\<open>Host\<close> port that \<^verbatim>\<open>int()\<close> refuses ends its handler with a
  \<^verbatim>\<open>ValueError\<close>: the connection is neither observed nor decided, for any decider and any
  destination, and only \<^verbatim>\<open>callback_errors\<close> grows.
\<close>
theorem undecided_digit_port:
  fixes s :: "('w, 's, 'h) term_proxy"
  assumes "redirected_http port addr m t w hs body c"
    and "host_header hs = Some (n, name @ '':'' @ digits)" "name_ok name"
    and "isdigit digits" "list_ex (\<lambda>ch. \<not> is_decimal ch) digits \<or> 4300 < length digits"
    and "sk_close (tc_sock c) = None"
  shows "\<exists>msg. term_dispatch cfg c s =
    (Inr (), s\<lparr>tp_handlers := tp_handlers s + 1, px_closed := px_closed s @ [tc_sock c],
       px_callback_errors := px_callback_errors s @ [Exn ValueErrorC msg]\<rparr>)"
proof -
  have q: "request_stream m t w hs body (tc_raw c)" using assms(1) by (simp add: redirected_http_def)
  then have w: "plain m" "plain t" "starts_with t ''/''" "plain w" "list_all header_ok hs"
    by (simp_all add: request_stream_def)
  obtain head rest where h: "read_head (tc_raw c) = (Inr head, rest)"
      "parse_head head = parse_head (render_head m t (''HTTP/1.'' @ w) hs @ body)"
    using read_request_stream [OF q] by blast
  obtain msg where "parse_head head = Inl (Exn ValueErrorC msg)"
    using digit_port_parse [OF w assms(2-5), of body] h(2) by auto
  then have "term_handle cfg c (s\<lparr>tp_handlers := tp_handlers s + 1\<rparr>) =
      (Inl (Exn ValueErrorC msg), s\<lparr>tp_handlers := tp_handlers s + 1\<rparr>)"
    using redirected_http_handle [OF assms(1)] h(1) by (simp add: handle_request_def py_simps)
  then show ?thesis
    using assms(6)
    by (intro exI [of _ msg])
      (simp add: term_dispatch_def run_handler_def dispatch_def py_simps add_error_def close_sock_def is_Exception_def)
qed

theorem undecided_digit_port_witness:
  "let c = demo_tconn (demo_raw (''pypi.org:'' @ [CHR 0xB2]))
   in \<exists>msg. term_dispatch demo_config c demo_term =
     (Inr (), demo_term\<lparr>tp_handlers := 1, px_closed := [tc_sock c], px_callback_errors := [Exn ValueErrorC msg]\<rparr>)"
proof -
  let ?h = "''pypi.org:'' @ [CHR 0xB2]"
  let ?c = "demo_tconn (demo_raw ?h)"
  have p: "header_ok (''Host'', ?h)" "steady (demo_raw ?h)" "bytes_of (demo_raw ?h) = demo_head ?h @ ''GET /second''"
    "isdigit [CHR 0xB2]" "list_ex (\<lambda>c. \<not> is_decimal c) [CHR 0xB2]"
    by code_simp+
  have r: "redirected_http 80 [1, 1, 1, 1] ''GET'' ''/simple/foo/'' ''1'' [(''Host'', ?h)] ''GET /second'' ?c"
    by (rule demo_redirected [OF p(1-3)]) simp
  have h: "host_header [(''Host'', ?h)] = Some (''Host'', ''pypi.org'' @ '':'' @ [CHR 0xB2])"
    by (simp add: host_header_def demo_host(1))
  have "sk_close (tc_sock ?c) = None" by (simp add: demo_tconn_def demo_sock_def)
  from undecided_digit_port [OF r h demo_host(4) p(4) disjI1 [OF p(5)] this, of demo_config demo_term]
  show ?thesis by (simp add: Let_def demo_term_def proxy.defs term_proxy.defs proxy_init_def)
qed

end
