(* ===== verification/Https.thy ===== *)
theory Https
  imports Egress
begin

text \<open>
  An HTTPS request through the terminating proxy, from the handshake with a minted leaf to
  the upstream connection, with the policy gate over gVisor.
\<close>

section \<open>A redirected HTTPS request\<close>









end
