(* ===== verification/LeafThreads.thy ===== *)
theory LeafThreads
  imports Certs "HOL-Library.Multiset"
begin

text \<open>
  \<^verbatim>\<open>CertAuthority.leaf_for\<close> called by several handshakes at once (\<^verbatim>\<open>halt/intercept/certs.py\<close>,
  lines 59-66 and 87-114). A thread is a program counter over the statements inside
  \<^verbatim>\<open>with self._lock\<close>; the file write and each of the two \<^verbatim>\<open>openssl\<close> runs are one step. The
  lock makes the calls atomic: any run is the calls made one after the other, in the order
  in which they took the lock.
\<close>

section \<open>The threads\<close>

datatype leaf_pc =
    Wanting string                     \<comment> \<open>at \<^verbatim>\<open>with self._lock\<close>\<close>
  | Looking string                     \<comment> \<open>lock held, at \<^verbatim>\<open>self._leaves.get(hostname)\<close>\<close>
  | Writing string bool                \<comment> \<open>in \<^verbatim>\<open>_mint_leaf\<close>, at \<^verbatim>\<open>ext.write_text(...)\<close>\<close>
  | Requesting string                  \<comment> \<open>at \<^verbatim>\<open>self._run("req", ...)\<close>\<close>
  | Signing string                     \<comment> \<open>at \<^verbatim>\<open>self._run("x509", ...)\<close>\<close>
  | Caching string                     \<comment> \<open>at \<^verbatim>\<open>self._leaves[hostname] = pair\<close>\<close>
  | Unlocking "py_exn + cert_pair"     \<comment> \<open>at the end of the \<^verbatim>\<open>with\<close> block\<close>
  | Answered "py_exn + cert_pair"      \<comment> \<open>returned, or raised\<close>

type_synonym 'h leaf_system = "leaf_pc list \<times> nat option \<times> 'h cert_authority"

definition next_unless :: "(py_exn + 'a) \<Rightarrow> leaf_pc \<Rightarrow> leaf_pc" where
  "next_unless r p = (case r of Inl e \<Rightarrow> Unlocking (Inl e) | Inr _ \<Rightarrow> p)"

inductive leaf_thread_step ::
  "nat \<Rightarrow> leaf_pc \<times> nat option \<times> 'h cert_authority \<Rightarrow> leaf_pc \<times> nat option \<times> 'h cert_authority \<Rightarrow> bool"
  for i where
  locks: "leaf_thread_step i (Wanting h, None, a) (Looking h, Some i, a)"
| hit: "ca_leaves a h = Some pair \<Longrightarrow> leaf_thread_step i (Looking h, l, a) (Unlocking (Inr pair), l, a)"
| miss: "ca_leaves a h = None \<Longrightarrow> looks_like_ipv4 h = Inr ip \<Longrightarrow>
    leaf_thread_step i (Looking h, l, a) (Writing h ip, l, a)"
| misread: "ca_leaves a h = None \<Longrightarrow> looks_like_ipv4 h = Inl e \<Longrightarrow>
    leaf_thread_step i (Looking h, l, a) (Unlocking (Inl e), l, a)"
| writes: "write_extension h ip a = (r, a') \<Longrightarrow>
    leaf_thread_step i (Writing h ip, l, a) (next_unless r (Requesting h), l, a')"
| requests: "request_leaf h a = (r, a') \<Longrightarrow>
    leaf_thread_step i (Requesting h, l, a) (next_unless r (Signing h), l, a')"
| signs: "sign_leaf h a = (r, a') \<Longrightarrow>
    leaf_thread_step i (Signing h, l, a) (next_unless r (Caching h), l, a')"
| caches: "py_bind (minted_pair h) (keep_leaf h) a = (r, a') \<Longrightarrow>
    leaf_thread_step i (Caching h, l, a) (Unlocking r, l, a')"
| unlocks: "leaf_thread_step i (Unlocking r, l, a) (Answered r, None, a)"

inductive_cases leaf_thread_stepE: "leaf_thread_step i (p, l, a) (p', l', a')"

inductive leaf_step :: "'h leaf_system \<Rightarrow> 'h leaf_system \<Rightarrow> bool" where
  leaf_interleave: "i < length ps \<Longrightarrow> leaf_thread_step i (ps ! i, l, a) (p, l', a') \<Longrightarrow>
    leaf_step (ps, l, a) (ps[i := p], l', a')"

definition leaf_start :: "string list \<Rightarrow> 'h cert_authority \<Rightarrow> 'h leaf_system" where
  "leaf_start hs a = (map Wanting hs, None, a)"

section \<open>Every run ends\<close>

fun leaf_rank :: "leaf_pc \<Rightarrow> nat" where
  "leaf_rank (Wanting h) = 7" | "leaf_rank (Looking h) = 6" | "leaf_rank (Writing h ip) = 5"
| "leaf_rank (Requesting h) = 4" | "leaf_rank (Signing h) = 3" | "leaf_rank (Caching h) = 2"
| "leaf_rank (Unlocking r) = 1" | "leaf_rank (Answered r) = 0"

definition leaf_work :: "'h leaf_system \<Rightarrow> nat" where
  "leaf_work c = sum_list (map leaf_rank (fst c))"

lemma leaf_thread_rank: "leaf_thread_step i (p, l, a) (p', l', a') \<Longrightarrow> leaf_rank p' < leaf_rank p"
  by (erule leaf_thread_stepE) (auto simp: next_unless_def split: sum.splits)

lemma leaf_step_work: "leaf_step c d \<Longrightarrow> leaf_work d < leaf_work c"
proof (induction rule: leaf_step.induct)
  case (leaf_interleave i ps l a p l' a')
  then show ?case using leaf_thread_rank [OF leaf_interleave(2)]
    by (simp add: leaf_work_def sum_list_step)
qed

interpretation leaf_calls: ending_steps leaf_step leaf_work
  by unfold_locales (rule leaf_step_work)

section \<open>The lock makes the calls atomic\<close>

text \<open>What a thread inside the lock has still to do.\<close>

fun rest_of :: "leaf_pc \<Rightarrow> ('h cert_authority, cert_pair) py" where
  "rest_of (Wanting h) = leaf_for h"
| "rest_of (Looking h) = leaf_for h"
| "rest_of (Writing h ip) = py_bind (py_seq (write_extension h ip) (py_seq (request_leaf h) (py_seq (sign_leaf h) (minted_pair h)))) (keep_leaf h)"
| "rest_of (Requesting h) = py_bind (py_seq (request_leaf h) (py_seq (sign_leaf h) (minted_pair h))) (keep_leaf h)"
| "rest_of (Signing h) = py_bind (py_seq (sign_leaf h) (minted_pair h)) (keep_leaf h)"
| "rest_of (Caching h) = py_bind (minted_pair h) (keep_leaf h)"
| "rest_of (Unlocking r) = (\<lambda>a. (r, a))"
| "rest_of (Answered r) = (\<lambda>a. (r, a))"

fun inside :: "leaf_pc \<Rightarrow> bool" where
  "inside (Wanting h) = False"
| "inside (Answered r) = False"
| "inside p = True"

lemma rest_kept:
  assumes "leaf_thread_step i (p, l, a) (p', l', a')"
  shows "rest_of p' a' = rest_of p a"
  using assms
  by (rule leaf_thread_stepE)
    (auto simp: leaf_for_def mint_leaf_def py_simps next_unless_def split: sum.splits option.splits)

lemma thread_lock:
  assumes "leaf_thread_step i (p, l, a) (p', l', a')" "inside p \<longleftrightarrow> l = Some i"
  shows "(inside p' \<longleftrightarrow> l' = Some i) \<and> (l' = l \<or> l = None \<and> l' = Some i \<or> l = Some i \<and> l' = None)
    \<and> (\<forall>h. p' \<noteq> Wanting h) \<and> (l' = Some i \<or> l = Some i \<and> l' = None)"
  using assms by (auto elim!: leaf_thread_stepE simp: next_unless_def split: sum.splits)

text \<open>
  Calls made one after the other: \<open>ord\<close> lists the calls' numbers with what each of them
  returned or raised.
\<close>

inductive in_turn :: "string list \<Rightarrow> 'h cert_authority \<Rightarrow> (nat \<times> (py_exn + cert_pair)) list \<Rightarrow> 'h cert_authority \<Rightarrow> bool"
  for hs a0 where
  nobody: "in_turn hs a0 [] a0"
| call: "in_turn hs a0 ord a \<Longrightarrow> leaf_for (hs ! i) a = (r, a') \<Longrightarrow> in_turn hs a0 (ord @ [(i, r)]) a'"

definition answered :: "leaf_pc list \<Rightarrow> (nat \<times> (py_exn + cert_pair)) set" where
  "answered ps = {(i, r). i < length ps \<and> ps ! i = Answered r}"

definition atomic_so_far :: "string list \<Rightarrow> 'h cert_authority \<Rightarrow> 'h leaf_system \<Rightarrow> bool" where
  "atomic_so_far hs a0 c = (case c of (ps, l, a) \<Rightarrow>
     length ps = length hs
   \<and> (\<forall>i < length ps. (inside (ps ! i) \<longleftrightarrow> l = Some i) \<and> (\<forall>h. ps ! i = Wanting h \<longrightarrow> h = hs ! i))
   \<and> (\<forall>i. l = Some i \<longrightarrow> i < length ps)
   \<and> (\<exists>ord b. in_turn hs a0 ord b \<and> distinct (map fst ord) \<and> set ord = answered ps
        \<and> (case l of None \<Rightarrow> a = b | Some i \<Rightarrow> rest_of (ps ! i) a = leaf_for (hs ! i) b)))"

lemma atomic_start: "atomic_so_far hs a (leaf_start hs a)"
  by (auto simp: atomic_so_far_def leaf_start_def answered_def intro!: exI [of _ "[]"] nobody)

lemma answered_same:
  "i < length ps \<Longrightarrow> \<forall>r. ps ! i \<noteq> Answered r \<Longrightarrow> \<forall>r. p \<noteq> Answered r \<Longrightarrow> answered (ps[i := p]) = answered ps"
  by (auto simp: answered_def nth_list_update split: if_splits)

lemma answered_more:
  "i < length ps \<Longrightarrow> \<forall>r. ps ! i \<noteq> Answered r \<Longrightarrow> answered (ps[i := Answered r]) = insert (i, r) (answered ps)"
  by (auto simp: answered_def nth_list_update split: if_splits)

text \<open>The thread that steps is the one inside, or takes the lock: what it has to do is its call.\<close>

lemma at_its_turn:
  assumes st: "leaf_thread_step i (ps ! i, l, a) (p, l', a')"
    and own: "inside (ps ! i) \<longleftrightarrow> l = Some i" "\<forall>h. ps ! i = Wanting h \<longrightarrow> h = hs ! i"
    and now: "case l of None \<Rightarrow> a = b | Some j \<Rightarrow> rest_of (ps ! j) a = leaf_for (hs ! j) b"
  shows "rest_of (ps ! i) a = leaf_for (hs ! i) b"
proof (cases l)
  case None
  then have "ps ! i = Wanting (hs ! i)" using own st by (cases "ps ! i") (auto elim: leaf_thread_stepE)
  then show ?thesis using now None by simp
next
  case (Some j)
  then have "j = i" using thread_lock [OF st own(1)] by auto
  then show ?thesis using now Some by simp
qed

lemma atomic_step: "leaf_step c d \<Longrightarrow> atomic_so_far hs a0 c \<Longrightarrow> atomic_so_far hs a0 d"
proof (induction rule: leaf_step.induct)
  case (leaf_interleave i ps l a p l' a')
  note st = leaf_interleave(2) and i = leaf_interleave(1)
  have len: "length ps = length hs"
    and at: "\<And>j. j < length ps \<Longrightarrow> (inside (ps ! j) \<longleftrightarrow> l = Some j) \<and> (\<forall>h. ps ! j = Wanting h \<longrightarrow> h = hs ! j)"
    and own: "\<And>j. l = Some j \<Longrightarrow> j < length ps"
    using leaf_interleave(3) unfolding atomic_so_far_def prod.case by blast+
  obtain ord b where ord: "in_turn hs a0 ord b" "distinct (map fst ord)" "set ord = answered ps"
      and now: "case l of None \<Rightarrow> a = b | Some j \<Rightarrow> rest_of (ps ! j) a = leaf_for (hs ! j) b"
    using leaf_interleave(3) unfolding atomic_so_far_def prod.case by blast
  have lk: "(inside p \<longleftrightarrow> l' = Some i)" "l' = l \<or> l = None \<and> l' = Some i \<or> l = Some i \<and> l' = None" "\<forall>h. p \<noteq> Wanting h"
    "l' = Some i \<or> l = Some i \<and> l' = None"
    using thread_lock [OF st] at [OF i] by blast+
  have at': "(inside (ps[i := p] ! j) \<longleftrightarrow> l' = Some j) \<and> (\<forall>h. ps[i := p] ! j = Wanting h \<longrightarrow> h = hs ! j)"
    if "j < length ps" for j
    using at [OF that] at [OF i] lk that i by (cases "j = i") auto
  have now': "rest_of (ps ! i) a = leaf_for (hs ! i) b"
    by (rule at_its_turn [OF st conjunct1 [OF at [OF i]] conjunct2 [OF at [OF i]] now])
  have pre: "\<forall>r. ps ! i \<noteq> Answered r" using st by (auto elim: leaf_thread_stepE)
  have "\<exists>ord b. in_turn hs a0 ord b \<and> distinct (map fst ord) \<and> set ord = answered (ps[i := p])
        \<and> (case l' of None \<Rightarrow> a' = b | Some j \<Rightarrow> rest_of (ps[i := p] ! j) a' = leaf_for (hs ! j) b)"
  proof (cases "l' = Some i")
    case True
    then have "\<forall>r. p \<noteq> Answered r" using lk(1) by auto
    then have "answered (ps[i := p]) = answered ps" using answered_same [OF i pre] by blast
    then show ?thesis using ord True rest_kept [OF st] now' i by (intro exI [of _ ord] exI [of _ b]) simp
  next
    case False
    then have l: "l' = None" "l = Some i" using lk(4) by auto
    then obtain r where r: "ps ! i = Unlocking r" "p = Answered r" "a' = a"
      using st by (auto elim: leaf_thread_stepE)
    then have "in_turn hs a0 (ord @ [(i, r)]) a'" using call [OF ord(1)] now' by (metis rest_of.simps(7))
    moreover have "i \<notin> fst ` set ord" using pre ord(3) by (auto simp: answered_def)
    moreover have "set (ord @ [(i, r)]) = answered (ps[i := p])" using answered_more [OF i pre] ord(3) r(2) by simp
    ultimately show ?thesis using ord(2) l by (intro exI [of _ "ord @ [(i, r)]"] exI [of _ a']) simp
  qed
  moreover have "\<And>j. l' = Some j \<Longrightarrow> j < length ps" using own lk(2) i by auto
  ultimately show ?case unfolding atomic_so_far_def prod.case using at' len by simp
qed

lemma atomic_reachable: "leaf_step\<^sup>*\<^sup>* (leaf_start hs a0) c \<Longrightarrow> atomic_so_far hs a0 c"
  by (induction rule: rtranclp_induct) (auto intro: atomic_start atomic_step)

text \<open>
  The lock makes \<^verbatim>\<open>leaf_for\<close> atomic: whatever the interleaving of the file writes and
  \<^verbatim>\<open>openssl\<close> runs, the calls answered so far are sequential calls in some order, with the same
  answers, and whenever the lock is free the authority and the outside world are in the
  state those sequential calls leave. At most one thread is inside.
\<close>
theorem leaf_calls_atomic:
  assumes "leaf_step\<^sup>*\<^sup>* (leaf_start hs a0) (ps, l, a)"
  shows "(\<exists>ord b. in_turn hs a0 ord b \<and> distinct (map fst ord) \<and> set ord = answered ps \<and> (l = None \<longrightarrow> a = b))
    \<and> card {i. i < length ps \<and> inside (ps ! i)} \<le> 1"
proof -
  note inv = atomic_reachable [OF assms, unfolded atomic_so_far_def prod.case]
  obtain ord b where "in_turn hs a0 ord b" "distinct (map fst ord)" "set ord = answered ps"
      "case l of None \<Rightarrow> a = b | Some i \<Rightarrow> rest_of (ps ! i) a = leaf_for (hs ! i) b"
    using inv by blast
  moreover have "card {i. i < length ps \<and> inside (ps ! i)} \<le> 1"
    using inv by (subst card_le_Suc0_iff_eq [folded One_nat_def]) auto
  ultimately show ?thesis by (cases l) auto
qed

section \<open>No thread waits for ever\<close>

lemma leaf_can_step:
  assumes "\<forall>r. p \<noteq> Answered r" "\<forall>h. p = Wanting h \<longrightarrow> l = None"
  shows "\<exists>y. leaf_thread_step i (p, l, a) y"
proof (cases p)
  case (Looking h)
  then show ?thesis
    by (cases "ca_leaves a h"; cases "looks_like_ipv4 h") (auto intro: hit miss misread)
next
  case (Writing h ip)
  then show ?thesis using writes [of h ip a _ _ i l] by (metis surj_pair)
next
  case (Requesting h)
  then show ?thesis using requests [of h a _ _ i l] by (metis surj_pair)
next
  case (Signing h)
  then show ?thesis using signs [of h a _ _ i l] by (metis surj_pair)
next
  case (Caching h)
  then show ?thesis using caches [of h a _ _ i l] by (metis surj_pair)
qed (use assms in \<open>auto intro: locks unlocks\<close>)

lemma leaf_stuck:
  assumes inv: "atomic_so_far hs a0 (ps, l, a)" and stuck: "\<nexists>d. leaf_step (ps, l, a) d"
  shows "l = None \<and> (\<forall>i < length ps. \<exists>r. ps ! i = Answered r)"
proof -
  have own: "\<And>i. i < length ps \<Longrightarrow> inside (ps ! i) \<longleftrightarrow> l = Some i" "\<And>i. l = Some i \<Longrightarrow> i < length ps"
    using inv unfolding atomic_so_far_def prod.case by blast+
  have wait: "(\<exists>r. ps ! i = Answered r) \<or> (\<exists>h. ps ! i = Wanting h \<and> l \<noteq> None)" if "i < length ps" for i
  proof (rule ccontr)
    assume "\<not> ?thesis"
    then obtain y where "leaf_thread_step i (ps ! i, l, a) y" using leaf_can_step [of "ps ! i" l i a] by blast
    then show False using stuck leaf_interleave [OF that, of l a] by (metis prod_cases3)
  qed
  have l: "l = None"
  proof (rule ccontr)
    assume "l \<noteq> None"
    then obtain i where "l = Some i" "i < length ps" using own(2) by blast
    then show False using own(1) [of i] wait [of i] by auto
  qed
  then show ?thesis using wait by blast
qed

text \<open>
  C18. When no thread can go on, every call was answered, the lock is free, and the whole run
  was the calls one after the other: each exactly once, with its answer, leaving the state
  the authority and the outside world are in. No order of the threads deadlocks.
\<close>
theorem leaf_calls_complete:
  assumes "leaf_step\<^sup>*\<^sup>* (leaf_start hs a0) (ps, l, a)" "\<nexists>d. leaf_step (ps, l, a) d"
  shows "l = None \<and> (\<exists>ord. in_turn hs a0 ord a \<and> mset (map fst ord) = mset [0..<length hs]
    \<and> list_all (\<lambda>(i, r). ps ! i = Answered r) ord)"
proof -
  note inv = atomic_reachable [OF assms(1)]
  have st: "l = None" "\<And>i. i < length ps \<Longrightarrow> \<exists>r. ps ! i = Answered r" using leaf_stuck [OF inv assms(2)] by blast+
  obtain ord where ord: "in_turn hs a0 ord a" "distinct (map fst ord)" "set ord = answered ps" and len: "length ps = length hs"
    using inv st(1) unfolding atomic_so_far_def prod.case by auto
  have "set (map fst ord) = set [0..<length hs]"
    using ord(3) st(2) len by (force simp: answered_def image_iff)
  then have "mset (map fst ord) = mset [0..<length hs]"
    using ord(2) set_eq_iff_mset_eq_distinct distinct_upt by blast
  moreover have "list_all (\<lambda>(i, r). ps ! i = Answered r) ord" using ord(3) by (auto simp: list_all_iff answered_def)
  ultimately show ?thesis using st(1) ord(1) by blast
qed

section \<open>One leaf per hostname\<close>

fun leaf_pc_ok :: "(string \<rightharpoonup> cert_pair) \<Rightarrow> string \<Rightarrow> string \<Rightarrow> leaf_pc \<Rightarrow> bool" where
  "leaf_pc_ok m d h (Wanting k) = (k = h)"
| "leaf_pc_ok m d h (Looking k) = (k = h)"
| "leaf_pc_ok m d h (Writing k ip) = (k = h \<and> m h = None)"
| "leaf_pc_ok m d h (Requesting k) = (k = h \<and> m h = None)"
| "leaf_pc_ok m d h (Signing k) = (k = h \<and> m h = None)"
| "leaf_pc_ok m d h (Caching k) = (k = h \<and> m h = None)"
| "leaf_pc_ok m d h (Unlocking r) = (case r of Inl _ \<Rightarrow> True | Inr pair \<Rightarrow> m h = Some pair \<and> pair = leaf_pair d h)"
| "leaf_pc_ok m d h (Answered r) = (case r of Inl _ \<Rightarrow> True | Inr pair \<Rightarrow> m h = Some pair \<and> pair = leaf_pair d h)"

definition leaves_inv :: "string list \<Rightarrow> string \<Rightarrow> 'h leaf_system \<Rightarrow> bool" where
  "leaves_inv hs d c = (case c of (ps, l, a) \<Rightarrow>
     leaves_ok a \<and> ca_dir a = d \<and> (\<forall>i < length ps. leaf_pc_ok (ca_leaves a) d (hs ! i) (ps ! i)))"

lemma ops_keep:
  "write_extension h ip a = (r, a') \<Longrightarrow> ca_leaves a' = ca_leaves a \<and> ca_dir a' = ca_dir a"
  "request_leaf h a = (r, a') \<Longrightarrow> ca_leaves a' = ca_leaves a \<and> ca_dir a' = ca_dir a"
  "sign_leaf h a = (r, a') \<Longrightarrow> ca_leaves a' = ca_leaves a \<and> ca_dir a' = ca_dir a"
  using frames_write [of a h ip] frames_request [of a h] frames_sign [of a h]
  by (fastforce simp: frames_def dest: spec [of _ "ca_host a"])+

text \<open>A step changes the cache only where a leaf was missing, and keeps the directory.\<close>

lemma leaf_thread_leaves:
  assumes "leaf_thread_step i (p, l, a) (p', l', a')" "leaf_pc_ok (ca_leaves a) (ca_dir a) h p" "leaves_ok a"
  shows "ca_dir a' = ca_dir a \<and> leaves_ok a' \<and> leaf_pc_ok (ca_leaves a') (ca_dir a) h p'
    \<and> (ca_leaves a' = ca_leaves a \<or> inside p \<and> ca_leaves a h = None \<and> (\<exists>pair. ca_leaves a' = (ca_leaves a)(h \<mapsto> pair)))"
  using assms(1)
proof cases
  case (hit k pair)
  then show ?thesis using assms(2,3) by (auto simp: leaves_ok_def)
next
  case (writes k ip r)
  then show ?thesis using assms(2,3) ops_keep(1) [OF writes(4)] by (auto simp: next_unless_def leaves_ok_def split: sum.splits)
next
  case (requests k r)
  then show ?thesis using assms(2,3) ops_keep(2) [OF requests(4)] by (auto simp: next_unless_def leaves_ok_def split: sum.splits)
next
  case (signs k r)
  then show ?thesis using assms(2,3) ops_keep(3) [OF signs(4)] by (auto simp: next_unless_def leaves_ok_def split: sum.splits)
next
  case (caches k r)
  then show ?thesis using assms(2,3)
    by (auto simp: minted_pair_def keep_leaf_def py_simps leaves_ok_def split: if_splits)
qed (use assms(2,3) in auto)

lemma leaf_pc_ok_other:
  "leaf_pc_ok m d k p \<Longrightarrow> \<not> inside p \<Longrightarrow> m h = None \<Longrightarrow> leaf_pc_ok (m(h \<mapsto> pair)) d k p"
  by (cases p) (auto split: sum.splits)

lemma leaves_inv_step:
  "leaf_step c d \<Longrightarrow> atomic_so_far hs a0 c \<Longrightarrow> leaves_inv hs dir c \<Longrightarrow> leaves_inv hs dir d"
proof (induction rule: leaf_step.induct)
  case (leaf_interleave i ps l a p l' a')
  note i = leaf_interleave(1)
  have own: "\<And>j. j < length ps \<Longrightarrow> inside (ps ! j) \<longleftrightarrow> l = Some j"
    using leaf_interleave(3) unfolding atomic_so_far_def prod.case by blast
  have a: "leaves_ok a" "ca_dir a = dir" and ok: "\<And>j. j < length ps \<Longrightarrow> leaf_pc_ok (ca_leaves a) dir (hs ! j) (ps ! j)"
    using leaf_interleave(4) by (auto simp: leaves_inv_def)
  note L = leaf_thread_leaves [OF leaf_interleave(2) ok [OF i, folded a(2)] a(1)]
  have "leaf_pc_ok (ca_leaves a') dir (hs ! j) (ps[i := p] ! j)" if j: "j < length ps" for j
  proof (cases "j = i")
    case True
    then show ?thesis using L i a(2) by simp
  next
    case False
    then have "leaf_pc_ok (ca_leaves a') dir (hs ! j) (ps ! j)"
      using L ok [OF j] own [OF i] own [OF j] leaf_pc_ok_other by (metis option.inject)
    then show ?thesis using False by simp
  qed
  then show ?case using L a(2) by (simp add: leaves_inv_def)
qed

lemma leaves_reachable:
  "leaf_step\<^sup>*\<^sup>* (leaf_start hs a0) c \<Longrightarrow> leaves_ok a0 \<Longrightarrow> leaves_inv hs (ca_dir a0) c"
proof (induction rule: rtranclp_induct)
  case base
  then show ?case by (simp add: leaves_inv_def leaf_start_def)
next
  case (step c d)
  then show ?case using leaves_inv_step [OF step.hyps(2) atomic_reachable [OF step.hyps(1)]] by blast
qed

fun mints :: "leaf_pc \<Rightarrow> string option" where
  "mints (Writing h ip) = Some h" | "mints (Requesting h) = Some h" | "mints (Signing h) = Some h"
| "mints (Caching h) = Some h" | "mints _ = None"

text \<open>
  C19. One leaf per hostname, however many handshakes ask at once: every pair handed out is the
  one its hostname names and is in the cache, and no thread mints a leaf for a hostname
  that some thread was already handed one for.
\<close>
theorem leaf_minted_once:
  assumes "leaf_step\<^sup>*\<^sup>* (leaf_start hs a0) (ps, l, a)" "leaves_ok a0" "i < length ps" "ps ! i = Answered (Inr pair)"
  shows "pair = leaf_pair (ca_dir a0) (hs ! i) \<and> ca_leaves a (hs ! i) = Some pair
    \<and> (\<forall>p \<in> set ps. mints p \<noteq> Some (hs ! i))"
proof -
  have ok: "\<And>j. j < length ps \<Longrightarrow> leaf_pc_ok (ca_leaves a) (ca_dir a0) (hs ! j) (ps ! j)"
    using leaves_reachable [OF assms(1,2)] by (simp add: leaves_inv_def)
  have i: "pair = leaf_pair (ca_dir a0) (hs ! i)" "ca_leaves a (hs ! i) = Some pair" using ok [OF assms(3)] assms(4) by simp_all
  have "mints (ps ! j) \<noteq> Some (hs ! i)" if "j < length ps" for j
    using ok [OF that] i(2) by (cases "ps ! j") auto
  then show ?thesis using i by (auto simp: in_set_conv_nth)
qed

section \<open>Two handshakes for one name\<close>

abbreviation demo_leaf_start :: "string list list leaf_system" where
  "demo_leaf_start \<equiv> leaf_start [''pypi.org'', ''pypi.org''] demo_ca"

lemma demo_leaf_ends:
  obtains ps l a where "leaf_step\<^sup>*\<^sup>* demo_leaf_start (ps, l, a)" "\<nexists>d. leaf_step (ps, l, a) d"
  using leaf_calls.steps_halt [of demo_leaf_start] by (metis prod_cases3)

theorem leaf_calls_atomic_witness:
  "\<exists>ps l a. leaf_step\<^sup>*\<^sup>* demo_leaf_start (ps, l, a) \<and> (\<nexists>d. leaf_step (ps, l, a) d)
    \<and> (\<exists>ord b. in_turn [''pypi.org'', ''pypi.org''] demo_ca ord b \<and> set ord = answered ps)"
proof -
  obtain ps l a where r: "leaf_step\<^sup>*\<^sup>* demo_leaf_start (ps, l, a)" "\<nexists>d. leaf_step (ps, l, a) d"
    by (rule demo_leaf_ends)
  show ?thesis using leaf_calls_atomic [OF r(1)] r by blast
qed

theorem leaf_calls_complete_witness:
  "\<exists>ps l a. leaf_step\<^sup>*\<^sup>* demo_leaf_start (ps, l, a) \<and> l = None
    \<and> (\<exists>ord. in_turn [''pypi.org'', ''pypi.org''] demo_ca ord a \<and> length ord = 2)"
proof -
  obtain ps l a where r: "leaf_step\<^sup>*\<^sup>* demo_leaf_start (ps, l, a)" "\<nexists>d. leaf_step (ps, l, a) d"
    by (rule demo_leaf_ends)
  obtain ord where ord: "in_turn [''pypi.org'', ''pypi.org''] demo_ca ord a" "mset (map fst ord) = mset [0..<2]" "l = None"
    using leaf_calls_complete [OF r] by (auto simp: numeral_2_eq_2)
  have "length ord = 2" using mset_eq_length [OF ord(2)] by simp
  then show ?thesis using r(1) ord(1,3) by blast
qed

lemma in_turn_snoc:
  "in_turn hs a0 (ord @ [(i, r)]) b \<Longrightarrow> \<exists>a. in_turn hs a0 ord a \<and> leaf_for (hs ! i) a = (r, b)"
  by (erule in_turn.cases) auto

lemma in_turn_none: "in_turn hs a0 [] b \<Longrightarrow> b = a0"
  by (erule in_turn.cases) auto

lemma demo_mint_twice:
  "\<exists>a'. leaf_for ''pypi.org'' demo_ca = (Inr (leaf_pair ''/run/halt-ca'' ''pypi.org''), a')
     \<and> leaf_for ''pypi.org'' a' = (Inr (leaf_pair ''/run/halt-ca'' ''pypi.org''), a') \<and> length (ca_host a') = 2"
  by (simp add: leaf_for_def mint_leaf_def demo_leaf mint_ops py_simps openssl_def demo_ca_def)

theorem leaf_minted_once_witness:
  "\<exists>ps l a i. leaf_step\<^sup>*\<^sup>* demo_leaf_start (ps, l, a) \<and> i < 2
    \<and> ps ! i = Answered (Inr (leaf_pair ''/run/halt-ca'' ''pypi.org''))
    \<and> ca_leaves a ''pypi.org'' = Some (leaf_pair ''/run/halt-ca'' ''pypi.org'') \<and> length (ca_host a) = 2"
proof -
  let ?pair = "leaf_pair ''/run/halt-ca'' ''pypi.org''"
  obtain ps l a where r: "leaf_step\<^sup>*\<^sup>* demo_leaf_start (ps, l, a)" "\<nexists>d. leaf_step (ps, l, a) d"
    by (rule demo_leaf_ends)
  note inv = atomic_reachable [OF r(1)]
  obtain ord where ord: "in_turn [''pypi.org'', ''pypi.org''] demo_ca ord a" "distinct (map fst ord)" "set ord = answered ps"
    and ps: "length ps = 2" using inv leaf_stuck [OF inv r(2)] unfolding atomic_so_far_def prod.case by auto
  have all: "\<exists>r. ps ! i = Answered r" if "i < 2" for i using leaf_stuck [OF inv r(2)] that ps by auto
  have "fst ` set ord = {0, 1}" using ord(3) all ps by (force simp: answered_def image_iff less_2_cases_iff)
  then have "length ord = 2" using distinct_card [OF ord(2)] by simp
  then obtain i x j y where o: "ord = [(i, x), (j, y)]" by (auto simp: length_Suc_conv numeral_2_eq_2)
  have ij: "i < 2" "j < 2" "ps ! i = Answered x" using ord(3) o ps by (auto simp: answered_def set_eq_iff)
  have name: "[''pypi.org'', ''pypi.org''] ! n = ''pypi.org''" if "n < 2" for n :: nat using that by (auto simp: less_2_cases_iff)
  obtain a1 where "in_turn [''pypi.org'', ''pypi.org''] demo_ca [(i, x)] a1" and 2: "leaf_for ''pypi.org'' a1 = (y, a)"
    using in_turn_snoc [of "[''pypi.org'', ''pypi.org'']" demo_ca "[(i, x)]" j y a] ord(1) o name [OF ij(2)] by auto
  then have 1: "leaf_for ''pypi.org'' demo_ca = (x, a1)"
    using in_turn_snoc [of "[''pypi.org'', ''pypi.org'']" demo_ca "[]" i x a1] in_turn_none name [OF ij(1)] by auto
  have x: "x = Inr ?pair" "length (ca_host a) = 2" using demo_mint_twice 1 2 by auto
  have "i < length ps" "ps ! i = Answered (Inr ?pair)" using ij x(1) ps by simp_all
  from leaf_minted_once [OF r(1) demo_ca_ok this] have "ca_leaves a ''pypi.org'' = Some ?pair" using name [OF ij(1)] by simp
  then show ?thesis using r(1) ij(1,3) x by blast
qed

end
