(* ===== verification/Monitor.thy ===== *)
theory Monitor
  imports Supervisor Fuses
begin

text \<open>
  The fuses in front of the supervisor: whatever drives them hands every event a fuse returns
  to \<^verbatim>\<open>Supervisor.report\<close>. What that comes to is shown once, for any fuse that keeps its
  contract and any supervisor that keeps its own, and then for the four fuses together.
\<close>

definition watch ::
  "('obs \<Rightarrow> stamp \<Rightarrow> trip_event option) \<Rightarrow> (trip_event \<Rightarrow> ('k, unit) py) \<Rightarrow> 'b kill_backend \<Rightarrow> 'obs \<times> stamp \<Rightarrow>
   (('k, 'b) supervisor, unit) py" where
  "watch observe em B = (\<lambda>(obs, st).
     (case observe obs st of None \<Rightarrow> py_return () | Some e \<Rightarrow> report em B e))"

abbreviation trips :: "('obs \<Rightarrow> stamp \<Rightarrow> trip_event option) \<Rightarrow> ('obs \<times> stamp) list \<Rightarrow> trip_event list" where
  "trips observe obs \<equiv> List.map_filter (\<lambda>(ob, st). observe ob st) obs"

lemma set_trips: "set (List.map_filter f xs) = {y. \<exists>x \<in> set xs. f x = Some y}"
  by (induction xs) (auto simp: map_filter_simps split: option.splits)

lemma watch_apply: "watch observe em B (ob, st) = (case observe ob st of None \<Rightarrow> py_return () | Some e \<Rightarrow> report em B e)"
  by (simp add: watch_def)

lemma watch_reports: "py_for obs (watch observe em B) = py_for (trips observe obs) (report em B)"
proof (induction obs)
  case (Cons x obs)
  obtain ob st where x: "x = (ob, st)" by (cases x)
  show ?case
  proof (cases "observe ob st")
    case None
    then show ?thesis using Cons x by (simp add: watch_apply py_for.simps map_filter_simps py_seq_def py_bind_def py_return_def)
  next
    case (Some e)
    then show ?thesis using Cons x by (simp add: watch_apply py_for.simps map_filter_simps)
  qed
qed (simp add: map_filter_simps py_for.simps)

context fuse_contract
begin

lemma trips_kill: "e \<in> set (trips observe obs) \<Longrightarrow> is_kill e"
  using observe_SomeD by (fastforce simp: set_trips)

lemma some_trip: "(\<exists>e \<in> set (trips observe obs). is_kill e) \<longleftrightarrow> (\<exists>x \<in> set obs. violates (fst x))"
proof -
  have "(\<exists>e. e \<in> set (trips observe obs)) \<longleftrightarrow> (\<exists>x \<in> set obs. \<exists>e. observe (fst x) (snd x) = Some e)"
    by (force simp: set_trips)
  then show ?thesis using trips_kill observe_Some_iff by blast
qed

lemma first_trip: "find is_kill (trips observe obs) = (case trips observe obs of [] \<Rightarrow> None | e # _ \<Rightarrow> Some e)"
  using trips_kill [of _ obs] by (cases "trips observe obs") auto

end

section \<open>All fuses of a run\<close>

text \<open>One observation: a connection, the use of a token, a reading of the clock with the last
  heartbeat before it, a reading of the non-TCP counter.\<close>

datatype observation =
    Egress string int string
  | TokenUse string string
  | ClockRead rat rat
  | NonTcp int

fun any_observe :: "(rat \<Rightarrow> string) \<Rightarrow> policy \<Rightarrow> observation \<Rightarrow> stamp \<Rightarrow> trip_event option" where
  "any_observe fr p (Egress host port path) st = network_observe p st host port path"
| "any_observe fr p (TokenUse tok scope) st = credential_observe p st tok scope"
| "any_observe fr p (ClockRead beat now) st = watchdog_observe fr (heartbeat beat (watchdog_init p 0)) st now"
| "any_observe fr p (NonTcp n) st = nontcp_trip p n st"

fun any_violates :: "policy \<Rightarrow> observation \<Rightarrow> bool" where
  "any_violates p (Egress host port path) = (\<not> network_allowed p host port path)"
| "any_violates p (TokenUse tok scope) = (\<not> credential_permitted p tok scope)"
| "any_violates p (ClockRead beat now) = (pol_heartbeat_timeout_s p < now - beat)"
| "any_violates p (NonTcp n) = (0 < n)"

lemma watchdog_of: "wd_policy (heartbeat b (watchdog_init p n)) = p" "wd_last_beat (heartbeat b (watchdog_init p n)) = b"
  by (simp_all add: heartbeat_def watchdog_init_def)

interpretation fuses: fuse_contract "any_observe fr p" "any_violates p" p for fr p
proof unfold_locales
  fix ob st
  show "\<not> any_violates p ob \<Longrightarrow> any_observe fr p ob st = None"
  proof (cases ob)
    case (ClockRead b now)
    then show "\<not> any_violates p ob \<Longrightarrow> ?thesis"
      using wd.silent [where w = "heartbeat b (watchdog_init p 0)" and fr = fr and st = st] by (simp add: watchdog_of)
  qed (use net.silent [where p = p and st = st] cred.silent [where p = p and st = st]
      nontcp.silent [where p = p and st = st] in auto)
  show "any_violates p ob \<Longrightarrow> \<exists>e. any_observe fr p ob st = Some e \<and> te_severity e = KILL
      \<and> te_org_id e = pol_org_id p \<and> te_run_id e = pol_run_id p \<and> te_event_id e = st_event_id st \<and> te_ts e = st_ts st"
  proof (cases ob)
    case (ClockRead b now)
    then show "any_violates p ob \<Longrightarrow> ?thesis"
      using wd.trips [where w = "heartbeat b (watchdog_init p 0)" and fr = fr and st = st] by (simp add: watchdog_of)
  qed (use net.trips [where p = p and st = st] cred.trips [where p = p and st = st]
      nontcp.trips [where p = p and st = st] in auto)
qed

text \<open>What an observation must be for its event to have a JSON text.\<close>

fun observation_ok :: "(rat \<Rightarrow> string) \<Rightarrow> (string \<Rightarrow> rat option) \<Rightarrow> policy \<Rightarrow> observation \<Rightarrow> bool" where
  "observation_ok fr fp p (Egress host port path) = json_ok fr fp (JInt port)"
| "observation_ok fr fp p (TokenUse tok scope) = True"
| "observation_ok fr fp p (ClockRead beat now) =
     (float_text fr fp (now - beat) \<and> float_text fr fp (pol_heartbeat_timeout_s p))"
| "observation_ok fr fp p (NonTcp n) = json_ok fr fp (JInt n)"

lemma any_event_ok:
  "any_observe fr p ob st = Some e \<Longrightarrow> observation_ok fr fp p ob \<Longrightarrow> float_text fr fp (st_ts st) \<Longrightarrow> event_ok fr fp e"
  by (cases ob)
    (auto simp: network_observe_def credential_observe_def watchdog_observe_def nontcp_trip_def make_event_def event_ok_def
      Let_def watchdog_of list_all_iff split: if_splits option.splits)

text \<open>
  C8. A run under all four fuses on gVisor with a durable record: each observation is judged by
  the policy alone; the record gains exactly one event per violation, in order; the first
  violation is the cause; and the backend is called for one kill if there was a violation,
  for none otherwise.
\<close>
theorem fuses_kill:
  assumes "durable fp k" "gvisor_total g" "list_all (\<lambda>(ob, st). observation_ok fr fp p ob \<and> float_text fr fp (st_ts st)) obs"
  shows "\<exists>s'. py_for obs (watch (any_observe fr p) (emit fr) (logging gvisor_backend))
        (supervisor_init (g, []) k run (Some creds)) = (Inr (), s')
    \<and> durable_record fp (sup_sink s') = durable_record fp k @ trips (any_observe fr p) obs
    \<and> length (trips (any_observe fr p) obs) = length (filter (any_violates p \<circ> fst) obs)
    \<and> sup_killed s' = (\<exists>x \<in> set obs. any_violates p (fst x))
    \<and> sup_cause s' = (case trips (any_observe fr p) obs of [] \<Rightarrow> None | e # _ \<Rightarrow> Some e)
    \<and> snd (sup_backend s') = (if sup_killed s' then map Revoke creds @ [Sever run, Terminate run] else [])"
proof -
  have ok: "list_all (event_ok fr fp) (trips (any_observe fr p) obs)"
    using assms(3) any_event_ok by (fastforce simp: list_all_iff set_trips)
  obtain s' where s': "py_for (trips (any_observe fr p) obs) (report (emit fr) (logging gvisor_backend))
        (supervisor_init (g, []) k run (Some creds)) = (Inr (), s')"
      "durable_record fp (sup_sink s') = durable_record fp k @ trips (any_observe fr p) obs"
      "kill_outcome gvisor_backend run creds (trips (any_observe fr p) obs) s'"
    using supervised_run [OF gvisor_run.supervised_axioms gvisor.total_backend_axioms assms(1) ok assms(2)] by blast
  then show ?thesis
    using fuses.observations_trip [where fr = fr and p = p]
    by (intro exI [of _ s']) (simp add: watch_reports kill_outcome_def kill_plan_def fuses.some_trip fuses.first_trip)
qed

definition demo_readings :: "(observation \<times> stamp) list" where
  "demo_readings = (let t = \<lparr>st_event_id = ''e-1'', st_ts = 3 / 2\<rparr> in
     [(NonTcp 0, t), (TokenUse ''tok-9'' ''npm:read'', t), (NonTcp 2, t)])"

theorem fuses_kill_witness:
  "\<exists>s'. py_for demo_readings (watch (any_observe demo_fr (default_policy ''run-1'')) (emit demo_fr) (logging gvisor_backend))
        (supervisor_init (demo_gvisor, []) demo_tee ''run-1'' (Some [''tok-1''])) = (Inr (), s')
    \<and> sup_killed s' \<and> length (durable_record demo_fp (sup_sink s')) = 2
    \<and> snd (sup_backend s') = [Revoke ''tok-1'', Sever ''run-1'', Terminate ''run-1'']"
proof -
  let ?p = "default_policy ''run-1''"
  have "float_text demo_fr demo_fp (3 / 2)" using demo_event_ok by (simp add: event_ok_def demo_event_def make_event_def)
  then have ok: "list_all (\<lambda>(ob, st). observation_ok demo_fr demo_fp ?p ob \<and> float_text demo_fr demo_fp (st_ts st)) demo_readings"
    by (simp add: demo_readings_def Let_def show_nat.simps int_max_str_digits_def)
  have v: "\<not> credential_permitted ?p ''tok-9'' ''npm:read''"
    by (simp add: credential_permitted_def credential_scopes_for_def default_policy_def)
  have n: "length (filter (any_violates ?p \<circ> fst) demo_readings) = 2" "\<exists>x \<in> set demo_readings. any_violates ?p (fst x)"
    using v by (simp_all add: demo_readings_def Let_def)
  from fuses_kill [OF demo_tee_durable(1) demo_gvisor_total ok, of "''run-1''" "[''tok-1'']"]
  obtain s' where s': "py_for demo_readings (watch (any_observe demo_fr ?p) (emit demo_fr) (logging gvisor_backend))
        (supervisor_init (demo_gvisor, []) demo_tee ''run-1'' (Some [''tok-1''])) = (Inr (), s')"
      "durable_record demo_fp (sup_sink s') = durable_record demo_fp demo_tee @ trips (any_observe demo_fr ?p) demo_readings"
      "length (trips (any_observe demo_fr ?p) demo_readings) = 2" "sup_killed s'"
      "snd (sup_backend s') = map Revoke [''tok-1''] @ [Sever ''run-1'', Terminate ''run-1'']"
    using n by auto
  then show ?thesis by (intro exI [of _ s']) (simp add: demo_tee_durable(2))
qed

end
