(* ===== verification/Netns.thy ===== *)
theory Netns
  imports Backends Fuses "HOL-Library.Multiset"
begin

text \<open>
  \<^verbatim>\<open>halt/intercept/netns.py\<close>: \<^verbatim>\<open>NetnsEgress\<close>, which builds and removes the forced-egress
  namespace with \<^verbatim>\<open>ip\<close> and \<^verbatim>\<open>iptables\<close> commands, and the counter of non-TCP packets. The
  commands go through the injected runner, as in theory Backends.
\<close>

section \<open>Configuration\<close>

record netns_config =
  nc_name :: string
  nc_host_if :: string
  nc_sandbox_if :: string
  nc_host_addr :: string
  nc_sandbox_addr :: string
  nc_prefix_len :: int

definition netns_config_default :: "string \<Rightarrow> netns_config" where
  "netns_config_default name =
     \<lparr>nc_name = name, nc_host_if = ''halt0'', nc_sandbox_if = ''halt1'', nc_host_addr = ''10.201.0.1'',
      nc_sandbox_addr = ''10.201.0.2'', nc_prefix_len = 30\<rparr>"

definition host_cidr :: "netns_config \<Rightarrow> string" where
  "host_cidr c = nc_host_addr c @ ''/'' @ show_int (nc_prefix_len c)"

definition sandbox_cidr :: "netns_config \<Rightarrow> string" where
  "sandbox_cidr c = nc_sandbox_addr c @ ''/'' @ show_int (nc_prefix_len c)"

record 'h netns_egress =
  ne_config :: netns_config
  ne_run :: "'h runner"
  ne_created :: bool
  ne_rules :: "string list list"
  ne_host :: 'h

text \<open>
  The default runner. \<open>sp\<close> is \<^verbatim>\<open>subprocess.run\<close>, with the keywords that are given; both
  defaults are set unless the caller set them.
\<close>

definition setdefault :: "'k \<Rightarrow> 'v \<Rightarrow> ('k \<rightharpoonup> 'v) \<Rightarrow> ('k \<rightharpoonup> 'v)" where
  "setdefault k v m = (case m k of None \<Rightarrow> m(k \<mapsto> v) | Some _ \<Rightarrow> m)"

definition run_captured ::
  "(string list \<Rightarrow> (string \<rightharpoonup> bool) \<Rightarrow> ('h, completed) py) \<Rightarrow> string list \<Rightarrow> (string \<rightharpoonup> bool) \<Rightarrow> ('h, completed) py" where
  "run_captured sp cmd kw = sp cmd (setdefault ''text'' True (setdefault ''capture_output'' True kw))"

definition default_runner :: "(string list \<Rightarrow> (string \<rightharpoonup> bool) \<Rightarrow> ('h, completed) py) \<Rightarrow> 'h runner" where
  "default_runner sp cmd = run_captured sp cmd Map.empty"

definition netns_init :: "netns_config \<Rightarrow> 'h runner \<Rightarrow> 'h \<Rightarrow> 'h netns_egress" where
  "netns_init c run h = \<lparr>ne_config = c, ne_run = run, ne_created = False, ne_rules = [], ne_host = h\<rparr>"

section \<open>Commands\<close>

definition run_cmd :: "string list \<Rightarrow> ('h netns_egress, completed) py" where
  "run_cmd cmd s = py_on ne_host (\<lambda>h s. s\<lparr>ne_host := h\<rparr>) (ne_run s cmd) s"

definition ip_cmd :: "string list \<Rightarrow> ('h netns_egress, completed) py" where
  "ip_cmd args = run_cmd (''ip'' # args)"

definition in_ns :: "string list \<Rightarrow> ('h netns_egress, completed) py" where
  "in_ns args s = run_cmd ([''ip'', ''netns'', ''exec'', nc_name (ne_config s)] @ args) s"

definition iptables_add :: "string list \<Rightarrow> ('h netns_egress, completed) py" where
  "iptables_add rule =
     py_seq (py_modify (\<lambda>s. s\<lparr>ne_rules := ne_rules s @ [rule]\<rparr>)) (run_cmd (''iptables'' # rule))"

section \<open>Lifecycle\<close>

definition netns_create :: "('h netns_egress, unit) py" where
  "netns_create s =
     (let c = ne_config s in
      py_seq (ip_cmd [''netns'', ''add'', nc_name c])
     (py_seq (ip_cmd [''link'', ''add'', nc_host_if c, ''type'', ''veth'', ''peer'', ''name'', nc_sandbox_if c])
     (py_seq (ip_cmd [''link'', ''set'', nc_sandbox_if c, ''netns'', nc_name c])
     (py_seq (ip_cmd [''addr'', ''add'', host_cidr c, ''dev'', nc_host_if c])
     (py_seq (ip_cmd [''link'', ''set'', nc_host_if c, ''up''])
     (py_seq (in_ns [''ip'', ''link'', ''set'', ''lo'', ''up''])
     (py_seq (in_ns [''ip'', ''addr'', ''add'', sandbox_cidr c, ''dev'', nc_sandbox_if c])
     (py_seq (in_ns [''ip'', ''link'', ''set'', nc_sandbox_if c, ''up''])
     (py_seq (in_ns [''ip'', ''route'', ''add'', ''default'', ''via'', nc_host_addr c])
       (py_modify (\<lambda>s. s\<lparr>ne_created := True\<rparr>)))))))))) s)"

definition redirect_rule :: "netns_config \<Rightarrow> int \<Rightarrow> string list" where
  "redirect_rule c port =
     [''-t'', ''nat'', ''-A'', ''PREROUTING'', ''-i'', nc_host_if c, ''-p'', ''tcp'',
      ''-j'', ''REDIRECT'', ''--to-ports'', show_int port]"

definition redirect_tcp_to :: "int \<Rightarrow> ('h netns_egress, bool) py" where
  "redirect_tcp_to port s =
     py_bind (iptables_add (redirect_rule (ne_config s) port)) (\<lambda>r. py_return (cp_returncode r = 0)) s"

definition input_rule :: "netns_config \<Rightarrow> string list" where
  "input_rule c = [''-A'', ''INPUT'', ''-i'', nc_host_if c, ''!'', ''-p'', ''tcp'', ''-j'', ''DROP'']"

definition forward_rule :: "netns_config \<Rightarrow> string list" where
  "forward_rule c = [''-A'', ''FORWARD'', ''-i'', nc_host_if c, ''-j'', ''DROP'']"

definition drop_non_tcp :: "('h netns_egress, bool) py" where
  "drop_non_tcp s =
     py_bind (iptables_add (input_rule (ne_config s))) (\<lambda>a.
     py_bind (iptables_add (forward_rule (ne_config s))) (\<lambda>b.
       py_return (cp_returncode a = 0 \<and> cp_returncode b = 0))) s"

definition count_rule :: "netns_config \<Rightarrow> string list" where
  "count_rule c = [''-t'', ''mangle'', ''-A'', ''PREROUTING'', ''-i'', nc_host_if c, ''!'', ''-p'', ''tcp'']"

definition count_non_tcp :: "('h netns_egress, bool) py" where
  "count_non_tcp s =
     py_bind (iptables_add (count_rule (ne_config s))) (\<lambda>r. py_return (cp_returncode r = 0)) s"

definition delete_args :: "string list \<Rightarrow> string list" where
  "delete_args rule = map (\<lambda>tok. if tok = ''-A'' then ''-D'' else tok) rule"

definition delete_rule :: "string list \<Rightarrow> ('h netns_egress, unit) py" where
  "delete_rule rule = py_seq (run_cmd (''iptables'' # delete_args rule)) (py_return ())"

definition netns_destroy :: "('h netns_egress, unit) py" where
  "netns_destroy s =
     (let c = ne_config s in
      py_seq (py_for (rev (ne_rules s)) delete_rule)
     (py_seq (py_modify (\<lambda>s. s\<lparr>ne_rules := []\<rparr>))
     (py_seq (ip_cmd [''netns'', ''del'', nc_name c])
     (py_seq (ip_cmd [''link'', ''del'', nc_host_if c])
       (py_modify (\<lambda>s. s\<lparr>ne_created := False\<rparr>))))) s)"

text \<open>\<^verbatim>\<open>with egress: body\<close>: \<^verbatim>\<open>__exit__\<close> runs when \<^verbatim>\<open>__enter__\<close> returned, however the body ends.\<close>

definition with_netns :: "('h netns_egress, 'a) py \<Rightarrow> ('h netns_egress, 'a) py" where
  "with_netns body = py_seq netns_create (py_finally body netns_destroy)"

definition netns_routes :: "('h netns_egress, completed) py" where
  "netns_routes = in_ns [''ip'', ''route'', ''show'']"

definition exec_in_ns :: "string list \<Rightarrow> ('h netns_egress, completed) py" where
  "exec_in_ns args = in_ns args"

section \<open>The non-TCP counter\<close>

text \<open>\<^verbatim>\<open>str.splitlines\<close> on Latin-1: every line boundary, \<^verbatim>\<open>CR LF\<close> as one.\<close>

definition is_line_break :: "char \<Rightarrow> bool" where
  "is_line_break c \<longleftrightarrow> ord_of c \<in> {10, 11, 12, 13, 28, 29, 30, 133}"

function splitlines :: "string \<Rightarrow> string list" where
  "splitlines [] = []"
| "splitlines (c # s) =
     (if is_line_break c then [] # splitlines (if c = CR \<and> take 1 s = [LF] then drop 1 s else s)
      else case splitlines s of [] \<Rightarrow> [[c]] | l # ls \<Rightarrow> (c # l) # ls)"
  by pat_completeness auto
termination
  by (relation "measure length") auto

definition counted_row :: "string \<Rightarrow> string list \<Rightarrow> bool" where
  "counted_row host_if tok \<longleftrightarrow>
     \<not> (length tok < 6 \<or> \<not> isdigit (tok ! 0)) \<and> host_if \<in> set tok \<and> (''!6'' \<in> set tok \<or> ''!tcp'' \<in> set tok)"

fun sum_counters :: "string \<Rightarrow> string list \<Rightarrow> int \<Rightarrow> py_exn + int" where
  "sum_counters host_if [] acc = Inr acc"
| "sum_counters host_if (line # ls) acc =
     (let tok = split_ws line in
      if counted_row host_if tok then
        (case py_int (tok ! 0) of Inl e \<Rightarrow> Inl e | Inr n \<Rightarrow> sum_counters host_if ls (acc + n))
      else sum_counters host_if ls acc)"

definition parse_non_tcp_counter :: "string \<Rightarrow> string \<Rightarrow> py_exn + int" where
  "parse_non_tcp_counter listing host_if = sum_counters host_if (splitlines listing) 0"

definition non_tcp_packets :: "('h netns_egress, int) py" where
  "non_tcp_packets =
     py_bind (run_cmd [''iptables'', ''-t'', ''mangle'', ''-L'', ''PREROUTING'', ''-v'', ''-n'', ''-x''])
       (\<lambda>r s. (parse_non_tcp_counter (case cp_stdout r of None \<Rightarrow> [] | Some out \<Rightarrow> out) (nc_host_if (ne_config s)), s))"

section \<open>What the rules leave behind\<close>

text \<open>
  What is relied on of the host: \<open>rules_of\<close> is the multiset of the \<^verbatim>\<open>iptables\<close> rules in
  force, each as the arguments that add it. Adding succeeds or leaves the rules as they
  were; deleting removes one rule equal to the one named, when there is one; \<^verbatim>\<open>ip\<close> commands
  touch no rule. No command raises.
\<close>

definition rule_args :: "string list \<Rightarrow> bool" where
  "rule_args r \<longleftrightarrow> count_list r ''-A'' = 1 \<and> ''-D'' \<notin> set r"

definition iptables_host :: "'h runner \<Rightarrow> ('h \<Rightarrow> string list multiset) \<Rightarrow> bool" where
  "iptables_host run rules_of \<longleftrightarrow>
     (\<forall>h r. rule_args r \<longrightarrow>
        (\<exists>c h'. run (''iptables'' # r) h = (Inr c, h')
           \<and> rules_of h' = (if cp_returncode c = 0 then add_mset r (rules_of h) else rules_of h)))
   \<and> (\<forall>h r. rule_args r \<longrightarrow>
        (\<exists>c h'. run (''iptables'' # delete_args r) h = (Inr c, h') \<and> rules_of h' = rules_of h - {#r#}))
   \<and> (\<forall>h args. \<exists>c h'. run (''ip'' # args) h = (Inr c, h') \<and> rules_of h' = rules_of h)"

lemma iptables_hostD:
  assumes "iptables_host run rules_of"
  shows iptables_hostD_add: "rule_args r \<Longrightarrow> \<exists>c h'. run (''iptables'' # r) h = (Inr c, h')
      \<and> rules_of h' = (if cp_returncode c = 0 then add_mset r (rules_of h) else rules_of h)"
    and iptables_hostD_delete: "rule_args r \<Longrightarrow> \<exists>c h'. run (''iptables'' # delete_args r) h = (Inr c, h')
      \<and> rules_of h' = rules_of h - {#r#}"
    and iptables_hostD_ip: "\<exists>c h'. run (''ip'' # args) h = (Inr c, h') \<and> rules_of h' = rules_of h"
  using assms unfolding iptables_host_def by simp_all

text \<open>The operations that prepare an egress, in any order and number, and their answers.\<close>

datatype netns_task = Create | RedirectTcpTo int | DropNonTcp | CountNonTcp

fun netns_op :: "netns_task \<Rightarrow> ('h netns_egress, bool) py" where
  "netns_op Create = py_seq netns_create (py_return True)"
| "netns_op (RedirectTcpTo port) = redirect_tcp_to port"
| "netns_op DropNonTcp = drop_non_tcp"
| "netns_op CountNonTcp = count_non_tcp"

fun netns_setup :: "netns_task list \<Rightarrow> ('h netns_egress, bool) py" where
  "netns_setup [] = py_return True"
| "netns_setup (x # xs) = py_bind (netns_op x) (\<lambda>a. py_bind (netns_setup xs) (\<lambda>b. py_return (a \<and> b)))"

text \<open>An interface name that is no option of the command.\<close>

definition config_ok :: "netns_config \<Rightarrow> bool" where
  "config_ok c \<longleftrightarrow> nc_host_if c \<notin> {''-A'', ''-D''}"

lemma show_int_not_option: "show_int n \<noteq> ''-A''" "show_int n \<noteq> ''-D''"
  using show_nat_decimal [of "nat n"] show_nat_decimal [of "nat (- n)"]
  by (auto simp: show_int_def is_decimal_def split: if_splits)

lemma rules_are_args [simp]:
  assumes "config_ok c"
  shows "rule_args (redirect_rule c port)" "rule_args (input_rule c)" "rule_args (forward_rule c)" "rule_args (count_rule c)"
  using assms show_int_not_option [of port]
  by (auto simp: rule_args_def config_ok_def redirect_rule_def input_rule_def forward_rule_def count_rule_def)

lemma run_cmd_run [py_simps]: "run_cmd cmd s = (case ne_run s cmd (ne_host s) of (r, h) \<Rightarrow> (r, s\<lparr>ne_host := h\<rparr>))"
  by (simp add: run_cmd_def py_simps)

lemma in_ns_run: "in_ns args s = run_cmd ([''ip'', ''netns'', ''exec'', nc_name (ne_config s)] @ args) s"
  by (simp add: in_ns_def)

text \<open>
  The rules in force are those of before and, while every add so far has succeeded, the
  ones the object remembers.
\<close>

definition rules_tracked :: "('h \<Rightarrow> string list multiset) \<Rightarrow> string list multiset \<Rightarrow> 'h netns_egress \<Rightarrow> bool" where
  "rules_tracked rules_of before s \<longleftrightarrow>
     rules_of (ne_host s) = before + mset (ne_rules s) \<and> (\<forall>r \<in> set (ne_rules s). rule_args r)"

lemma ip_tracked:
  assumes "iptables_host (ne_run s) rules_of"
  shows "\<exists>c h. ip_cmd args s = (Inr c, s\<lparr>ne_host := h\<rparr>) \<and> rules_of h = rules_of (ne_host s)"
    and "\<exists>c h. in_ns args s = (Inr c, s\<lparr>ne_host := h\<rparr>) \<and> rules_of h = rules_of (ne_host s)"
proof -
  have ip: "\<exists>c h'. ne_run s (''ip'' # xs) h = (Inr c, h') \<and> rules_of h' = rules_of h" for xs h
    by (rule iptables_hostD_ip [OF assms])
  show "\<exists>c h. ip_cmd args s = (Inr c, s\<lparr>ne_host := h\<rparr>) \<and> rules_of h = rules_of (ne_host s)"
    using ip [of args "ne_host s"] by (auto simp: ip_cmd_def py_simps)
  show "\<exists>c h. in_ns args s = (Inr c, s\<lparr>ne_host := h\<rparr>) \<and> rules_of h = rules_of (ne_host s)"
    using ip [of "[''netns'', ''exec'', nc_name (ne_config s)] @ args" "ne_host s"] by (auto simp: in_ns_run py_simps)
qed

text \<open>A command that changes only the host, and no rule of it.\<close>

definition quiet :: "('h \<Rightarrow> string list multiset) \<Rightarrow> 'h runner \<Rightarrow> netns_config \<Rightarrow> ('h netns_egress, 'a) py \<Rightarrow> bool" where
  "quiet rules_of run cfg m \<longleftrightarrow>
     (\<forall>s. ne_run s = run \<longrightarrow> ne_config s = cfg \<longrightarrow>
        (\<exists>x h b. m s = (Inr x, s\<lparr>ne_host := h, ne_created := b\<rparr>) \<and> rules_of h = rules_of (ne_host s)))"

lemma quietI:
  assumes "\<And>s. ne_run s = run \<Longrightarrow> ne_config s = cfg \<Longrightarrow>
    \<exists>x h. m s = (Inr x, s\<lparr>ne_host := h\<rparr>) \<and> rules_of h = rules_of (ne_host s)"
  shows "quiet rules_of run cfg m"
  unfolding quiet_def
proof (intro allI impI)
  fix s :: "'a netns_egress"
  assume "ne_run s = run" "ne_config s = cfg"
  from assms [OF this] obtain x h where "m s = (Inr x, s\<lparr>ne_host := h\<rparr>)" "rules_of h = rules_of (ne_host s)" by blast
  then show "\<exists>x h b. m s = (Inr x, s\<lparr>ne_host := h, ne_created := b\<rparr>) \<and> rules_of h = rules_of (ne_host s)"
    by (intro exI [of _ x] exI [of _ h] exI [of _ "ne_created s"]) simp
qed

lemma quiet_ip: "iptables_host run rules_of \<Longrightarrow> quiet rules_of run cfg (ip_cmd args)"
  by (rule quietI) (use ip_tracked(1) in blast)

lemma quiet_ns: "iptables_host run rules_of \<Longrightarrow> quiet rules_of run cfg (in_ns args)"
  by (rule quietI) (use ip_tracked(2) in blast)

lemma quiet_created: "quiet rules_of run cfg (py_modify (\<lambda>s. s\<lparr>ne_created := b\<rparr>))"
  unfolding quiet_def
proof (intro allI impI)
  fix s :: "'a netns_egress"
  show "\<exists>x h b'. py_modify (\<lambda>s. s\<lparr>ne_created := b\<rparr>) s = (Inr x, s\<lparr>ne_host := h, ne_created := b'\<rparr>)
      \<and> rules_of h = rules_of (ne_host s)"
    by (intro exI [of _ "()"] exI [of _ "ne_host s"] exI [of _ b]) (simp add: py_simps)
qed

lemma quiet_seq:
  assumes "quiet rules_of run cfg m" "quiet rules_of run cfg k"
  shows "quiet rules_of run cfg (py_seq m k)"
  unfolding quiet_def
proof (intro allI impI)
  fix s :: "'a netns_egress"
  assume s: "ne_run s = run" "ne_config s = cfg"
  obtain x h b where 1: "m s = (Inr x, s\<lparr>ne_host := h, ne_created := b\<rparr>)" "rules_of h = rules_of (ne_host s)"
    using assms(1) s unfolding quiet_def by blast
  let ?s1 = "s\<lparr>ne_host := h, ne_created := b\<rparr>"
  have "ne_run ?s1 = run" "ne_config ?s1 = cfg" using s by simp_all
  then obtain y h' b' where "k ?s1 = (Inr y, ?s1\<lparr>ne_host := h', ne_created := b'\<rparr>)" "rules_of h' = rules_of (ne_host ?s1)"
    using assms(2) unfolding quiet_def by blast
  then show "\<exists>x h b. py_seq m k s = (Inr x, s\<lparr>ne_host := h, ne_created := b\<rparr>) \<and> rules_of h = rules_of (ne_host s)"
    using 1 by (intro exI [of _ y] exI [of _ h'] exI [of _ b']) (simp add: py_simps)
qed


lemma quiet_create: "iptables_host run rules_of \<Longrightarrow> quiet rules_of run cfg netns_create"
proof -
  assume h: "iptables_host run rules_of"
  note q = quiet_ip [OF h] quiet_ns [OF h] quiet_created
  have "netns_create s = (py_seq (ip_cmd [''netns'', ''add'', nc_name cfg])
     (py_seq (ip_cmd [''link'', ''add'', nc_host_if cfg, ''type'', ''veth'', ''peer'', ''name'', nc_sandbox_if cfg])
     (py_seq (ip_cmd [''link'', ''set'', nc_sandbox_if cfg, ''netns'', nc_name cfg])
     (py_seq (ip_cmd [''addr'', ''add'', host_cidr cfg, ''dev'', nc_host_if cfg])
     (py_seq (ip_cmd [''link'', ''set'', nc_host_if cfg, ''up''])
     (py_seq (in_ns [''ip'', ''link'', ''set'', ''lo'', ''up''])
     (py_seq (in_ns [''ip'', ''addr'', ''add'', sandbox_cidr cfg, ''dev'', nc_sandbox_if cfg])
     (py_seq (in_ns [''ip'', ''link'', ''set'', nc_sandbox_if cfg, ''up''])
     (py_seq (in_ns [''ip'', ''route'', ''add'', ''default'', ''via'', nc_host_addr cfg])
       (py_modify (\<lambda>s. s\<lparr>ne_created := True\<rparr>)))))))))) ) s" (is "_ = ?chain s") if "ne_config s = cfg" for s :: "'a netns_egress"
    using that by (simp add: netns_create_def Let_def)
  moreover have "quiet rules_of run cfg ?chain" by (intro quiet_seq q)
  ultimately show ?thesis unfolding quiet_def by simp
qed

lemma add_tracked:
  assumes "iptables_host (ne_run s) rules_of" "rule_args r" "rules_tracked rules_of before s"
  shows "\<exists>c s'. iptables_add r s = (Inr c, s') \<and> ne_run s' = ne_run s \<and> ne_config s' = ne_config s
    \<and> ne_rules s' = ne_rules s @ [r] \<and> (cp_returncode c = 0 \<longrightarrow> rules_tracked rules_of before s')"
proof -
  obtain c h' where "ne_run s (''iptables'' # r) (ne_host s) = (Inr c, h')"
      "rules_of h' = (if cp_returncode c = 0 then add_mset r (rules_of (ne_host s)) else rules_of (ne_host s))"
    using iptables_hostD_add [OF assms(1,2)] by blast
  then show ?thesis using assms(2,3)
    by (intro exI [of _ c] exI [of _ "s\<lparr>ne_rules := ne_rules s @ [r], ne_host := h'\<rparr>"])
      (simp add: iptables_add_def py_simps rules_tracked_def)
qed

lemma op_tracked:
  assumes "iptables_host (ne_run s) rules_of" "config_ok (ne_config s)" "rules_tracked rules_of before s"
    and "netns_op x s = (Inr True, s')"
  shows "rules_tracked rules_of before s' \<and> ne_run s' = ne_run s \<and> ne_config s' = ne_config s"
proof (cases x)
  case Create
  obtain u h b where "netns_create s = (Inr u, s\<lparr>ne_host := h, ne_created := b\<rparr>)" "rules_of h = rules_of (ne_host s)"
    using quiet_create [OF assms(1), of "ne_config s"] unfolding quiet_def by blast
  then show ?thesis using assms(3,4) Create by (auto simp: py_simps rules_tracked_def)
next
  case (RedirectTcpTo port)
  obtain c s1 where "iptables_add (redirect_rule (ne_config s) port) s = (Inr c, s1)" "ne_run s1 = ne_run s"
      "ne_config s1 = ne_config s" "cp_returncode c = 0 \<longrightarrow> rules_tracked rules_of before s1"
    using add_tracked [OF assms(1) _ assms(3)] assms(2) by (metis rules_are_args(1))
  then show ?thesis using assms(4) RedirectTcpTo by (auto simp: redirect_tcp_to_def py_simps)
next
  case CountNonTcp
  obtain c s1 where "iptables_add (count_rule (ne_config s)) s = (Inr c, s1)" "ne_run s1 = ne_run s"
      "ne_config s1 = ne_config s" "cp_returncode c = 0 \<longrightarrow> rules_tracked rules_of before s1"
    using add_tracked [OF assms(1) _ assms(3)] assms(2) by (metis rules_are_args(4))
  then show ?thesis using assms(4) CountNonTcp by (auto simp: count_non_tcp_def py_simps)
next
  case DropNonTcp
  obtain a s1 where 1: "iptables_add (input_rule (ne_config s)) s = (Inr a, s1)" "ne_run s1 = ne_run s"
      "ne_config s1 = ne_config s" "cp_returncode a = 0 \<longrightarrow> rules_tracked rules_of before s1"
    using add_tracked [OF assms(1) _ assms(3)] assms(2) by (metis rules_are_args(2))
  obtain r s2 where 2: "iptables_add (forward_rule (ne_config s)) s1 = (r, s2)" by fastforce
  have "cp_returncode a = 0" using 1(1) 2 assms(4) DropNonTcp by (cases r) (auto simp: drop_non_tcp_def py_simps)
  then obtain b where b: "r = Inr b" "ne_run s2 = ne_run s" "ne_config s2 = ne_config s"
      "cp_returncode b = 0 \<longrightarrow> rules_tracked rules_of before s2"
    using add_tracked [of s1 rules_of "forward_rule (ne_config s)" before] 1 2 assms(1,2) by (metis Pair_inject rules_are_args(3))
  then show ?thesis using 1 2 assms(4) DropNonTcp by (auto simp: drop_non_tcp_def py_simps)
qed

lemma setup_tracked:
  "iptables_host (ne_run s) rules_of \<Longrightarrow> config_ok (ne_config s) \<Longrightarrow> rules_tracked rules_of before s \<Longrightarrow>
     netns_setup xs s = (Inr True, s') \<Longrightarrow>
     rules_tracked rules_of before s' \<and> ne_run s' = ne_run s \<and> ne_config s' = ne_config s"
proof (induction xs arbitrary: s)
  case (Cons x xs)
  obtain s1 where 1: "netns_op x s = (Inr True, s1)" "netns_setup xs s1 = (Inr True, s')"
    using Cons.prems(4) by (auto simp: py_simps split: prod.splits sum.splits)
  show ?case using op_tracked [OF Cons.prems(1-3) 1(1)] Cons.IH [of s1] 1(2) Cons.prems(1,2) by simp
qed (simp add: py_simps)

lemma delete_rules:
  "iptables_host (ne_run s) rules_of \<Longrightarrow> \<forall>r \<in> set rs. rule_args r \<Longrightarrow>
     \<exists>h. py_for rs delete_rule s = (Inr (), s\<lparr>ne_host := h\<rparr>)
       \<and> rules_of h = rules_of (ne_host s) - mset rs"
proof (induction rs arbitrary: s)
  case Nil
  then show ?case by (intro exI [of _ "ne_host s"]) (simp add: py_simps)
next
  case (Cons r rs)
  obtain c h where h: "ne_run s (''iptables'' # delete_args r) (ne_host s) = (Inr c, h)"
      "rules_of h = rules_of (ne_host s) - {#r#}"
    using iptables_hostD_delete [OF Cons.prems(1)] Cons.prems(2) by (metis list.set_intros(1))
  obtain h' where "py_for rs delete_rule (s\<lparr>ne_host := h\<rparr>) =
      (Inr (), s\<lparr>ne_host := h'\<rparr>)" "rules_of h' = rules_of h - mset rs"
    using Cons.IH [of "s\<lparr>ne_host := h\<rparr>"] Cons.prems by auto
  moreover have "delete_rule r s = (Inr (), s\<lparr>ne_host := h\<rparr>)" using h(1) by (simp add: delete_rule_def py_simps)
  ultimately show ?case using h(2) by (intro exI [of _ h']) (simp add: py_for_Cons_run)
qed

lemma destroy_outcome:
  assumes "iptables_host (ne_run s) rules_of" "\<forall>r \<in> set (ne_rules s). rule_args r"
  shows "\<exists>h. netns_destroy s = (Inr (), s\<lparr>ne_host := h, ne_rules := [], ne_created := False\<rparr>)
    \<and> rules_of h = rules_of (ne_host s) - mset (ne_rules s)"
proof -
  obtain h where h: "py_for (rev (ne_rules s)) delete_rule s =
      (Inr (), s\<lparr>ne_host := h\<rparr>)" "rules_of h = rules_of (ne_host s) - mset (ne_rules s)"
    using delete_rules [OF assms(1), of "rev (ne_rules s)"] assms(2) by auto
  let ?s1 = "s\<lparr>ne_host := h, ne_rules := []\<rparr>"
  obtain c h1 where 1: "ip_cmd [''netns'', ''del'', nc_name (ne_config s)] ?s1 = (Inr c, ?s1\<lparr>ne_host := h1\<rparr>)"
      "rules_of h1 = rules_of h"
    using ip_tracked(1) [of ?s1 rules_of "[''netns'', ''del'', nc_name (ne_config s)]"] assms(1) by auto
  obtain d h2 where 2: "ip_cmd [''link'', ''del'', nc_host_if (ne_config s)] (?s1\<lparr>ne_host := h1\<rparr>) =
      (Inr d, ?s1\<lparr>ne_host := h2\<rparr>)" "rules_of h2 = rules_of h"
    using ip_tracked(1) [of "?s1\<lparr>ne_host := h1\<rparr>" rules_of "[''link'', ''del'', nc_host_if (ne_config s)]"] assms(1) 1(2) by auto
  show ?thesis using h 1 2
    by (intro exI [of _ h2]) (simp add: netns_destroy_def Let_def py_simps)
qed

text \<open>
  C29. No rule outlives its sandbox, and none of another is lost: after any sequence of setup
  operations that all answered \<^verbatim>\<open>True\<close>, \<^verbatim>\<open>destroy()\<close> leaves the host with exactly the
  rules it had before, whatever they were, and the object as it was created.
\<close>
theorem destroy_restores_rules:
  assumes "iptables_host run rules_of" "config_ok c" "netns_setup ops (netns_init c run h) = (Inr True, s)"
  shows "\<exists>h'. netns_destroy s = (Inr (), netns_init c run h') \<and> rules_of h' = rules_of h"
proof -
  let ?s0 = "netns_init c run h"
  have "rules_tracked rules_of (rules_of h) ?s0" by (simp add: rules_tracked_def netns_init_def)
  then have t: "rules_tracked rules_of (rules_of h) s" "ne_run s = run" "ne_config s = c"
    using setup_tracked [of ?s0 rules_of "rules_of h" ops s] assms by (simp_all add: netns_init_def)
  obtain h' where "netns_destroy s = (Inr (), s\<lparr>ne_host := h', ne_rules := [], ne_created := False\<rparr>)"
      "rules_of h' = rules_of (ne_host s) - mset (ne_rules s)"
    using destroy_outcome [of s rules_of] t assms(1) by (auto simp: rules_tracked_def)
  moreover have "s\<lparr>ne_host := h', ne_rules := [], ne_created := False\<rparr> = netns_init c run h'"
    using t(2,3) by (simp add: netns_init_def)
  ultimately show ?thesis using t(1) by (intro exI [of _ h']) (simp add: rules_tracked_def)
qed

text \<open>A host on which every command works; its state is the rules in force.\<close>

definition demo_netns_run :: "bool \<Rightarrow> string list multiset runner" where
  "demo_netns_run works cmd h =
     (Inr \<lparr>cp_returncode = (if works then 0 else 1), cp_stdout = None\<rparr>,
      if hd cmd \<noteq> ''iptables'' then h
      else if ''-D'' \<in> set cmd then h - {#map (\<lambda>t. if t = ''-D'' then ''-A'' else t) (tl cmd)#}
      else if works then add_mset (tl cmd) h else h)"

lemma delete_args_back: "rule_args r \<Longrightarrow> map (\<lambda>t. if t = ''-D'' then ''-A'' else t) (delete_args r) = r"
  unfolding delete_args_def map_map by (rule map_idI) (auto simp: rule_args_def)

lemma delete_args_D: "rule_args r \<Longrightarrow> ''-D'' \<in> set (delete_args r)"
proof -
  assume "rule_args r"
  then have "''-A'' \<in> set r" by (metis count_list_0_iff rule_args_def zero_neq_one)
  then show ?thesis by (auto simp: delete_args_def image_iff)
qed

lemma demo_netns_host: "iptables_host (demo_netns_run works) id"
  unfolding iptables_host_def
  by (auto simp: demo_netns_run_def rule_args_def delete_args_back delete_args_D)

theorem destroy_restores_rules_witness:
  "\<exists>s h'. netns_setup [Create, RedirectTcpTo 8080, DropNonTcp, CountNonTcp]
        (netns_init (netns_config_default ''sb'') (demo_netns_run True) {#[''-A'', ''INPUT'']#}) = (Inr True, s)
    \<and> length (ne_rules s) = 4
    \<and> netns_destroy s = (Inr (), netns_init (netns_config_default ''sb'') (demo_netns_run True) h')
    \<and> h' = {#[''-A'', ''INPUT'']#}"
proof -
  let ?s0 = "netns_init (netns_config_default ''sb'') (demo_netns_run True) {#[''-A'', ''INPUT'']#}"
  have "\<exists>s. netns_setup [Create, RedirectTcpTo 8080, DropNonTcp, CountNonTcp] ?s0 = (Inr True, s) \<and> length (ne_rules s) = 4"
    by (simp add: py_simps netns_create_def Let_def ip_cmd_def in_ns_def redirect_tcp_to_def drop_non_tcp_def count_non_tcp_def
        iptables_add_def netns_init_def demo_netns_run_def)
  then obtain s where s: "netns_setup [Create, RedirectTcpTo 8080, DropNonTcp, CountNonTcp] ?s0 = (Inr True, s)"
      "length (ne_rules s) = 4" by blast
  have "config_ok (netns_config_default ''sb'')" by (simp add: config_ok_def netns_config_default_def)
  from destroy_restores_rules [OF demo_netns_host this s(1)] show ?thesis using s by auto
qed

text \<open>
  C38. The rule is remembered before the command that adds it runs, whatever that answers. When
  adding the redirect fails, \<^verbatim>\<open>destroy()\<close> still deletes that rule: an equal one that was
  there for another egress on an interface of the same name is gone.
\<close>
theorem failed_redirect_deletes_foreign_rule:
  assumes "iptables_host run rules_of" "config_ok c" "redirect_rule c port \<in># rules_of h"
    and "redirect_tcp_to port (netns_init c run h) = (Inr False, s)"
  shows "\<exists>h'. netns_destroy s = (Inr (), netns_init c run h') \<and> rules_of h = add_mset (redirect_rule c port) (rules_of h')"
proof -
  let ?r = "redirect_rule c port"
  obtain q h1 where q: "run (''iptables'' # ?r) h = (Inr q, h1)"
      "rules_of h1 = (if cp_returncode q = 0 then add_mset ?r (rules_of h) else rules_of h)"
    using iptables_hostD_add [OF assms(1) rules_are_args(1) [OF assms(2)]] by blast
  then have s: "s = \<lparr>ne_config = c, ne_run = run, ne_created = False, ne_rules = [?r], ne_host = h1\<rparr>" "rules_of h1 = rules_of h"
    using assms(4) by (auto simp: redirect_tcp_to_def iptables_add_def py_simps netns_init_def split: if_splits)
  obtain h' where "netns_destroy s = (Inr (), s\<lparr>ne_host := h', ne_rules := [], ne_created := False\<rparr>)"
      "rules_of h' = rules_of h - {#?r#}"
    using destroy_outcome [of s rules_of] s assms(1) rules_are_args(1) [OF assms(2), of port] by auto
  then show ?thesis using s(1) assms(3) by (intro exI [of _ h']) (simp add: netns_init_def)
qed

theorem failed_redirect_deletes_foreign_rule_witness:
  "\<exists>s h'. redirect_tcp_to 8080 (netns_init (netns_config_default ''sb'') (demo_netns_run False)
          {#redirect_rule (netns_config_default ''sb'') 8080#}) = (Inr False, s)
    \<and> netns_destroy s = (Inr (), netns_init (netns_config_default ''sb'') (demo_netns_run False) h') \<and> h' = {#}"
proof -
  let ?c = "netns_config_default ''sb''"
  let ?s0 = "netns_init ?c (demo_netns_run False) {#redirect_rule ?c 8080#}"
  have "\<exists>s. redirect_tcp_to 8080 ?s0 = (Inr False, s)"
    by (simp add: py_simps redirect_tcp_to_def iptables_add_def netns_init_def demo_netns_run_def)
  then obtain s where s: "redirect_tcp_to 8080 ?s0 = (Inr False, s)" by blast
  have c: "config_ok ?c" "redirect_rule ?c 8080 \<in># id {#redirect_rule ?c 8080#}" 
    by (simp_all add: config_ok_def netns_config_default_def)
  from failed_redirect_deletes_foreign_rule [OF demo_netns_host c s] show ?thesis using s by auto
qed

text \<open>
  \<^verbatim>\<open>create()\<close> looks at no return code: as long as the commands can be started, it returns
  and marks the namespace created, however many of them failed.
\<close>
theorem create_ignores_failures:
  assumes "total_runner (ne_run s)"
  shows "\<exists>h. netns_create s = (Inr (), s\<lparr>ne_host := h, ne_created := True\<rparr>)"
proof -
  have r: "\<exists>c h. run_cmd cmd t = (Inr c, t\<lparr>ne_host := h\<rparr>)" if "ne_run t = ne_run s" for cmd and t :: "'a netns_egress"
    using total_runnerD [OF assms, of cmd "ne_host t"] that by (auto simp: py_simps)
  have frame: "\<exists>h. py_seq m k (s\<lparr>ne_host := g\<rparr>) = (Inr (), s\<lparr>ne_host := h, ne_created := True\<rparr>)"
    if "\<And>g. \<exists>c h. m (s\<lparr>ne_host := g\<rparr>) = (Inr c, s\<lparr>ne_host := h\<rparr>)"
      "\<And>g. \<exists>h. k (s\<lparr>ne_host := g\<rparr>) = (Inr (), s\<lparr>ne_host := h, ne_created := True\<rparr>)"
    for g and m :: "('a netns_egress, completed) py" and k
    using that(1) [of g] that(2) by (auto simp: py_simps)
  have ip: "\<exists>c h. ip_cmd args (s\<lparr>ne_host := g\<rparr>) = (Inr c, s\<lparr>ne_host := h\<rparr>)" for args g
    using r [of "s\<lparr>ne_host := g\<rparr>" "''ip'' # args"] by (simp add: ip_cmd_def)
  have ns: "\<exists>c h. in_ns args (s\<lparr>ne_host := g\<rparr>) = (Inr c, s\<lparr>ne_host := h\<rparr>)" for args g
    using r [of "s\<lparr>ne_host := g\<rparr>"] by (simp add: in_ns_def)
  have last: "\<exists>h. py_modify (\<lambda>s. s\<lparr>ne_created := True\<rparr>) (s\<lparr>ne_host := g\<rparr>) = (Inr (), s\<lparr>ne_host := h, ne_created := True\<rparr>)" for g
    by (intro exI [of _ g]) (simp add: py_simps)
  have "\<exists>h. netns_create (s\<lparr>ne_host := ne_host s\<rparr>) = (Inr (), s\<lparr>ne_host := h, ne_created := True\<rparr>)"
    unfolding netns_create_def Let_def by (intro frame ip ns last)
  then show ?thesis by simp
qed

theorem create_ignores_failures_witness:
  "\<exists>h. netns_create (netns_init (netns_config_default ''sb'') (demo_netns_run False) {#}) =
     (Inr (), (netns_init (netns_config_default ''sb'') (demo_netns_run False) h)\<lparr>ne_created := True\<rparr>)"
proof -
  have "total_runner (ne_run (netns_init (netns_config_default ''sb'') (demo_netns_run False) {#}))"
    by (simp add: total_runner_def netns_init_def demo_netns_run_def)
  from create_ignores_failures [OF this] show ?thesis by (auto simp: netns_init_def)
qed

section \<open>What the counter counts\<close>

text \<open>
  A row of the listing as \<^verbatim>\<open>iptables -L -v -n -x\<close> prints it: the columns, padded with any
  number of blanks. The target column is missing when the rule has none.
\<close>

record listed_rule =
  ls_pkts :: nat
  ls_bytes :: nat
  ls_target :: "string option"
  ls_prot :: string
  ls_in :: string
  ls_rest :: "string list"

definition target_column :: "listed_rule \<Rightarrow> string list" where
  "target_column r = (case ls_target r of None \<Rightarrow> [] | Some t \<Rightarrow> [t])"

definition row_tokens :: "listed_rule \<Rightarrow> string list" where
  "row_tokens r =
     [show_nat (ls_pkts r), show_nat (ls_bytes r)] @ target_column r
       @ [ls_prot r, ''--'', ls_in r] @ ls_rest r"

definition padded :: "(nat \<times> string) list \<Rightarrow> string" where
  "padded gts = concat (map (\<lambda>(g, t). replicate (Suc g) (CHR '' '') @ t) gts)"

definition listing :: "string list \<Rightarrow> string" where
  "listing ls = concat (map (\<lambda>l. l @ [LF]) ls)"

definition solid :: "string \<Rightarrow> bool" where
  "solid t \<longleftrightarrow> t \<noteq> [] \<and> list_all (\<lambda>c. \<not> is_space c) t"

text \<open>The rule that \<^verbatim>\<open>count_non_tcp\<close> added: our interface, and every protocol but TCP.\<close>

definition counts_non_tcp :: "string \<Rightarrow> listed_rule \<Rightarrow> bool" where
  "counts_non_tcp host_if r \<longleftrightarrow> ls_in r = host_if \<and> ls_prot r \<in> {''!6'', ''!tcp''}"

text \<open>
  A row that can be read: solid columns, at least three after the interface, and neither
  the interface's name nor a negated protocol in a column of another meaning.
\<close>

definition row_readable :: "string \<Rightarrow> listed_rule \<Rightarrow> bool" where
  "row_readable host_if r \<longleftrightarrow>
     list_all solid (row_tokens r) \<and> ls_rest r \<noteq> [] \<and> length (show_nat (ls_pkts r)) \<le> int_max_str_digits
   \<and> host_if \<notin> set ([show_nat (ls_pkts r), show_nat (ls_bytes r), ''--'', ls_prot r] @ target_column r @ ls_rest r)
   \<and> ''!6'' \<notin> set (ls_in r # target_column r @ ls_rest r) \<and> ''!tcp'' \<notin> set (ls_in r # target_column r @ ls_rest r)"

lemma solid_takeWhile:
  "solid t \<Longrightarrow> dropWhile is_space (t @ s) = t @ s"
  "solid t \<Longrightarrow> (\<forall>c s'. s = c # s' \<longrightarrow> is_space c) \<Longrightarrow> takeWhile (\<lambda>c. \<not> is_space c) (t @ s) = t"
  "solid t \<Longrightarrow> (\<forall>c s'. s = c # s' \<longrightarrow> is_space c) \<Longrightarrow> dropWhile (\<lambda>c. \<not> is_space c) (t @ s) = s"
proof -
  show "solid t \<Longrightarrow> dropWhile is_space (t @ s) = t @ s"
    by (cases t) (auto simp: solid_def)
  have "takeWhile (\<lambda>c. \<not> is_space c) s = [] \<and> dropWhile (\<lambda>c. \<not> is_space c) s = s" if "\<forall>c s'. s = c # s' \<longrightarrow> is_space c"
    using that by (cases s) auto
  then show "solid t \<Longrightarrow> (\<forall>c s'. s = c # s' \<longrightarrow> is_space c) \<Longrightarrow> takeWhile (\<lambda>c. \<not> is_space c) (t @ s) = t"
    "solid t \<Longrightarrow> (\<forall>c s'. s = c # s' \<longrightarrow> is_space c) \<Longrightarrow> dropWhile (\<lambda>c. \<not> is_space c) (t @ s) = s"
    by (auto simp: solid_def list_all_iff takeWhile_append dropWhile_append)
qed

lemma space_is_space [simp]: "is_space (CHR '' '')"
  by (simp add: is_space_def)

lemma drop_padding: "dropWhile is_space (replicate n (CHR '' '') @ s) = dropWhile is_space s"
  by (induction n) simp_all

lemma split_ws_padded: "list_all (solid \<circ> snd) gts \<Longrightarrow> split_ws (padded gts) = map snd gts"
proof (induction gts)
  case Nil
  show ?case by (subst split_ws.simps) (simp add: padded_def)
next
  case (Cons gt gts)
  obtain g t where gt: "gt = (g, t)" by (cases gt)
  have t: "solid t" using Cons.prems gt by simp
  have sp: "\<forall>c s'. padded gts = c # s' \<longrightarrow> is_space c"
    by (cases gts) (auto simp: padded_def)
  have "padded (gt # gts) = replicate (Suc g) (CHR '' '') @ t @ padded gts" using gt by (simp add: padded_def)
  then have d: "dropWhile is_space (padded (gt # gts)) = t @ padded gts"
    using drop_padding [of "Suc g"] solid_takeWhile(1) [OF t] by simp
  have "t @ padded gts \<noteq> []" using t by (simp add: solid_def)
  then show ?case
    unfolding split_ws.simps [of "padded (gt # gts)"] d Let_def
    using Cons gt solid_takeWhile(2,3) [OF t sp] by simp
qed

lemma splitlines_line: "list_all (\<lambda>c. \<not> is_line_break c) l \<Longrightarrow> splitlines (l @ LF # s) = l # splitlines s"
  by (induction l) (auto simp: is_line_break_def LF_def CR_def)

lemma splitlines_listing:
  "\<forall>l \<in> set ls. list_all (\<lambda>c. \<not> is_line_break c) l \<Longrightarrow> splitlines (listing ls) = ls"
proof (induction ls)
  case (Cons l ls)
  have "listing (l # ls) = l @ LF # listing ls" by (simp add: listing_def)
  then show ?case using Cons splitlines_line [of l "listing ls"] by simp
qed (simp add: listing_def)

lemma line_break_is_space: "is_line_break c \<Longrightarrow> is_space c"
  by (auto simp: is_line_break_def is_space_def Let_def)

lemma padded_one_line: "list_all (solid \<circ> snd) gts \<Longrightarrow> list_all (\<lambda>c. \<not> is_line_break c) (padded gts)"
  using line_break_is_space
  by (fastforce simp: padded_def list_all_iff solid_def is_line_break_def)

lemma row_counted:
  assumes "row_readable host_if r"
  shows "counted_row host_if (row_tokens r) \<longleftrightarrow> counts_non_tcp host_if r"
    and "py_int (row_tokens r ! 0) = Inr (int (ls_pkts r))"
proof -
  have d: "isdigit (show_nat (ls_pkts r))" by (simp add: isdigit_decimal show_nat_decimal)
  have n: "show_nat m \<notin> {''!6'', ''!tcp''}" for m
    using show_nat_decimal [of m] by (auto simp: is_decimal_def Let_def)
  have "length (row_tokens r) \<ge> 6" using assms by (cases "ls_rest r") (simp_all add: row_tokens_def row_readable_def)
  moreover have "host_if \<in> set (row_tokens r) \<longleftrightarrow> ls_in r = host_if"
    using assms unfolding row_tokens_def row_readable_def by auto
  moreover have "''!6'' \<in> set (row_tokens r) \<longleftrightarrow> ls_prot r = ''!6''"
    using assms n [of "ls_pkts r"] n [of "ls_bytes r"] unfolding row_tokens_def row_readable_def by auto
  moreover have "''!tcp'' \<in> set (row_tokens r) \<longleftrightarrow> ls_prot r = ''!tcp''"
    using assms n [of "ls_pkts r"] n [of "ls_bytes r"] unfolding row_tokens_def row_readable_def by auto
  ultimately show "counted_row host_if (row_tokens r) \<longleftrightarrow> counts_non_tcp host_if r"
    using d by (simp add: counted_row_def counts_non_tcp_def) (simp add: row_tokens_def)
  show "py_int (row_tokens r ! 0) = Inr (int (ls_pkts r))"
    using assms show_nat_decimal [of "ls_pkts r"] by (simp add: row_tokens_def py_int_def row_readable_def)
qed

lemma sum_counters_rows:
  "list_all (\<lambda>(line, r). split_ws line = row_tokens r \<and> row_readable host_if r) rows \<Longrightarrow>
     sum_counters host_if (map fst rows) acc =
       Inr (acc + int (\<Sum>r \<leftarrow> filter (counts_non_tcp host_if) (map snd rows). ls_pkts r))"
proof (induction rows arbitrary: acc)
  case (Cons x rows)
  obtain line r where x: "x = (line, r)" by (cases x)
  then have t: "split_ws line = row_tokens r" and r: "row_readable host_if r" using Cons.prems by simp_all
  show ?case using Cons x row_counted [OF r] by (simp add: Let_def t)
qed simp

lemma sum_counters_skip:
  "list_all (\<lambda>l. \<not> counted_row host_if (split_ws l)) ls \<Longrightarrow>
     sum_counters host_if (ls @ ls') acc = sum_counters host_if ls' acc"
  by (induction ls) (simp_all add: Let_def)

definition listed :: "nat list \<Rightarrow> listed_rule \<Rightarrow> string" where
  "listed gaps r = padded (zip gaps (row_tokens r))"

definition shown :: "string \<Rightarrow> nat list \<times> listed_rule \<Rightarrow> bool" where
  "shown host_if = (\<lambda>(gaps, r). length gaps = length (row_tokens r) \<and> row_readable host_if r)"

lemma listed_row:
  assumes "shown host_if (gaps, r)"
  shows "split_ws (listed gaps r) = row_tokens r" "list_all (\<lambda>c. \<not> is_line_break c) (listed gaps r)"
proof -
  have l: "length gaps = length (row_tokens r)" and "list_all solid (row_tokens r)"
    using assms by (simp_all add: shown_def row_readable_def)
  then have s: "list_all (solid \<circ> snd) (zip gaps (row_tokens r))"
    by (auto simp: list_all_iff dest: set_zip_rightD)
  show "split_ws (listed gaps r) = row_tokens r" using split_ws_padded [OF s] l by (simp add: listed_def)
  show "list_all (\<lambda>c. \<not> is_line_break c) (listed gaps r)" using padded_one_line [OF s] by (simp add: listed_def)
qed

lemma counter_of_listing:
  assumes "list_all (\<lambda>l. list_all (\<lambda>c. \<not> is_line_break c) l \<and> \<not> counted_row host_if (split_ws l)) headings"
    and "list_all (shown host_if) rows"
  shows "parse_non_tcp_counter (listing (headings @ map (\<lambda>(g, r). listed g r) rows)) host_if =
    Inr (int (\<Sum>r \<leftarrow> filter (counts_non_tcp host_if) (map snd rows). ls_pkts r))"
proof -
  let ?lines = "map (\<lambda>(g, r). listed g r) rows"
  let ?rows = "map (\<lambda>(g, r). (listed g r, r)) rows"
  have m: "map fst ?rows = ?lines" "map snd ?rows = map snd rows" by (auto simp: split_beta)
  have ok: "split_ws (listed g r) = row_tokens r \<and> row_readable host_if r
      \<and> list_all (\<lambda>c. \<not> is_line_break c) (listed g r)" if "(g, r) \<in> set rows" for g r
    using listed_row [of host_if g r] assms(2) that by (auto simp: list_all_iff shown_def)
  have "\<forall>l \<in> set (headings @ ?lines). list_all (\<lambda>c. \<not> is_line_break c) l"
    using ok assms(1) by (auto simp: list_all_iff [of _ headings])
  then have s: "splitlines (listing (headings @ ?lines)) = headings @ ?lines" by (rule splitlines_listing)
  have h: "list_all (\<lambda>l. \<not> counted_row host_if (split_ws l)) headings"
    using assms(1) by (simp add: list_all_iff)
  have "list_all (\<lambda>(line, r). split_ws line = row_tokens r \<and> row_readable host_if r) ?rows"
    using ok by (auto simp: list_all_iff)
  from sum_counters_rows [OF this, of 0] show ?thesis
    unfolding parse_non_tcp_counter_def s sum_counters_skip [OF h] m by simp
qed

lemma counted_zero:
  "(\<Sum>r \<leftarrow> filter P rs. ls_pkts r) = 0 \<longleftrightarrow> \<not> (\<exists>r \<in> set rs. P r \<and> 0 < ls_pkts r)"
  by (induction rs) auto

lemma nontcp_trip_natural:
  "nontcp_trip p (int n) st \<noteq> None \<longleftrightarrow> n \<noteq> 0"
  "case nontcp_trip p (int n) st of None \<Rightarrow> True
   | Some e \<Rightarrow> te_severity e = KILL \<and> te_evidence e = [(''non_tcp_packets'', JInt (int n))]"
  by (simp_all add: nontcp_trip_def make_event_def)

text \<open>
  C30. The fuse over the counter: on a listing as \<^verbatim>\<open>iptables\<close> prints it, whatever the padding,
  the chain's headings and the other rules in it, the non-TCP fuse trips exactly when some
  rule of this egress has counted a packet, and its evidence is the number of packets those
  rules counted, no more and no less.
\<close>
theorem nontcp_fuse_counts:
  assumes "ne_run s [''iptables'', ''-t'', ''mangle'', ''-L'', ''PREROUTING'', ''-v'', ''-n'', ''-x''] (ne_host s) = (Inr c, h)"
    and "cp_stdout c = Some (listing (headings @ map (\<lambda>(g, r). listed g r) rows))"
    and "list_all (\<lambda>l. list_all (\<lambda>ch. \<not> is_line_break ch) l \<and> \<not> counted_row (nc_host_if (ne_config s)) (split_ws l)) headings"
    and "list_all (shown (nc_host_if (ne_config s))) rows"
  shows "\<exists>ev. nontcp_observe p non_tcp_packets st s = (Inr ev, s\<lparr>ne_host := h\<rparr>)
    \<and> (ev \<noteq> None \<longleftrightarrow> (\<exists>(g, r) \<in> set rows. counts_non_tcp (nc_host_if (ne_config s)) r \<and> 0 < ls_pkts r))
    \<and> (case ev of None \<Rightarrow> True
       | Some e \<Rightarrow> te_severity e = KILL \<and> te_evidence e = [(''non_tcp_packets'',
           JInt (int (\<Sum>r \<leftarrow> filter (counts_non_tcp (nc_host_if (ne_config s))) (map snd rows). ls_pkts r)))])"
proof -
  let ?i = "nc_host_if (ne_config s)"
  let ?n = "\<Sum>r \<leftarrow> filter (counts_non_tcp ?i) (map snd rows). ls_pkts r"
  have "non_tcp_packets s = (Inr (int ?n), s\<lparr>ne_host := h\<rparr>)"
    using counter_of_listing [OF assms(3,4)] assms(1,2) by (simp add: non_tcp_packets_def py_simps)
  then have o: "nontcp_observe p non_tcp_packets st s = (Inr (nontcp_trip p (int ?n) st), s\<lparr>ne_host := h\<rparr>)"
    by (simp add: nontcp_observe_def py_simps)
  have z: "?n = 0 \<longleftrightarrow> \<not> (\<exists>(g, r) \<in> set rows. counts_non_tcp ?i r \<and> 0 < ls_pkts r)"
    unfolding counted_zero by auto
  show ?thesis
  proof (intro exI conjI)
    show "nontcp_observe p non_tcp_packets st s = (Inr (nontcp_trip p (int ?n) st), s\<lparr>ne_host := h\<rparr>)" by (rule o)
    show "nontcp_trip p (int ?n) st \<noteq> None \<longleftrightarrow> (\<exists>(g, r) \<in> set rows. counts_non_tcp ?i r \<and> 0 < ls_pkts r)"
      using z nontcp_trip_natural(1) [of p ?n st] by blast
  qed (rule nontcp_trip_natural(2))
qed

text \<open>
  Why the default runner captures. \<open>sp\<close> leaves \<^verbatim>\<open>stdout\<close> out of its answer unless it is told to
  capture, as \<^verbatim>\<open>subprocess.run\<close> is documented to do: run plainly, the counter is 0 whatever
  was counted; through the default runner it is what the listing says.
\<close>

definition captures_when_told :: "(string list \<Rightarrow> (string \<rightharpoonup> bool) \<Rightarrow> ('h, completed) py) \<Rightarrow> (string list \<Rightarrow> 'h \<Rightarrow> string) \<Rightarrow> bool" where
  "captures_when_told sp out \<longleftrightarrow>
     (\<forall>cmd kw h. \<exists>c h'. sp cmd kw h = (Inr c, h')
        \<and> cp_stdout c = (if kw ''capture_output'' = Some True then Some (out cmd h) else None))"

theorem plain_runner_counts_nothing:
  assumes "captures_when_told sp out"
  shows "fst (non_tcp_packets (s\<lparr>ne_run := \<lambda>cmd. sp cmd Map.empty\<rparr>)) = Inr 0
    \<and> fst (non_tcp_packets (s\<lparr>ne_run := default_runner sp\<rparr>)) =
        parse_non_tcp_counter (out [''iptables'', ''-t'', ''mangle'', ''-L'', ''PREROUTING'', ''-v'', ''-n'', ''-x''] (ne_host s))
          (nc_host_if (ne_config s))"
proof -
  let ?cmd = "[''iptables'', ''-t'', ''mangle'', ''-L'', ''PREROUTING'', ''-v'', ''-n'', ''-x'']"
  obtain c h where plain: "sp ?cmd Map.empty (ne_host s) = (Inr c, h)" "cp_stdout c = None"
    using assms unfolding captures_when_told_def by (metis option.distinct(1))
  obtain c' h' where told: "sp ?cmd [''capture_output'' \<mapsto> True, ''text'' \<mapsto> True] (ne_host s) = (Inr c', h')"
      "cp_stdout c' = Some (out ?cmd (ne_host s))"
  proof -
    have "([''capture_output'' \<mapsto> True, ''text'' \<mapsto> True] :: string \<rightharpoonup> bool) ''capture_output'' = Some True" by simp
    then show thesis using that assms unfolding captures_when_told_def by metis
  qed
  have "parse_non_tcp_counter [] i = Inr 0" for i
    by (simp add: parse_non_tcp_counter_def splitlines.simps)
  then show ?thesis using plain told
    by (simp add: non_tcp_packets_def run_cmd_def py_simps default_runner_def run_captured_def setdefault_def)
qed

theorem plain_runner_counts_nothing_witness:
  "fst (non_tcp_packets (netns_init (netns_config_default ''sb'') (default_runner
      (\<lambda>cmd kw h. (Inr \<lparr>cp_returncode = 0, cp_stdout = if kw ''capture_output'' = Some True then Some [] else None\<rparr>, h))) ())) = Inr 0"
proof -
  let ?sp = "\<lambda>(cmd :: string list) (kw :: string \<rightharpoonup> bool) (h :: unit).
    (Inr \<lparr>cp_returncode = 0, cp_stdout = if kw ''capture_output'' = Some True then Some ([] :: string) else None\<rparr> :: py_exn + completed, h)"
  have "captures_when_told ?sp (\<lambda>_ _. [])" by (simp add: captures_when_told_def)
  from plain_runner_counts_nothing [OF this, of "netns_init (netns_config_default ''sb'') (default_runner ?sp) ()"]
  show ?thesis by (simp add: netns_init_def parse_non_tcp_counter_def splitlines.simps)
qed

definition demo_listing_run :: "unit runner" where
  "demo_listing_run cmd h = (Inr \<lparr>cp_returncode = 0, cp_stdout = Some (listing (
     [''Chain PREROUTING'']
     @ map (\<lambda>(g, r). listed g r)
       [([7, 6, 12, 2, 4, 7, 20], \<lparr>ls_pkts = 2, ls_bytes = 168, ls_target = None, ls_prot = ''!6'', ls_in = ''halt0'',
           ls_rest = [''*'', ''0.0.0.0/0'']\<rparr>),
        ([7, 6, 1, 2, 4, 7, 20, 1], \<lparr>ls_pkts = 9, ls_bytes = 540, ls_target = Some ''ACCEPT'', ls_prot = ''0'', ls_in = ''halt0'',
           ls_rest = [''*'', ''0.0.0.0/0'']\<rparr>)]))\<rparr>, h)"

theorem nontcp_fuse_counts_witness:
  "\<exists>e s. nontcp_observe npm_policy non_tcp_packets \<lparr>st_event_id = ''e-1'', st_ts = 3 / 2\<rparr>
      (netns_init (netns_config_default ''sb'') demo_listing_run ()) = (Inr (Some e), s)
    \<and> te_severity e = KILL \<and> te_evidence e = [(''non_tcp_packets'', JInt 2)]"
proof -
  let ?s = "netns_init (netns_config_default ''sb'') demo_listing_run ()"
  have h: "list_all (\<lambda>l. list_all (\<lambda>ch. \<not> is_line_break ch) l \<and> \<not> counted_row (nc_host_if (ne_config ?s)) (split_ws l))
     [''Chain PREROUTING'']"
    by code_simp
  have d: "show_nat 2 = ''2''" "show_nat 168 = ''168''" "show_nat 9 = ''9''" "show_nat 540 = ''540''" by code_simp+
  have r: "list_all (shown (nc_host_if (ne_config ?s)))
       [([7, 6, 12, 2, 4, 7, 20], \<lparr>ls_pkts = 2, ls_bytes = 168, ls_target = None, ls_prot = ''!6'', ls_in = ''halt0'',
           ls_rest = [''*'', ''0.0.0.0/0'']\<rparr>),
        ([7, 6, 1, 2, 4, 7, 20, 1], \<lparr>ls_pkts = 9, ls_bytes = 540, ls_target = Some ''ACCEPT'', ls_prot = ''0'', ls_in = ''halt0'',
           ls_rest = [''*'', ''0.0.0.0/0'']\<rparr>)]"
    by (simp add: shown_def row_readable_def row_tokens_def target_column_def d solid_def is_space_def netns_init_def netns_config_default_def
        int_max_str_digits_def)
  show ?thesis
    using nontcp_fuse_counts [OF _ _ h r, of _ "()" npm_policy "\<lparr>st_event_id = ''e-1'', st_ts = 3 / 2\<rparr>"]
    by (auto simp: netns_init_def netns_config_default_def demo_listing_run_def counts_non_tcp_def split: option.splits)
qed

end
