(* ===== verification/Pumps.thy ===== *)
theory Pumps
  imports Relay
begin

text \<open>
  \<^verbatim>\<open>_relay\<close> with its two threads as a step relation: one \<^verbatim>\<open>recv\<close>, test, \<^verbatim>\<open>sendall\<close> or
  \<^verbatim>\<open>shutdown\<close> at a time, in any order. The schedules of Relay are exactly the runs of it;
  what every run keeps, and what the \<^verbatim>\<open>join\<close> timeout and the shared TLS layer do.
\<close>

text \<open>
  The caller's pump, the thread's pump, and the caller's return: with the exception its pump
  let out, or after \<^verbatim>\<open>t.join(timeout=_IO_TIMEOUT)\<close>, which returns when the thread has ended or
  when the time is over.
\<close>

inductive relay_step :: "relay_threads \<Rightarrow> relay_threads \<Rightarrow> bool" where
  main: "rt_result t = None \<Longrightarrow> \<not> ended (rt_main t) \<Longrightarrow> relay_step t (main_pump t)"
| side: "rt_result t = None \<Longrightarrow> \<not> ended (rt_side t) \<Longrightarrow> relay_step t (side_pump t)"
| raises: "rt_result t = None \<Longrightarrow> rt_main t = Ended (Inl e) \<Longrightarrow> relay_step t (t\<lparr>rt_result := Some (Inl e)\<rparr>)"
| joined: "rt_result t = None \<Longrightarrow> rt_main t = Ended (Inr ()) \<Longrightarrow> ended (rt_side t) \<Longrightarrow>
    relay_step t (t\<lparr>rt_result := Some (Inr ())\<rparr>)"
| join_times_out: "rt_result t = None \<Longrightarrow> rt_main t = Ended (Inr ()) \<Longrightarrow> relay_step t (t\<lparr>rt_result := Some (Inr ())\<rparr>)"

section \<open>Runs are schedules\<close>

lemma step_is_turn: "relay_step t t' \<Longrightarrow> \<exists>u. take_turn u t = t'"
proof (induction rule: relay_step.induct)
  case (main t)
  then show ?case by (intro exI [of _ Main]; cases "rt_main t") (simp_all add: take_turn_def)
next
  case (side t)
  then show ?case by (intro exI [of _ Side]) (simp add: take_turn_def)
next
  case (raises t e)
  then show ?case by (intro exI [of _ Main]) (simp add: take_turn_def)
qed (intro exI [of _ JoinTimeout], simp add: take_turn_def)+

lemma turn_is_step: "take_turn u t = t \<or> relay_step t (take_turn u t)"
proof (rule take_turn_cases [of u t])
  fix q assume t: "rt_result t = None" "rt_main t = Ended q" "take_turn u t = t\<lparr>rt_result := Some q\<rparr>"
  then show ?thesis by (cases q) (auto intro: relay_step.intros)
qed (auto intro: relay_step.intros)

lemma turn_reaches: "relay_step\<^sup>*\<^sup>* x t \<Longrightarrow> relay_step\<^sup>*\<^sup>* x (take_turn u t)"
  using turn_is_step [of u t] by (auto intro: rtranclp.rtrancl_into_rtrancl)

lemma turns_reach: "relay_step\<^sup>*\<^sup>* x t \<Longrightarrow> relay_step\<^sup>*\<^sup>* x (take_turns us t)"
  by (induction us arbitrary: t) (simp_all add: turn_reaches)

lemma run_reached: "relay_step\<^sup>*\<^sup>* (relay_start s) (relay_run turns s)"
  by (rule relay_keeps) (auto intro: turn_reaches)

lemma take_turns_append: "take_turns (us @ vs) t = take_turns vs (take_turns us t)"
  by (induction us arbitrary: t) simp_all

lemma steps_are_turns: "relay_step\<^sup>*\<^sup>* x t \<Longrightarrow> \<exists>us. take_turns us x = t"
proof (induction rule: rtranclp_induct)
  case base
  then show ?case by (intro exI [of _ "[]"]) simp
next
  case (step t t')
  then obtain us u where "take_turns us x = t" "take_turn u t = t'" using step_is_turn by blast
  then show ?case by (intro exI [of _ "us @ [u]"]) (simp add: take_turns_append)
qed

lemma outcomes_are_schedules:
  "(\<exists>t. relay_step\<^sup>*\<^sup>* (relay_start s) t \<and> rt_result t = Some r \<and> rt_state t = s') \<longleftrightarrow> (\<exists>turns. relay turns s = (r, s'))"
proof
  assume "\<exists>t. relay_step\<^sup>*\<^sup>* (relay_start s) t \<and> rt_result t = Some r \<and> rt_state t = s'"
  then obtain t us where t: "rt_result t = Some r" "rt_state t = s'" "take_turns us (relay_start s) = t"
    using steps_are_turns by blast
  then have "settle t = t" by (subst settle.simps) simp
  then show "\<exists>turns. relay turns s = (r, s')" using t by (intro exI [of _ us]) (simp add: relay_def relay_run_def)
next
  assume "\<exists>turns. relay turns s = (r, s')"
  then show "\<exists>t. relay_step\<^sup>*\<^sup>* (relay_start s) t \<and> rt_result t = Some r \<and> rt_state t = s'"
    using run_reached relay_run_result by blast
qed

lemma relay_step_less: "relay_step t t' \<Longrightarrow> (t', t) \<in> relay_less"
  by (induction rule: relay_step.induct) (simp_all add: main_pump_less side_pump_less returned_less)

section \<open>What every moment keeps\<close>

lemma reached_carrying: "relay_step\<^sup>*\<^sup>* (relay_start s) t \<Longrightarrow> carrying s t"
proof -
  assume "relay_step\<^sup>*\<^sup>* (relay_start s) t"
  then obtain us where "take_turns us (relay_start s) = t" using steps_are_turns by blast
  then show ?thesis using take_turns_keep [of us "carrying s"] take_turn_carrying carrying_start by blast
qed

text \<open>
  C27. However the calls of the two pumps and the end of the join's time interleave, and whatever
  calls fail: the interleaving ends; what \<^verbatim>\<open>_relay\<close> can return or raise, and leave the sockets
  as, is what its schedules make of it; and at every moment a plain socket's peer was sent a beginning of
  that socket's bytes, in order, and a TLS socket's peer a beginning of what came through
  the layer, or a cut of that followed by a beginning of what the bare socket yielded once
  the other pump had taken the layer off.
\<close>
theorem relay_schedules:
  "wf {(t', t). relay_step t t'}
   \<and> ((\<exists>t. relay_step\<^sup>*\<^sup>* (relay_start s) t \<and> rt_result t = Some r \<and> rt_state t = s') \<longleftrightarrow> (\<exists>turns. relay turns s = (r, s')))
   \<and> (\<forall>t. relay_step\<^sup>*\<^sup>* (relay_start s) t \<longrightarrow>
        (\<exists>x y. se_sent (ry_server_out (rt_state t)) = se_sent (ry_server_out s) @ x \<and> tape (ry_client_layer s) (ry_client_in s) (x @ y))
      \<and> (\<exists>x y. se_sent (ry_client_out (rt_state t)) = se_sent (ry_client_out s) @ x \<and> tape (ry_server_layer s) (ry_server_in s) (x @ y)))"
proof (intro conjI allI impI)
  show "wf {(t', t). relay_step t t'}" by (rule wf_subset [OF wf_relay_less]) (auto intro: relay_step_less)
qed (rule outcomes_are_schedules, (drule reached_carrying, unfold carrying_def, blast dest: flow_sent)+)

theorem relay_schedules_witness:
  "se_sent (ry_server_out (rt_state (take_turns [Main, Side, Main] (relay_start demo_relay)))) = ''ab''
    \<and> (\<exists>y. tape (ry_client_layer demo_relay) (ry_client_in demo_relay) (''ab'' @ y))"
proof -
  let ?t = "take_turns [Main, Side, Main] (relay_start demo_relay)"
  have sent: "se_sent (ry_server_out (rt_state ?t)) = ''ab''" "se_sent (ry_server_out demo_relay) = []"
    by (simp_all add: demo_relay_def relay_start_def take_turn_def main_pump_def side_pump_def after_recv_def sendall_def fresh_end_def)
  have "relay_step\<^sup>*\<^sup>* (relay_start demo_relay) ?t" by (rule turns_reach) simp
  then obtain x y where "se_sent (ry_server_out (rt_state ?t)) = se_sent (ry_server_out demo_relay) @ x"
      "tape (ry_client_layer demo_relay) (ry_client_in demo_relay) (x @ y)"
    using conjunct2 [OF conjunct2 [OF relay_schedules [of demo_relay "Inr ()" demo_relay]]] by blast
  then show ?thesis unfolding sent by auto
qed

section \<open>What the join timeout does\<close>

lemma main_runs:
  assumes "rt_result t = None"
  shows "\<exists>n. ended (rt_main (take_turns (replicate n Main) t)) \<and> rt_result (take_turns (replicate n Main) t) = None
    \<and> ry_server_in (rt_state (take_turns (replicate n Main) t)) = ry_server_in (rt_state t)
    \<and> ry_client_out (rt_state (take_turns (replicate n Main) t)) = ry_client_out (rt_state t)"
  using assms
proof (induction t rule: wf_induct_rule [OF wf_relay_less])
  case (1 t)
  show ?case
  proof (cases "ended (rt_main t)")
    case True
    then show ?thesis using "1.prems" by (intro exI [of _ 0]) simp
  next
    case False
    then have u: "take_turn Main t = main_pump t" using "1.prems" by (cases "rt_main t") (simp_all add: take_turn_def)
    from "1.IH" [of "main_pump t"] main_pump_less [OF False] "1.prems"
    obtain n where n: "ended (rt_main (take_turns (replicate n Main) (main_pump t)))"
        "rt_result (take_turns (replicate n Main) (main_pump t)) = None"
        "ry_server_in (rt_state (take_turns (replicate n Main) (main_pump t))) = ry_server_in (rt_state t)"
        "ry_client_out (rt_state (take_turns (replicate n Main) (main_pump t))) = ry_client_out (rt_state t)"
      by auto
    then show ?thesis using u by (intro exI [of _ "Suc n"]) simp
  qed
qed

text \<open>
  C39. A client that has sent its whole request and closed its half waits in vain when the
  answer takes longer than the timeout: there is a schedule in which \<^verbatim>\<open>_relay\<close> returns normally,
  all of the request sent to the server and nothing of the answer to the client. So it is
  over plain sockets and over sockets with their TLS layer in place.
\<close>
theorem join_timeout_drops_answer:
  assumes "steady (ry_client_in s)" "clean_end (ry_server_out s)" "intact (ry_client_layer s)"
  shows "\<exists>t. relay_step\<^sup>*\<^sup>* (relay_start s) t \<and> rt_result t = Some (Inr ())
    \<and> se_sent (ry_server_out (rt_state t)) = se_sent (ry_server_out s) @ bytes_of (ry_client_in s)
    \<and> ry_server_in (rt_state t) = ry_server_in s \<and> ry_client_out (rt_state t) = ry_client_out s"
proof -
  obtain n where n: "ended (rt_main (take_turns (replicate n Main) (relay_start s)))"
      "rt_result (take_turns (replicate n Main) (relay_start s)) = None"
      "ry_server_in (rt_state (take_turns (replicate n Main) (relay_start s))) = ry_server_in s"
      "ry_client_out (rt_state (take_turns (replicate n Main) (relay_start s))) = ry_client_out s"
    using main_runs [of "relay_start s"] by (auto simp: relay_start_def)
  let ?t = "take_turns (replicate n Main) (relay_start s)"
  have start: "client_first s (relay_start s)"
    using clean_flow_start [OF assms(2,1,3)] by (simp add: client_first_def relay_start_def)
  have "client_first s ?t"
    by (rule take_turns_keep [of "replicate n Main" "client_first s", OF _ start]) (auto intro: client_first_turn)
  then have c: "clean_flow (ry_client_layer s) (ry_client_in s) (se_sent (ry_server_out s))
      (rt_main ?t) (ry_client_in (rt_state ?t)) (ry_server_out (rt_state ?t))"
    by (simp add: client_first_def)
  have "relay_step ?t (?t\<lparr>rt_result := Some (Inr ())\<rparr>)"
    by (rule join_times_out [OF n(2)]) (use clean_flow_ended [OF c n(1)] in simp)
  moreover have "relay_step\<^sup>*\<^sup>* (relay_start s) ?t" by (rule turns_reach) simp
  ultimately show ?thesis using clean_flow_ended [OF c n(1)] n(3,4)
    by (intro exI [of _ "?t\<lparr>rt_result := Some (Inr ())\<rparr>"]) (auto intro: rtranclp.rtrancl_into_rtrancl)
qed

theorem join_timeout_drops_answer_witness:
  "\<exists>t. relay_step\<^sup>*\<^sup>* (relay_start demo_relay) t \<and> rt_result t = Some (Inr ())
    \<and> se_sent (ry_server_out (rt_state t)) = ''abc'' \<and> ry_server_in (rt_state t) = [Data ''xyz'']
    \<and> se_sent (ry_client_out (rt_state t)) = []"
  using join_timeout_drops_answer [of demo_relay] by (auto simp: demo_relay_def clean_end_def fresh_end_def)

section \<open>What the shared TLS layer does\<close>

text \<open>The server closes its half before the caller's pump is in a read.\<close>

lemma not_ended_yet: "after_error e \<noteq> Ended q" "after_recv r \<noteq> Ended q"
  by (simp_all add: after_error_def after_recv_def split: sum.split)

lemma pump_next_strips:
  assumes n: "pump_next pc (l, src) (k, d) = (Ended q, src', (k', d'))" and pc: "\<not> ended pc"
  shows "k' = strip_layer k"
proof (cases pc)
  case (Shutting p)
  then show ?thesis using n shut_wr_frame [of k d] by (auto split: prod.splits sum.splits)
next
  case Reading
  then show ?thesis using n not_ended_yet by (cases l) (auto split: prod.splits)
next
  case (Writing data)
  then show ?thesis using n not_ended_yet by (auto split: prod.splits sum.splits)
qed (use n pc not_ended_yet in \<open>auto split: prod.splits layer.splits\<close>)

lemma side_runs:
  assumes "rt_result t = None" "clean_flow l src0 sent0 (rt_side t) (ry_server_in (rt_state t)) (ry_client_out (rt_state t))"
    and "ry_server_layer (rt_state t) = l" "ry_client_layer (rt_state t) = Tls wire" "\<not> ended (rt_side t)"
  shows "\<exists>n t'. take_turns (replicate n Side) t = t' \<and> rt_result t' = None \<and> rt_side t' = Ended (Inr ())
    \<and> rt_main t' = rt_main t \<and> ry_client_in (rt_state t') = ry_client_in (rt_state t)
    \<and> ry_server_out (rt_state t') = ry_server_out (rt_state t) \<and> ry_client_layer (rt_state t') = Stripped wire
    \<and> se_sent (ry_client_out (rt_state t')) = sent0 @ bytes_of src0"
  using assms
proof (induction t rule: wf_induct_rule [OF wf_relay_less])
  case (1 t)
  let ?t = "side_pump t"
  note c = side_pump_clean [OF "1.prems"(2,3)]
  have u: "take_turn Side t = ?t" using "1.prems"(1,5) by (simp add: take_turn_def)
  show ?case
  proof (cases "ended (rt_side ?t)")
    case True
    have s: "ry_client_layer (rt_state ?t) = Stripped wire"
    proof -
      obtain pc l' i k d where n: "pump_next (rt_side t) (ry_server_layer (rt_state t), ry_server_in (rt_state t))
          (ry_client_layer (rt_state t), ry_client_out (rt_state t)) = (pc, (l', i), (k, d))" by (metis prod.exhaust)
      obtain q where q: "pc = Ended q" using True n by (cases pc) (auto simp: side_pump_def)
      show ?thesis using pump_next_strips [OF n [unfolded q] "1.prems"(5)] n "1.prems"(4) by (simp add: side_pump_def)
    qed
    show ?thesis
      using clean_flow_ended [OF conjunct1 [OF c] True] s "1.prems"(1) u
      by (intro exI [of _ 1] exI [of _ ?t]) simp
  next
    case False
    have k: "ry_client_layer (rt_state ?t) = Tls wire"
    proof -
      obtain pc l' i k d where n: "pump_next (rt_side t) (ry_server_layer (rt_state t), ry_server_in (rt_state t))
          (ry_client_layer (rt_state t), ry_client_out (rt_state t)) = (pc, (l', i), (k, d))" by (metis prod.exhaust)
      have "\<not> ended pc" using False n by (simp add: side_pump_def)
      then have "k = ry_client_layer (rt_state t)" using n "1.prems"(5)
        by (cases "rt_side t") (auto split: layer.splits prod.splits sum.splits)
      then show ?thesis using n "1.prems"(4) by (simp add: side_pump_def)
    qed
    from "1.IH" [of ?t] side_pump_less [OF "1.prems"(5)] c "1.prems"(1) k False
    obtain n where n: "rt_result (take_turns (replicate n Side) ?t) = None" "rt_side (take_turns (replicate n Side) ?t) = Ended (Inr ())"
        "rt_main (take_turns (replicate n Side) ?t) = rt_main ?t"
        "ry_client_in (rt_state (take_turns (replicate n Side) ?t)) = ry_client_in (rt_state ?t)"
        "ry_server_out (rt_state (take_turns (replicate n Side) ?t)) = ry_server_out (rt_state ?t)"
        "ry_client_layer (rt_state (take_turns (replicate n Side) ?t)) = Stripped wire"
        "se_sent (ry_client_out (rt_state (take_turns (replicate n Side) ?t))) = sent0 @ bytes_of src0"
      by auto
    then show ?thesis using u by (intro exI [of _ "Suc n"] exI [of _ "take_turns (replicate n Side) ?t"]) simp
  qed
qed

lemma side_done_turn: "ended (rt_side t) \<and> ry_client_out (rt_state t) = d \<Longrightarrow>
    ended (rt_side (take_turn u t)) \<and> ry_client_out (rt_state (take_turn u t)) = d"
  by (rule take_turn_cases [of u t]) simp_all

text \<open>
  C40. A TLS client whose upstream ends its half first: the thread's \<^verbatim>\<open>shutdown\<close> takes the TLS layer off
  the client's socket, and the caller's pump then sends the server the client's raw TLS
  records, as if they were the request. Nothing raises and no \<^verbatim>\<open>join\<close> times out.
\<close>
theorem upstream_end_exposes_ciphertext:
  assumes "ry_client_layer s = Tls wire" "intact (ry_server_layer s)" "steady (ry_server_in s)"
    and "clean_end (ry_client_out s)" "clean_end (ry_server_out s)" "steady (wire (ry_client_in s))"
  shows "\<exists>turns s'. JoinTimeout \<notin> set turns \<and> relay turns s = (Inr (), s')
    \<and> se_sent (ry_server_out s') = se_sent (ry_server_out s) @ bytes_of (wire (ry_client_in s))
    \<and> se_sent (ry_client_out s') = se_sent (ry_client_out s) @ bytes_of (ry_server_in s)"
proof -
  let ?t = "relay_start s"
  have "clean_flow (ry_server_layer s) (ry_server_in s) (se_sent (ry_client_out s)) (rt_side ?t) (ry_server_in (rt_state ?t))
      (ry_client_out (rt_state ?t))"
    using assms(2-4) clean_flow_start by (simp add: relay_start_def)
  from side_runs [OF _ this, of wire] assms(1)
  obtain n t where t: "take_turns (replicate n Side) ?t = t" "rt_result t = None" "rt_side t = Ended (Inr ())" "rt_main t = Reading"
      "ry_client_in (rt_state t) = ry_client_in s" "ry_server_out (rt_state t) = ry_server_out s"
      "ry_client_layer (rt_state t) = Stripped wire"
      "se_sent (ry_client_out (rt_state t)) = se_sent (ry_client_out s) @ bytes_of (ry_server_in s)"
    by (auto simp: relay_start_def)
  let ?y = "(rt_state t)\<lparr>ry_client_layer := Plain, ry_client_in := wire (ry_client_in s)\<rparr>"
  have "take_turn (next_turn t) t = take_turn (next_turn (t\<lparr>rt_state := ?y\<rparr>)) (t\<lparr>rt_state := ?y\<rparr>)"
    using t by (simp add: take_turn_def next_turn_def main_pump_def split: prod.split)
  then have eq: "settle t = settle (t\<lparr>rt_state := ?y\<rparr>)" using t(2) by (subst (1 2) settle.simps) simp
  have "client_first ?y (t\<lparr>rt_state := ?y\<rparr>)" using t assms(5,6) by (simp add: client_first_def clean_flow_def)
  from client_first_settled [OF this]
  have m: "rt_result (settle t) = Some (Inr ())"
      "se_sent (ry_server_out (rt_state (settle t))) = se_sent (ry_server_out s) @ bytes_of (wire (ry_client_in s))"
    unfolding eq using t(6) by simp_all
  have "ended (rt_side (settle t)) \<and> ry_client_out (rt_state (settle t)) = ry_client_out (rt_state t)"
    by (rule settle_keeps) (use side_done_turn t(3) in auto)
  then show ?thesis using m t(1,8)
    by (intro exI [of _ "replicate n Side"] exI [of _ "rt_state (settle t)"]) (simp add: relay_def relay_run_def)
qed

theorem upstream_end_exposes_ciphertext_witness:
  "\<exists>turns s'. relay turns (demo_relay\<lparr>ry_client_layer := Tls (\<lambda>s. [Data ''records'']), ry_server_layer := Tls (\<lambda>s. [])\<rparr>) = (Inr (), s')
    \<and> se_sent (ry_server_out s') = ''records'' \<and> se_sent (ry_client_out s') = ''xyz''"
  using upstream_end_exposes_ciphertext [of "demo_relay\<lparr>ry_client_layer := Tls (\<lambda>s. [Data ''records'']), ry_server_layer := Tls (\<lambda>s. [])\<rparr>"
    "\<lambda>s. [Data ''records'']"]
  by (auto simp: clean_end_def fresh_end_def demo_relay_def)

end
