(* ===== verification/Session.thy ===== *)
theory Session
  imports Egress
begin

text \<open>
  A whole session of the terminating proxy: whatever the handlers do, the supervisor's state
  is what the decisions asked for made of it, so the forensic record, the kill and the
  forwardings of a session can be read off the list of decisions.
\<close>

section \<open>Ports are short\<close>

definition short_port :: "int \<Rightarrow> bool" where
  "short_port n \<longleftrightarrow> length (show_nat (nat \<bar>n\<bar>)) \<le> int_max_str_digits"

lemma short_port_range: "0 \<le> n \<Longrightarrow> n < 65536 \<Longrightarrow> short_port n"
  using show_nat_length_port [of "nat n"] by (simp add: short_port_def)

lemma digit_val_less: "is_decimal c \<Longrightarrow> digit_val c < 10"
  by (auto simp: is_decimal_def digit_val_def Let_def)

lemma dec_val_bound: "list_all is_decimal s \<Longrightarrow> dec_val s < 10 ^ length s"
proof (induction s rule: rev_induct)
  case (snoc c s)
  then have "dec_val s < 10 ^ length s" "digit_val c < 10" using digit_val_less by simp_all
  then show ?case by (simp add: dec_val_append)
qed (simp add: dec_val_def)

lemma show_nat_length: "n < 10 ^ k \<Longrightarrow> 0 < k \<Longrightarrow> length (show_nat n) \<le> k"
proof (induction n arbitrary: k rule: show_nat.induct)
  case (1 n)
  show ?case
  proof (cases "n < 10")
    case True
    then show ?thesis using "1.prems" by (subst show_nat.simps) simp
  next
    case False
    obtain j where j: "k = Suc j" using "1.prems" by (cases k) auto
    then have "n div 10 < 10 ^ j" "0 < j" using "1.prems" False by (auto simp: less_mult_imp_div_less mult.commute intro: Nat.gr0I)
    then have "length (show_nat (n div 10)) \<le> j" using "1.IH" False by simp
    then show ?thesis using False j by (subst show_nat.simps) simp
  qed
qed

lemma py_int_short: "py_int s = Inr n \<Longrightarrow> short_port n"
proof -
  assume "py_int s = Inr n"
  then have s: "s \<noteq> []" "list_all is_decimal s" "length s \<le> int_max_str_digits" "n = int (dec_val s)"
    by (auto simp: py_int_def split: if_splits)
  have "length (show_nat (dec_val s)) \<le> length s" using dec_val_bound [OF s(2)] s(1) by (intro show_nat_length) auto
  then show ?thesis using s(3,4) by (simp add: short_port_def)
qed

lemma parse_host_short: "parse_host l = Inr (h, Some n) \<Longrightarrow> short_port n"
  by (auto simp: parse_host_def host_field_def Let_def intro: py_int_short
      split: option.splits if_splits sum.splits prod.splits)

lemma parsed_port_short: "parse_head head = Inr (v, p, h, Some n) \<Longrightarrow> short_port n"
  unfolding parse_head_def Let_def
  by (auto split: list.splits if_splits option.splits sum.splits prod.splits intro: parse_host_short)

section \<open>The decisions of a session\<close>

text \<open>
  \<open>decided cfg asked fs s s'\<close>: between \<open>s\<close> and \<open>s'\<close> the decider was asked \<open>asked\<close>, in that
  order and nothing else touched its state; each was observed before; \<open>fs\<close> was forwarded,
  at most one per decision, each after an answer \<^verbatim>\<open>True\<close> about that connection.
\<close>

definition decided ::
  "('s, 't) term_config \<Rightarrow> ('t \<times> intercepted_connection) list \<Rightarrow> forwarding list \<Rightarrow>
   ('w, 's, 'h) term_proxy \<Rightarrow> ('w, 's, 'h) term_proxy \<Rightarrow> bool" where
  "decided cfg asked fs s s' \<longleftrightarrow>
     tp_gate s' = foldl (\<lambda>g (t, obs). state_after (tx_decide cfg t obs g)) (tp_gate s) asked
   \<and> tp_forwarded s' = tp_forwarded s @ fs \<and> subseq (map fw_conn fs) (map snd asked)
   \<and> (\<forall>f \<in> set fs. \<exists>t g. outcome (tx_decide cfg t (fw_conn f) g) = Inr True)
   \<and> (\<exists>obs. px_seen s' = px_seen s @ obs \<and> subseq (map snd asked) obs)
   \<and> px_stop s' = px_stop s"

lemma decided_refl: "decided cfg [] [] s s"
  by (simp add: decided_def)

lemma decided_trans:
  assumes "decided cfg asked fs s s1" "decided cfg asked' fs' s1 s'"
  shows "decided cfg (asked @ asked') (fs @ fs') s s'"
proof -
  obtain o1 where 1: "px_seen s1 = px_seen s @ o1" "subseq (map snd asked) o1"
    using assms(1) unfolding decided_def by blast
  obtain o2 where 2: "px_seen s' = px_seen s1 @ o2" "subseq (map snd asked') o2"
    using assms(2) unfolding decided_def by blast
  have "\<exists>obs. px_seen s' = px_seen s @ obs \<and> subseq (map snd (asked @ asked')) obs"
    using 1 2 by (intro exI [of _ "o1 @ o2"]) (simp add: list_emb_append_mono)
  then show ?thesis using assms unfolding decided_def by (auto simp: list_emb_append_mono)
qed

lemma decided_frame:
  "decided cfg asked fs s s1 \<Longrightarrow> tp_gate s2 = tp_gate s1 \<Longrightarrow> tp_forwarded s2 = tp_forwarded s1 \<Longrightarrow> px_seen s2 = px_seen s1 \<Longrightarrow>
     px_stop s2 = px_stop s1 \<Longrightarrow> decided cfg asked fs s s2"
  by (simp add: decided_def)

lemma ask_frame:
  fixes s :: "('w, 's, 'h) term_proxy"
  shows "ask cfg c obs s = (outcome (tx_decide cfg (tc_stamp c) obs (tp_gate s)),
    s\<lparr>tp_gate := state_after (tx_decide cfg (tc_stamp c) obs (tp_gate s))\<rparr>)"
  by (simp add: ask_def py_simps split: prod.splits)

lemma asked_decided:
  fixes s :: "('w, 's, 'h) term_proxy"
  assumes "notify obs s = (Inr (), s1)"
  shows "decided cfg [(tc_stamp c, obs)] [] s (s1\<lparr>tp_gate := state_after (tx_decide cfg (tc_stamp c) obs (tp_gate s))\<rparr>)"
  using term_proxy_frame [OF assms] by (simp add: decided_def)

text \<open>The observation of a connection: its peer, and a port that is short enough to print.\<close>

definition observation_of :: "'t tconn \<Rightarrow> 't \<times> intercepted_connection \<Rightarrow> bool" where
  "observation_of c = (\<lambda>(t, obs). t = tc_stamp c \<and> ic_peer obs = sk_peer (tc_sock c) \<and> short_port (ic_port obs))"

definition short_endpoint :: "'t tconn \<Rightarrow> bool" where
  "short_endpoint c \<longleftrightarrow> (case endpoint (tc_sock c) of Inl _ \<Rightarrow> True | Inr (_, port, _) \<Rightarrow> short_port port)"

lemma planned_observation:
  assumes "planned c pl" "short_endpoint c" "asks pl = Some obs"
  shows "observation_of c (tc_stamp c, obs)"
proof (cases pl)
  case (Request obs' head rest)
  then obtain ip port red tls sni parsed where p: "endpoint (tc_sock c) = Inr (ip, port, red)"
      "obs = request_observation c ip port red tls sni parsed" "parse_head head = Inr parsed"
    using assms(1,3) unfolding planned_def by auto
  obtain v path hh hp where q: "parsed = (v, path, hh, hp)" by (cases parsed)
  have "short_port port" using assms(2) p(1) by (simp add: short_endpoint_def)
  then have "short_port (ic_port obs)"
    using parsed_port_short [of head v path hh] p(2,3) q short_port_range [of 443] short_port_range [of 80]
    by (cases hp) (auto simp: request_observation_def or_int_def)
  then show ?thesis using p(2) q by (simp add: observation_of_def request_observation_def)
qed (use assms in \<open>auto simp: planned_def observation_of_def bare_observation_def short_endpoint_def\<close>)

lemma carry_out_decided:
  fixes s :: "('w, 's, 'h) term_proxy"
  assumes pl: "planned c pl" "short_endpoint c" and run: "carry_out cfg c pl s = (r, s')"
  shows "\<exists>asked fs. decided cfg asked fs s s' \<and> list_all (observation_of c) asked"
proof (cases "asks pl")
  case None
  then consider "s' = s" | obs where "notify obs s = (r, s')"
    using run by (cases pl) (auto simp: carry_out_def py_simps)
  then show ?thesis
  proof cases
    case (2 obs)
    then have "notify obs s = (Inr (), s')" using notify_returns [of obs s] by auto
    from term_proxy_frame [OF this] have "decided cfg [] [] s s'" by (simp add: decided_def)
    then show ?thesis by (intro exI [of _ "[]"]) auto
  qed (use decided_refl in \<open>intro exI [of _ "[]"], auto\<close>)
next
  case (Some obs)
  have o: "list_all (observation_of c) [(tc_stamp c, obs)]" using planned_observation [OF pl Some] by simp
  obtain s1 where n: "notify obs s = (Inr (), s1)" using notify_returns [of obs s] by blast
  let ?a = "tx_decide cfg (tc_stamp c) obs (tp_gate s)"
  let ?s2 = "s1\<lparr>tp_gate := state_after ?a\<rparr>"
  have d: "decided cfg [(tc_stamp c, obs)] [] s ?s2" by (rule asked_decided [OF n])
  have a: "ask cfg c obs s1 = (outcome ?a, ?s2)" using term_proxy_frame [OF n] by (simp add: ask_frame)
  consider "s' = ?s2" | head rest where "pl = Request obs head rest" "outcome ?a = Inr True" "forward cfg c rest obs head ?s2 = (r, s')"
    using run Some n a by (cases pl; cases "outcome ?a") (auto simp: carry_out_def py_simps split: if_splits)
  then show ?thesis
  proof cases
    case 1
    then show ?thesis using d o by blast
  next
    case (2 head rest)
    from forward_frame [OF 2(3)] consider "s' = ?s2"
      | f where "s' = ?s2\<lparr>tp_forwarded := tp_forwarded ?s2 @ [f]\<rparr>" "fw_conn f = obs" by blast
    then show ?thesis
    proof cases
      case 1
      then show ?thesis using d o by blast
    next
      case (2 f)
      then have "decided cfg [(tc_stamp c, obs)] [f] s s'" using d \<open>outcome ?a = Inr True\<close> by (auto simp: decided_def)
      then show ?thesis using o by blast
    qed
  qed
qed

lemma term_handle_decided:
  fixes s :: "('w, 's, 'h) term_proxy"
  assumes run: "term_handle cfg c s = (r, s')" and ports: "short_endpoint c"
  shows "\<exists>asked fs. decided cfg asked fs s s' \<and> list_all (observation_of c) asked"
proof -
  obtain pl s1 where p: "prepare cfg c s = (pl, s1)" by fastforce
  obtain a where a: "s1 = s\<lparr>tp_ca := a\<rparr>" using prepare_frame [OF p] by blast
  have "carry_out cfg c pl s1 = (r, s')" using run p by (simp add: term_handle_plan)
  from carry_out_decided [OF prepare_planned [OF p] ports this] show ?thesis using a by (simp add: decided_def)
qed

lemma serve_decided:
  fixes s :: "('w, 's, 'h) term_proxy"
  assumes "list_all short_endpoint (served evs)" and "\<not> px_stop s"
  shows "\<exists>asked fs. decided cfg asked fs (s\<lparr>px_stop := True\<rparr>) ((serve (term_dispatch cfg) evs s)\<lparr>px_stop := True\<rparr>)
    \<and> (\<forall>d \<in> set asked. \<exists>c \<in> set (served evs). observation_of c d)"
  using assms
proof (induction evs arbitrary: s)
  case Nil
  then show ?case using decided_refl by (intro exI [of _ "[]"]) auto
next
  case (Cons ev evs)
  show ?case
  proof (cases ev)
    case StopSet
    then have e: "(serve (term_dispatch cfg) (ev # evs) s)\<lparr>px_stop := True\<rparr> = s\<lparr>px_stop := True\<rparr>"
      using Cons.prems(2) by (cases evs) simp_all
    show ?thesis unfolding e using decided_refl by (intro exI [of _ "[]"]) auto
  next
    case AcceptError
    then have e: "serve (term_dispatch cfg) (ev # evs) s = s" using Cons.prems(2) by simp
    show ?thesis unfolding e using decided_refl by (intro exI [of _ "[]"]) auto
  next
    case AcceptTimeout
    then show ?thesis using Cons by simp
  next
    case (Accepted c)
    let ?s0 = "s\<lparr>tp_handlers := tp_handlers s + 1\<rparr>"
    obtain r s1 where h: "term_handle cfg c ?s0 = (r, s1)" by fastforce
    obtain asked fs where a: "decided cfg asked fs ?s0 s1" "list_all (observation_of c) asked"
      using term_handle_decided [OF h] Cons.prems(1) Accepted by auto
    obtain errs where d: "term_dispatch cfg c s = (Inr (), s1\<lparr>px_closed := px_closed s1 @ [tc_sock c],
        px_callback_errors := px_callback_errors s1 @ errs\<rparr>)" (is "_ = (_, ?s2)")
      using term_dispatch_frame [OF h] by blast
    have st: "\<not> px_stop ?s2" using a(1) Cons.prems(2) by (simp add: decided_def)
    obtain asked' fs' where b: "decided cfg asked' fs' (?s2\<lparr>px_stop := True\<rparr>) ((serve (term_dispatch cfg) evs ?s2)\<lparr>px_stop := True\<rparr>)"
        "\<forall>d \<in> set asked'. \<exists>c \<in> set (served evs). observation_of c d"
      using Cons.IH [of ?s2] Cons.prems(1) st Accepted by auto
    have "decided cfg asked fs (s\<lparr>px_stop := True\<rparr>) (?s2\<lparr>px_stop := True\<rparr>)" using a(1) by (simp add: decided_def)
    then have "decided cfg (asked @ asked') (fs @ fs') (s\<lparr>px_stop := True\<rparr>) ((serve (term_dispatch cfg) evs ?s2)\<lparr>px_stop := True\<rparr>)"
      using b(1) by (rule decided_trans)
    moreover have "serve (term_dispatch cfg) (ev # evs) s = serve (term_dispatch cfg) evs ?s2"
      using Accepted d Cons.prems(2) by simp
    moreover have "\<forall>d \<in> set (asked @ asked'). \<exists>c \<in> set (served (ev # evs)). observation_of c d"
      using a(2) b(2) Accepted by (auto simp: list_all_iff)
    ultimately show ?thesis by metis
  qed
qed

section \<open>Ordinary connections\<close>

text \<open>
  What a connection must be for its decision to be written down: a clock the JSON writer
  can show, and socket addresses with 16-bit ports.
\<close>

definition ordinary_conn :: "(rat \<Rightarrow> string) \<Rightarrow> (string \<Rightarrow> rat option) \<Rightarrow> stamp tconn \<Rightarrow> bool" where
  "ordinary_conn fr fp c \<longleftrightarrow>
     float_text fr fp (st_ts (tc_stamp c))
   \<and> (case sk_peer (tc_sock c) of None \<Rightarrow> True | Some (h, n) \<Rightarrow> 0 \<le> n \<and> n < 65536)
   \<and> (case sk_name (tc_sock c) of Inl _ \<Rightarrow> True | Inr (h, n) \<Rightarrow> 0 \<le> n \<and> n < 65536)"

lemma endpoint_short: "ordinary_conn fr fp c \<Longrightarrow> endpoint (tc_sock c) = Inr (ip, port, red) \<Longrightarrow> short_port port"
  using original_destination_range [of "sk_original_dst (tc_sock c)" ip port]
  by (auto simp: endpoint_def ordinary_conn_def intro!: short_port_range split: sum.splits option.splits prod.splits)

lemma observation_recordable:
  assumes "ordinary_conn fr fp c" "observation_of c (t, obs)"
  shows "recordable fr fp t obs"
  using assms short_port_range
  by (auto simp: recordable_def ordinary_conn_def observation_of_def short_port_def split: option.splits)

lemma reports_are_decisions:
  "py_for (decision_events p ds) (report em B) g = (Inr (), g') \<Longrightarrow>
     foldl (\<lambda>g (t, obs). state_after (decide em B p t obs g)) g ds = g'"
proof (induction ds arbitrary: g)
  case (Cons d ds)
  obtain st c where d: "d = (st, c)" by (cases d)
  from Cons.prems d obtain g1 where 1: "report em B (decision_event p st c) g = (Inr (), g1)"
      "py_for (decision_events p ds) (report em B) g1 = (Inr (), g')"
    by (auto simp: py_simps split: prod.splits sum.splits)
  then show ?case using Cons.IH [OF 1(2)] d by (simp add: decide_eq py_simps)
qed (simp add: py_simps)

lemma decide_True: "outcome (decide em B p t c g) = Inr True \<Longrightarrow> gate_permits p c"
  by (auto simp: decide_eq py_simps split: prod.splits sum.splits)

section \<open>The record of a session\<close>

text \<open>
  The whole program on gVisor with a durable record: the proxy, over any sequence of
  connections, bytes, handshakes and upstream failures, leaves a record that is the old one
  and one event per decision, in order; each decision is about an observed connection;
  everything forwarded was recorded as allowed, at most once per decision; and the run is
  killed, exactly once, if and only if some decision denied, the first denial being the
  cause.
\<close>
theorem proxy_session_recorded:
  fixes s :: "('w, ('k sink, 'b gvisor \<times> kill_call list) supervisor, 'h) term_proxy"
  assumes "tx_decide cfg = decide (emit fr) (logging gvisor_backend) p"
    and "tp_gate s = supervisor_init (g, []) k run (Some creds)" "\<not> px_stop s"
    and "durable fp k" "gvisor_total g" "list_all (ordinary_conn fr fp) (served evs)"
  shows "\<exists>asked obs fs.
      px_seen (serve (term_dispatch cfg) evs s) = px_seen s @ obs \<and> subseq (map snd asked) obs
    \<and> durable_record fp (sup_sink (tp_gate (serve (term_dispatch cfg) evs s))) = durable_record fp k @ decision_events p asked
    \<and> kill_outcome gvisor_backend run creds (decision_events p asked) (tp_gate (serve (term_dispatch cfg) evs s))
    \<and> tp_forwarded (serve (term_dispatch cfg) evs s) = tp_forwarded s @ fs
    \<and> subseq (map fw_conn fs) (map snd asked) \<and> list_all (gate_permits p \<circ> fw_conn) fs"
proof -
  let ?t = "serve (term_dispatch cfg) evs s"
  have ep: "list_all short_endpoint (served evs)"
    using assms(6) endpoint_short by (auto simp: list_all_iff short_endpoint_def split: sum.splits prod.splits)
  obtain asked fs where d: "decided cfg asked fs (s\<lparr>px_stop := True\<rparr>) (?t\<lparr>px_stop := True\<rparr>)"
      "\<forall>d \<in> set asked. \<exists>c \<in> set (served evs). observation_of c d"
    using serve_decided [OF ep assms(3)] by blast
  have "list_all (\<lambda>(st, c). recordable fr fp st c) asked"
    using d(2) assms(6) observation_recordable by (fastforce simp: list_all_iff)
  then have ok: "list_all (event_ok fr fp) (decision_events p asked)"
    by (auto simp: list_all_iff decision_event_ok)
  obtain g' where g': "py_for (decision_events p asked) (report (emit fr) (logging gvisor_backend)) (tp_gate s) = (Inr (), g')"
      "durable_record fp (sup_sink g') = durable_record fp k @ decision_events p asked"
      "kill_outcome gvisor_backend run creds (decision_events p asked) g'"
    using supervised_run [OF gvisor_run.supervised_axioms gvisor.total_backend_axioms assms(4) ok assms(5)] assms(2) by metis
  have "tp_gate ?t = g'"
    using d(1) reports_are_decisions [OF g'(1)] by (simp add: decided_def assms(1))
  moreover have "list_all (gate_permits p \<circ> fw_conn) fs"
    using d(1) decide_True unfolding decided_def assms(1) list_all_iff by fastforce
  ultimately show ?thesis using d(1) g'(2,3) unfolding decided_def by auto
qed

definition demo_session_config :: "((unit sink, unit gvisor \<times> kill_call list) supervisor, stamp) term_config" where
  "demo_session_config =
     \<lparr>tx_decide = decide (emit demo_fr) (logging gvisor_backend) demo_policy, tx_upstream = default_upstream,
      tx_verify_upstream = True, tx_load = (\<lambda>_. None)\<rparr>"

definition demo_session :: "(unit, (unit sink, unit gvisor \<times> kill_call list) supervisor, string list list) term_proxy" where
  "demo_session = proxy.extend (proxy_init None ''127.0.0.1'' 0 ())
     \<lparr>tp_gate = supervisor_init (demo_gvisor, []) demo_tee ''run-1'' (Some [''tok-1'']), tp_ca = demo_ca, tp_handlers = 0,
      tp_forwarded = []\<rparr>"

theorem proxy_session_recorded_witness:
  "let t = serve (term_dispatch demo_session_config)
        [Accepted (demo_tconn (demo_raw ''pypi.org'')), AcceptTimeout, Accepted (demo_tconn (demo_raw ''evil.org''))] demo_session
   in \<exists>asked. durable_record demo_fp (sup_sink (tp_gate t)) = decision_events demo_policy asked
     \<and> subseq (map fw_conn (tp_forwarded t)) (map snd asked)
     \<and> list_all (gate_permits demo_policy \<circ> fw_conn) (tp_forwarded t)"
proof -
  let ?evs = "[Accepted (demo_tconn (demo_raw ''pypi.org'')), AcceptTimeout, Accepted (demo_tconn (demo_raw ''evil.org''))]"
  have c: "tx_decide demo_session_config = decide (emit demo_fr) (logging gvisor_backend) demo_policy"
    by (simp add: demo_session_config_def)
  have g: "tp_gate demo_session = supervisor_init (demo_gvisor, []) demo_tee ''run-1'' (Some [''tok-1''])" "\<not> px_stop demo_session"
    "tp_forwarded demo_session = []"
    by (simp_all add: demo_session_def proxy.defs term_proxy.defs proxy_init_def)
  have f: "float_text demo_fr demo_fp (3 / 2)"
    using demo_event_ok by (simp add: event_ok_def demo_event_def make_event_def)
  have o: "list_all (ordinary_conn demo_fr demo_fp) (served ?evs)"
    using f by (simp add: ordinary_conn_def demo_tconn_def demo_sock_def)
  from proxy_session_recorded [OF c g(1,2) demo_tee_durable(1) demo_gvisor_total o]
  show ?thesis by (auto simp: Let_def g(3) demo_tee_durable(2))
qed

end
