(* ===== verification/Concurrency.thy ===== *)
theory Concurrency
  imports Supervisor "HOL-Library.Multiset"
begin

text \<open>
  \<^verbatim>\<open>Supervisor.report\<close> called by several threads at once (\<^verbatim>\<open>halt/supervisor.py\<close>, lines
  54-73). A thread is a program counter over the statements of \<^verbatim>\<open>report\<close>; \<^verbatim>\<open>self._lock\<close> is
  held by at most one thread; the emit is outside the lock, so emits and kills interleave.
  One emit, one \<^verbatim>\<open>execute_kill\<close> and one assignment are each one step.
\<close>

datatype pc =
    Entered trip_event    \<comment> \<open>at \<^verbatim>\<open>self.sink.emit(event)\<close>\<close>
  | Emitted trip_event    \<comment> \<open>at the severity test\<close>
  | Acquiring trip_event  \<comment> \<open>at \<^verbatim>\<open>with self._lock\<close>\<close>
  | Holding trip_event    \<comment> \<open>lock held, at \<^verbatim>\<open>if self._killed\<close>\<close>
  | Setting trip_event    \<comment> \<open>\<^verbatim>\<open>_killed\<close> set, at \<^verbatim>\<open>self._cause = event\<close>\<close>
  | Executing trip_event  \<comment> \<open>at \<^verbatim>\<open>self._kill_result = execute_kill(...)\<close>\<close>
  | Leaving "py_exn option"   \<comment> \<open>at the end of the \<^verbatim>\<open>with\<close> block\<close>
  | Finished "py_exn option"  \<comment> \<open>returned, or raised\<close>

type_synonym ('k, 'b) system = "pc list \<times> nat option \<times> ('k, 'b) supervisor"

definition raised :: "py_exn + 'a \<Rightarrow> py_exn option" where
  "raised r = (case r of Inl x \<Rightarrow> Some x | Inr _ \<Rightarrow> None)"

inductive thread_step ::
  "(trip_event \<Rightarrow> ('k, unit) py) \<Rightarrow> 'b kill_backend \<Rightarrow> nat \<Rightarrow>
   pc \<times> nat option \<times> ('k, 'b) supervisor \<Rightarrow> pc \<times> nat option \<times> ('k, 'b) supervisor \<Rightarrow> bool"
  for em B i where
  emit_ok: "em e (sup_sink s) = (Inr (), k) \<Longrightarrow>
    thread_step em B i (Entered e, l, s) (Emitted e, l, s\<lparr>sup_sink := k\<rparr>)"
| emit_raises: "em e (sup_sink s) = (Inl x, k) \<Longrightarrow>
    thread_step em B i (Entered e, l, s) (Finished (Some x), l, s\<lparr>sup_sink := k\<rparr>)"
| observation: "te_severity e \<noteq> KILL \<Longrightarrow> thread_step em B i (Emitted e, l, s) (Finished None, l, s)"
| demand: "te_severity e = KILL \<Longrightarrow> thread_step em B i (Emitted e, l, s) (Acquiring e, l, s)"
| acquire: "thread_step em B i (Acquiring e, None, s) (Holding e, Some i, s)"
| too_late: "sup_killed s \<Longrightarrow> thread_step em B i (Holding e, l, s) (Leaving None, l, s)"
| first_kill: "\<not> sup_killed s \<Longrightarrow> thread_step em B i (Holding e, l, s) (Setting e, l, s\<lparr>sup_killed := True\<rparr>)"
| set_cause: "thread_step em B i (Setting e, l, s) (Executing e, l, s\<lparr>sup_cause := Some e\<rparr>)"
| kill: "run_kill B s = (r, s') \<Longrightarrow> thread_step em B i (Executing e, l, s) (Leaving (raised r), l, s')"
| release: "thread_step em B i (Leaving x, l, s) (Finished x, None, s)"

inductive_cases thread_stepE: "thread_step em B i (p, l, s) (p', l', s')"

inductive_simps thread_step_simps:
  "thread_step em B i (Entered e, l, s) y"
  "thread_step em B i (Emitted e, l, s) y"
  "thread_step em B i (Acquiring e, l, s) y"
  "thread_step em B i (Holding e, l, s) y"
  "thread_step em B i (Setting e, l, s) y"
  "thread_step em B i (Executing e, l, s) y"
  "thread_step em B i (Leaving x, l, s) y"
  "thread_step em B i (Finished x, l, s) y"

text \<open>Any thread may run next.\<close>

inductive sys_step ::
  "(trip_event \<Rightarrow> ('k, unit) py) \<Rightarrow> 'b kill_backend \<Rightarrow> ('k, 'b) system \<Rightarrow> ('k, 'b) system \<Rightarrow> bool"
  for em B where
  interleave: "i < length ts \<Longrightarrow> thread_step em B i (ts ! i, l, s) (p, l', s') \<Longrightarrow>
    sys_step em B (ts, l, s) (ts[i := p], l', s')"

inductive_cases sys_stepE: "sys_step em B (ts, l, s) c'"

definition start :: "trip_event list \<Rightarrow> ('k, 'b) supervisor \<Rightarrow> ('k, 'b) system" where
  "start es s = (map Entered es, None, s)"

section \<open>A thread alone is report\<close>

lemma step_at:
  "i < length ts \<Longrightarrow> thread_step em B i (p, l, s) (p', l', s') \<Longrightarrow>
     sys_step em B (ts[i := p], l, s) (ts[i := p'], l', s')"
  using interleave [of i "ts[i := p]" em B l s p' l' s'] by simp

lemma solo_section:
  assumes "run_kill B (s\<lparr>sup_killed := True, sup_cause := Some e\<rparr>) = (r, s')" "\<not> sup_killed s" "i < length ts"
  shows "(sys_step em B)\<^sup>*\<^sup>* (ts[i := Acquiring e], None, s) (ts[i := Finished (raised r)], None, s')"
proof -
  have 1: "sys_step em B (ts[i := Acquiring e], None, s) (ts[i := Holding e], Some i, s)"
    by (intro step_at acquire assms)
  have 2: "sys_step em B (ts[i := Holding e], Some i, s) (ts[i := Setting e], Some i, s\<lparr>sup_killed := True\<rparr>)"
    by (intro step_at first_kill assms)
  have 3: "sys_step em B (ts[i := Setting e], Some i, s\<lparr>sup_killed := True\<rparr>)
      (ts[i := Executing e], Some i, s\<lparr>sup_killed := True, sup_cause := Some e\<rparr>)"
    by (intro step_at set_cause assms)
  have 4: "sys_step em B (ts[i := Executing e], Some i, s\<lparr>sup_killed := True, sup_cause := Some e\<rparr>)
      (ts[i := Leaving (raised r)], Some i, s')"
    by (intro step_at kill assms)
  have 5: "sys_step em B (ts[i := Leaving (raised r)], Some i, s') (ts[i := Finished (raised r)], None, s')"
    by (intro step_at release assms)
  show ?thesis
    using 1 2 3 4 5 by (meson converse_rtranclp_into_rtranclp rtranclp.rtrancl_refl)
qed

lemma solo_late:
  assumes "sup_killed s" "i < length ts"
  shows "(sys_step em B)\<^sup>*\<^sup>* (ts[i := Acquiring e], None, s) (ts[i := Finished None], None, s)"
proof -
  have "sys_step em B (ts[i := Acquiring e], None, s) (ts[i := Holding e], Some i, s)"
    "sys_step em B (ts[i := Holding e], Some i, s) (ts[i := Leaving None], Some i, s)"
    "sys_step em B (ts[i := Leaving None], Some i, s) (ts[i := Finished None], None, s)"
    by (intro step_at acquire too_late release assms)+
  then show ?thesis by (meson converse_rtranclp_into_rtranclp rtranclp.rtrancl_refl)
qed

text \<open>From the severity test on.\<close>

lemma solo_emitted:
  assumes k: "em e (sup_sink s) = (Inr (), k)" and i: "i < length ts"
  shows "(sys_step em B)\<^sup>*\<^sup>* (ts[i := Emitted e], None, s\<lparr>sup_sink := k\<rparr>)
    (ts[i := Finished (raised (fst (report em B e s)))], None, snd (report em B e s))"
proof -
  let ?s = "s\<lparr>sup_sink := k\<rparr>"
  consider (no) "\<not> is_kill e" | (late) "is_kill e" "sup_killed s" | (first) "is_kill e" "\<not> sup_killed s" by blast
  then show ?thesis
  proof cases
    case no
    then have "sys_step em B (ts[i := Emitted e], None, ?s) (ts[i := Finished None], None, ?s)"
      by (intro step_at i observation)
    then show ?thesis using k no by (auto simp: report_def py_simps raised_def)
  next
    case late
    then have "sys_step em B (ts[i := Emitted e], None, ?s) (ts[i := Acquiring e], None, ?s)" by (intro step_at i demand)
    then have "(sys_step em B)\<^sup>*\<^sup>* (ts[i := Emitted e], None, ?s) (ts[i := Finished None], None, ?s)"
      using solo_late [of ?s, OF _ i] late by (simp add: converse_rtranclp_into_rtranclp)
    then show ?thesis using k late by (simp add: report_def py_simps raised_def)
  next
    case first
    then have 1: "sys_step em B (ts[i := Emitted e], None, ?s) (ts[i := Acquiring e], None, ?s)" by (intro step_at i demand)
    obtain q s' where q: "run_kill B (?s\<lparr>sup_killed := True, sup_cause := Some e\<rparr>) = (q, s')" by fastforce
    have "(sys_step em B)\<^sup>*\<^sup>* (ts[i := Emitted e], None, ?s) (ts[i := Finished (raised q)], None, s')"
      using 1 solo_section [OF q _ i] first by (simp add: converse_rtranclp_into_rtranclp)
    moreover have "report em B e s = (q, s')"
      using k first q unfolding report_def by (simp add: py_simps del: run_kill_run)
    ultimately show ?thesis by simp
  qed
qed

lemma thread_runs_report:
  assumes i: "i < length ts" "ts ! i = Entered e"
  shows "(sys_step em B)\<^sup>*\<^sup>* (ts, None, s)
    (ts[i := Finished (raised (fst (report em B e s)))], None, snd (report em B e s))"
proof -
  have ts: "ts[i := Entered e] = ts" using i by (metis list_update_id)
  obtain r k where k: "em e (sup_sink s) = (r, k)" by fastforce
  show ?thesis
  proof (cases r)
    case (Inl x)
    then show ?thesis
      using step_at [OF i(1) emit_raises [of em e s x k B i None]] k
      by (auto simp: ts report_def py_simps raised_def)
  next
    case (Inr u)
    then have k: "em e (sup_sink s) = (Inr (), k)" using k by simp
    have "sys_step em B (ts, None, s) (ts[i := Emitted e], None, s\<lparr>sup_sink := k\<rparr>)"
      using step_at [OF i(1) emit_ok [of em e s k B i None]] k by (simp add: ts)
    then show ?thesis using solo_emitted [of em e s k i ts B] k i(1) by (simp add: converse_rtranclp_into_rtranclp)
  qed
qed

text \<open>
  The step relation and \<^verbatim>\<open>report\<close> agree: a thread that runs alone ends with what the
  sequential \<^verbatim>\<open>report\<close> returns or raises, in its final state, the lock released.
\<close>
theorem solo_thread_is_report:
  "(sys_step em B)\<^sup>*\<^sup>* (start [e] s) ([Finished (raised (fst (report em B e s)))], None, snd (report em B e s))"
  using thread_runs_report [of 0 "[Entered e]" e em B s] by (simp add: start_def)

section \<open>Every run ends\<close>

fun rank :: "pc \<Rightarrow> nat" where
  "rank (Entered e) = 7" | "rank (Emitted e) = 6" | "rank (Acquiring e) = 5" | "rank (Holding e) = 4"
| "rank (Setting e) = 3" | "rank (Executing e) = 2" | "rank (Leaving x) = 1" | "rank (Finished x) = 0"

definition work :: "('k, 'b) system \<Rightarrow> nat" where
  "work c = sum_list (map rank (fst c))"

lemma thread_step_rank: "thread_step em B i (p, l, s) (p', l', s') \<Longrightarrow> rank p' < rank p"
  by (auto elim: thread_stepE)

lemma sys_step_work: "sys_step em B c c' \<Longrightarrow> work c' < work c"
  by (induction rule: sys_step.induct) (simp add: work_def sum_list_step thread_step_rank)

interpretation reports: ending_steps "sys_step em B" work for em B
  by unfold_locales (rule sys_step_work)

text \<open>A thread that can go on: its next statement exists, and it waits for no lock.\<close>

lemma can_step:
  assumes "\<forall>x. p \<noteq> Finished x" "\<forall>e. p = Acquiring e \<longrightarrow> l = None"
  shows "\<exists>y. thread_step em B i (p, l, s) y"
proof (cases p)
  case (Entered e)
  obtain r k where "em e (sup_sink s) = (r, k)" by fastforce
  then show ?thesis using Entered by (cases r) (auto intro: emit_ok emit_raises)
next
  case (Emitted e)
  then show ?thesis by (cases "is_kill e") (auto intro: observation demand)
next
  case (Holding e)
  then show ?thesis by (cases "sup_killed s") (auto intro: too_late first_kill)
next
  case (Executing e)
  obtain r s' where "run_kill B s = (r, s')" by fastforce
  then show ?thesis using Executing by (auto intro: kill)
qed (use assms in \<open>auto intro: acquire set_cause release\<close>)

section \<open>Mutual exclusion\<close>

fun in_section :: "pc \<Rightarrow> bool" where
  "in_section (Holding e) = True" | "in_section (Setting e) = True" | "in_section (Executing e) = True"
| "in_section (Leaving x) = True" | "in_section _ = False"

definition lock_inv :: "('k, 'b) system \<Rightarrow> bool" where
  "lock_inv c = (case c of (ts, l, s) \<Rightarrow>
     (\<forall>i < length ts. in_section (ts ! i) \<longleftrightarrow> l = Some i) \<and> (\<forall>i. l = Some i \<longrightarrow> i < length ts))"

lemma lock_inv_start: "lock_inv (start es s)"
  by (simp add: lock_inv_def start_def)

lemma lock_inv_step: "sys_step em B c c' \<Longrightarrow> lock_inv c \<Longrightarrow> lock_inv c'"
proof (induction rule: sys_step.induct)
  case (interleave i ts l s p l' s')
  have sec: "in_section (ts ! i) \<longleftrightarrow> l = Some i" using interleave by (simp add: lock_inv_def)
  from interleave(2) have "(in_section p \<longleftrightarrow> l' = Some i) \<and> (l' = l \<or> l = None \<and> l' = Some i \<or> l = Some i \<and> l' = None)"
    using sec by cases auto
  then show ?case using interleave(1,3) sec
    by (auto simp: lock_inv_def nth_list_update split: if_splits)
qed

section \<open>The record\<close>

fun pending :: "pc \<Rightarrow> trip_event list" where
  "pending (Entered e) = [e]"
| "pending _ = []"

fun carried :: "pc \<Rightarrow> trip_event option" where
  "carried (Entered e) = Some e" | "carried (Emitted e) = Some e" | "carried (Acquiring e) = Some e"
| "carried (Holding e) = Some e" | "carried (Setting e) = Some e" | "carried (Executing e) = Some e"
| "carried (Leaving x) = None" | "carried (Finished x) = None"

fun demanding :: "pc \<Rightarrow> bool" where
  "demanding (Acquiring e) = True" | "demanding (Holding e) = True" | "demanding (Setting e) = True"
| "demanding (Executing e) = True" | "demanding _ = False"

text \<open>
  Every event is recorded or still to be emitted, none twice; a thread past its emit finds
  its event in the record, and only a \<open>KILL\<close> event goes for the lock.
\<close>

definition thread_ok :: "trip_event list \<Rightarrow> trip_event \<Rightarrow> pc \<Rightarrow> bool" where
  "thread_ok rcd e p \<longleftrightarrow>
     (case carried p of None \<Rightarrow> True | Some e' \<Rightarrow> e' = e)
   \<and> (pending p = [] \<longrightarrow> e \<in> set rcd) \<and> (demanding p \<longrightarrow> is_kill e)"

definition record_inv :: "('k \<Rightarrow> bool) \<Rightarrow> ('k \<Rightarrow> trip_event list) \<Rightarrow> 'k \<Rightarrow> trip_event list \<Rightarrow> ('k, 'b) system \<Rightarrow> bool" where
  "record_inv good record_of k0 es c = (case c of (ts, l, s) \<Rightarrow>
     length ts = length es \<and> good (sup_sink s)
   \<and> mset (record_of (sup_sink s)) + mset (concat (map pending ts)) = mset (record_of k0) + mset es
   \<and> (\<forall>i < length ts. thread_ok (record_of (sup_sink s)) (es ! i) (ts ! i)))"

lemma record_inv_start:
  "good (sup_sink s) \<Longrightarrow> record_inv good record_of (sup_sink s) es (start es s)"
proof -
  have "concat (map (pending \<circ> Entered) es) = es" by (induction es) simp_all
  then show "good (sup_sink s) \<Longrightarrow> record_inv good record_of (sup_sink s) es (start es s)"
    by (simp add: record_inv_def start_def thread_ok_def)
qed

lemma concat_update:
  "i < length ts \<Longrightarrow>
     mset (concat (map f (ts[i := p]))) + mset (f (ts ! i)) = mset (concat (map f ts)) + mset (f p)"
  by (induction ts arbitrary: i) (auto split: nat.splits simp: add_ac)

lemma mset_transfer:
  assumes "a' + p = a + q" "c' + q = c + p" "a + c = (t :: 'a multiset)"
  shows "a' + c' = t"
proof (rule multiset_eqI)
  fix x
  have "count a' x + count p x = count a x + count q x" "count c' x + count q x = count c x + count p x"
    "count a x + count c x = count t x"
    using assms by (metis count_union)+
  then show "count (a' + c') x = count t x" by simp
qed

lemma thread_ok_mono: "thread_ok rcd e p \<Longrightarrow> set rcd \<subseteq> set rcd' \<Longrightarrow> thread_ok rcd' e p"
  by (auto simp: thread_ok_def split: option.splits)

lemma run_kill_sink: "run_kill B s = (r, s') \<Longrightarrow> sup_sink s' = sup_sink s"
  by (auto simp: py_simps split: prod.splits sum.splits)

context supervised
begin

lemma record_inv_step:
  assumes "list_all fine es"
  shows "sys_step em B c c' \<Longrightarrow> record_inv good record_of k0 es c \<Longrightarrow> record_inv good record_of k0 es c'"
proof (induction rule: sys_step.induct)
  case (interleave i ts l s p l' s')
  let ?r = "record_of (sup_sink s)" and ?r' = "record_of (sup_sink s')"
  have len: "length ts = length es" and g: "good (sup_sink s)" and i: "i < length es"
    and bal: "mset ?r + mset (concat (map pending ts)) = mset (record_of k0) + mset es"
    and oks: "\<And>j. j < length es \<Longrightarrow> thread_ok ?r (es ! j) (ts ! j)"
    using interleave by (auto simp: record_inv_def)
  have "good (sup_sink s') \<and> mset ?r' + mset (pending p) = mset ?r + mset (pending (ts ! i))
      \<and> set ?r \<subseteq> set ?r' \<and> thread_ok ?r' (es ! i) p"
    using interleave(2)
  proof cases
    case (emit_ok e k)
    have e: "e = es ! i" using oks [OF i] emit_ok(1) by (simp add: thread_ok_def)
    have fe: "fine e" using assms i e by (simp add: list_all_length)
    have "good k \<and> record_of k = ?r @ [e]"
      using emit_total [OF g fe] emit_records [OF g fe emit_ok(5)] emit_ok(5) by auto
    then show ?thesis using emit_ok e by (auto simp: thread_ok_def)
  next
    case (emit_raises e x k)
    have e: "e = es ! i" using oks [OF i] emit_raises(1) by (simp add: thread_ok_def)
    have fe: "fine e" using assms i e by (simp add: list_all_length)
    show ?thesis using emit_total [OF g fe] emit_raises by auto
  next
    case (kill r e)
    then show ?thesis using g run_kill_sink [of B s r s'] oks [OF i] by (simp add: thread_ok_def)
  qed (use g oks [OF i] in \<open>auto simp: thread_ok_def\<close>)
  then have 1: "good (sup_sink s')" "mset ?r' + mset (pending p) = mset ?r + mset (pending (ts ! i))"
    "set ?r \<subseteq> set ?r'" "thread_ok ?r' (es ! i) p" by auto
  have "mset ?r' + mset (concat (map pending (ts[i := p]))) = mset (record_of k0) + mset es"
    by (rule mset_transfer [OF 1(2) concat_update [OF interleave(1)] bal])
  moreover have "thread_ok ?r' (es ! j) (ts[i := p] ! j)" if "j < length es" for j
    using 1(3,4) thread_ok_mono [OF oks [OF that]] that len by (cases "j = i") simp_all
  ultimately show ?case using 1(1) len by (simp add: record_inv_def)
qed

end

section \<open>The kill\<close>

text \<open>
  Outside the two statements between the flag and the kill, the supervisor is either
  untouched or done: its cause a recorded \<open>KILL\<close> of the run, its backend in the state one
  kill leaves, its result that kill's.
\<close>

definition settled ::
  "trip_event list \<Rightarrow> trip_event list \<Rightarrow> 'b \<Rightarrow> 'b \<Rightarrow> kill_result \<Rightarrow> ('k, 'b) supervisor \<Rightarrow> bool" where
  "settled es rcd b0 b1 r s \<longleftrightarrow>
     (if sup_killed s then (\<exists>e \<in> set es \<inter> set rcd. is_kill e \<and> sup_cause s = Some e)
         \<and> sup_backend s = b1 \<and> sup_kill_result s = Some r
      else sup_cause s = None \<and> sup_backend s = b0 \<and> sup_kill_result s = None)"

definition midway :: "trip_event option \<Rightarrow> 'b \<Rightarrow> ('k, 'b) supervisor \<Rightarrow> bool" where
  "midway ca b0 s \<longleftrightarrow> sup_killed s \<and> sup_cause s = ca \<and> sup_backend s = b0 \<and> sup_kill_result s = None"

definition phase_ok ::
  "trip_event list \<Rightarrow> trip_event list \<Rightarrow> 'b \<Rightarrow> 'b \<Rightarrow> kill_result \<Rightarrow> pc list \<Rightarrow> nat option \<Rightarrow> ('k, 'b) supervisor \<Rightarrow> bool" where
  "phase_ok es rcd b0 b1 r ts l s \<longleftrightarrow>
     (case l of None \<Rightarrow> settled es rcd b0 b1 r s
      | Some i \<Rightarrow>
          (case ts ! i of Setting e \<Rightarrow> midway None b0 s
           | Executing e \<Rightarrow> midway (Some e) b0 s
           | _ \<Rightarrow> settled es rcd b0 b1 r s))"

fun past_check :: "pc \<Rightarrow> bool" where
  "past_check (Leaving x) = True" | "past_check (Finished x) = True" | "past_check _ = False"

fun unraised :: "pc \<Rightarrow> bool" where
  "unraised (Leaving x) = (x = None)" | "unraised (Finished x) = (x = None)" | "unraised _ = True"

definition kill_inv ::
  "('k \<Rightarrow> trip_event list) \<Rightarrow> trip_event list \<Rightarrow> string \<Rightarrow> string list \<Rightarrow> 'b \<Rightarrow> 'b \<Rightarrow> kill_result \<Rightarrow> ('k, 'b) system \<Rightarrow> bool" where
  "kill_inv record_of es run creds b0 b1 r c = (case c of (ts, l, s) \<Rightarrow>
     sup_run_id s = run \<and> sup_credential_ids s = creds
   \<and> phase_ok es (record_of (sup_sink s)) b0 b1 r ts l s
   \<and> (\<forall>i < length ts. past_check (ts ! i) \<longrightarrow> is_kill (es ! i) \<longrightarrow> sup_killed s)
   \<and> (\<forall>i < length ts. unraised (ts ! i)))"

lemma settled_mono: "settled es rcd b0 b1 r s \<Longrightarrow> set rcd \<subseteq> set rcd' \<Longrightarrow> settled es rcd' b0 b1 r (s\<lparr>sup_sink := k\<rparr>)"
  by (auto simp: settled_def split: if_splits)

lemma kill_inv_start:
  "kill_inv record_of es run creds b0 b1 r (start es (supervisor_init b0 k0 run (Some creds)))"
  by (simp add: kill_inv_def start_def supervisor_init_def phase_ok_def settled_def)

lemma phase_sink:
  "phase_ok es rcd b0 b1 r ts l s \<Longrightarrow> set rcd \<subseteq> set rcd' \<Longrightarrow> phase_ok es rcd' b0 b1 r ts l (s\<lparr>sup_sink := k\<rparr>)"
  using settled_mono [of es rcd b0 b1 r s rcd' k]
  by (auto simp: phase_ok_def midway_def split: option.splits pc.splits)

lemma phase_other:
  "l \<noteq> Some i \<Longrightarrow> phase_ok es rcd b0 b1 r (ts[i := p]) l s = phase_ok es rcd b0 b1 r ts l s"
  by (auto simp: phase_ok_def split: option.splits)

lemma lock_invD: "lock_inv (ts, l, s) \<Longrightarrow> i < length ts \<Longrightarrow> in_section (ts ! i) \<longleftrightarrow> l = Some i"
  by (simp add: lock_inv_def)

lemma phase_step:
  assumes st: "thread_step em B i (ts ! i, l, s) (p, l', s')" and i: "i < length ts" "i < length es"
    and lk: "lock_inv (ts, l, s)"
    and x: "execute_kill B (sup_run_id s) (sup_credential_ids s) b0 = (Inr r, b1)"
    and ph: "phase_ok es rcd b0 b1 r ts l s" and ok: "thread_ok rcd (es ! i) (ts ! i)"
    and sub: "set rcd \<subseteq> set rcd'"
  shows "phase_ok es rcd' b0 b1 r (ts[i := p]) l' s'"
proof -
  have sec: "in_section (ts ! i) \<longleftrightarrow> l = Some i" by (rule lock_invD [OF lk i(1)])
  have ph': "phase_ok es rcd' b0 b1 r ts l s"
    using phase_sink [OF ph sub, of "sup_sink s"] by simp
  show ?thesis
    using st
  proof cases
    case (emit_ok e k)
    then show ?thesis using sec phase_sink [OF ph sub, of k] by (simp add: phase_other)
  next
    case (emit_raises e x k)
    then show ?thesis using sec phase_sink [OF ph sub, of k] by (simp add: phase_other)
  next
    case (observation e)
    then show ?thesis using sec ph' by (simp add: phase_other)
  next
    case (demand e)
    then show ?thesis using sec ph' by (simp add: phase_other)
  next
    case (kill q e)
    then have l: "l = Some i" using sec by simp
    then have m: "midway (Some e) b0 s" using ph' kill(1) by (simp add: phase_ok_def)
    have e: "e \<in> set es \<inter> set rcd'" "is_kill e"
      using ok kill(1) i(2) sub by (auto simp: thread_ok_def)
    have "run_kill B s = (Inr (), s\<lparr>sup_backend := b1, sup_kill_result := Some r\<rparr>)"
      using x m by (simp add: py_simps midway_def)
    then have "s' = s\<lparr>sup_backend := b1, sup_kill_result := Some r\<rparr>" using kill by simp
    then show ?thesis using kill(2,3) l i(1) m e
      by (auto simp: phase_ok_def settled_def midway_def)
  qed (use sec ph' i(1) in \<open>auto simp: phase_ok_def settled_def midway_def\<close>)
qed

definition all_inv ::
  "('k \<Rightarrow> bool) \<Rightarrow> ('k \<Rightarrow> trip_event list) \<Rightarrow> 'k \<Rightarrow> trip_event list \<Rightarrow> string \<Rightarrow> string list \<Rightarrow> 'b \<Rightarrow> 'b \<Rightarrow>
   kill_result \<Rightarrow> ('k, 'b) system \<Rightarrow> bool" where
  "all_inv good record_of k0 es run creds b0 b1 r c \<longleftrightarrow>
     lock_inv c \<and> record_inv good record_of k0 es c \<and> kill_inv record_of es run creds b0 b1 r c"

lemma not_killed_kept:
  assumes "thread_step em B i (p0, l, s) (p, l', s')"
  shows "sup_run_id s' = sup_run_id s" "sup_credential_ids s' = sup_credential_ids s"
    "sup_killed s \<Longrightarrow> sup_killed s'"
  using assms by (auto elim!: thread_stepE simp: py_simps split: prod.splits sum.splits)

context supervised
begin

lemma kill_inv_step:
  assumes x: "execute_kill B run creds b0 = (Inr r, b1)" and fine: "list_all fine es"
  shows "sys_step em B c c' \<Longrightarrow> lock_inv c \<Longrightarrow> record_inv good record_of k0 es c \<Longrightarrow>
    record_inv good record_of k0 es c' \<Longrightarrow> kill_inv record_of es run creds b0 b1 r c \<Longrightarrow>
    kill_inv record_of es run creds b0 b1 r c'"
proof (induction rule: sys_step.induct)
  case (interleave i ts l s p l' s')
  let ?r = "record_of (sup_sink s)" and ?r' = "record_of (sup_sink s')"
  note st = interleave(2)
  have i: "i < length ts" "i < length es" and g: "good (sup_sink s)" and ok: "thread_ok ?r (es ! i) (ts ! i)"
    using interleave(1,4) by (auto simp: record_inv_def)
  have par: "sup_run_id s = run" "sup_credential_ids s = creds" and ph: "phase_ok es ?r b0 b1 r ts l s"
    and past: "\<And>j. j < length ts \<Longrightarrow> past_check (ts ! j) \<Longrightarrow> is_kill (es ! j) \<Longrightarrow> sup_killed s"
    and calm: "\<And>j. j < length ts \<Longrightarrow> unraised (ts ! j)"
    using interleave(6) by (auto simp: kill_inv_def)
  have l: "in_section (ts ! i) \<longleftrightarrow> l = Some i" by (rule lock_invD [OF interleave(3) i(1)])
  have fe: "fine (es ! i)" using fine i(2) by (simp add: list_all_length)
  have "set ?r \<subseteq> set ?r' \<and> unraised p \<and> (past_check p \<longrightarrow> is_kill (es ! i) \<longrightarrow> sup_killed s')"
    using st
  proof cases
    case (emit_ok e k)
    then have "e = es ! i" using ok by (simp add: thread_ok_def)
    then have "?r' = ?r @ [e]" using emit_records [OF g fe, of k] emit_ok by simp
    then show ?thesis using emit_ok by auto
  next
    case (emit_raises e y k)
    then have "e = es ! i" using ok by (simp add: thread_ok_def)
    then show ?thesis using emit_total [OF g fe] emit_raises by auto
  next
    case (kill q e)
    then have "midway (Some e) b0 s" using ph l by (simp add: phase_ok_def)
    then show ?thesis using kill x par by (auto simp: midway_def py_simps raised_def)
  next
    case (release y)
    then show ?thesis using calm [OF i(1)] past [OF i(1)] by auto
  qed (use ok in \<open>auto simp: thread_ok_def\<close>)
  then have sub: "set ?r \<subseteq> set ?r'" and p: "unraised p"
    and pk: "past_check p \<Longrightarrow> is_kill (es ! i) \<Longrightarrow> sup_killed s'" by auto
  have "phase_ok es ?r' b0 b1 r (ts[i := p]) l' s'"
    by (rule phase_step [OF st i interleave(3) _ ph ok sub]) (simp add: par x)
  moreover have "past_check (ts[i := p] ! j) \<longrightarrow> is_kill (es ! j) \<longrightarrow> sup_killed s'" "unraised (ts[i := p] ! j)"
    if "j < length ts" for j
    using not_killed_kept(3) [OF st] p pk past [OF that] calm [OF that] that by (cases "j = i"; simp)+
  ultimately show ?case
    using not_killed_kept(1,2) [OF st] par by (simp add: kill_inv_def)
qed

lemma all_inv_reachable:
  assumes x: "execute_kill B run creds b0 = (Inr r, b1)" and fine: "list_all fine es" and k0: "good k0"
    and reach: "(sys_step em B)\<^sup>*\<^sup>* (start es (supervisor_init b0 k0 run (Some creds))) c"
  shows "all_inv good record_of k0 es run creds b0 b1 r c"
  using reach
proof (induction rule: rtranclp_induct)
  case base
  have "record_inv good record_of k0 es (start es (supervisor_init b0 k0 run (Some creds)))"
    using record_inv_start [of good "supervisor_init b0 k0 run (Some creds)" record_of es] k0
    by (simp add: supervisor_init_def)
  then show ?case by (simp add: all_inv_def lock_inv_start kill_inv_start)
next
  case (step c c')
  then show ?case
    using lock_inv_step [OF step(2)] record_inv_step [OF fine step(2), of k0] kill_inv_step [OF x fine step(2), of k0]
    by (auto simp: all_inv_def)
qed

end

text \<open>What the invariant says of the supervisor at any moment, and when no thread can move.\<close>

lemma all_invD:
  assumes "all_inv good record_of k0 es run creds b0 b1 r (ts, l, s)"
  shows "sup_backend s \<in> {b0, b1}"
    and "sup_cause s = Some e \<Longrightarrow> e \<in> set es \<and> is_kill e \<and> e \<in> set (record_of (sup_sink s))"
    and "i < length ts \<Longrightarrow> j < length ts \<Longrightarrow> in_section (ts ! i) \<Longrightarrow> in_section (ts ! j) \<Longrightarrow> i = j"
proof -
  have lk: "lock_inv (ts, l, s)" and ph: "phase_ok es (record_of (sup_sink s)) b0 b1 r ts l s"
    and len: "length ts = length es"
    and ok: "\<And>i. i < length es \<Longrightarrow> thread_ok (record_of (sup_sink s)) (es ! i) (ts ! i)"
    using assms by (auto simp: all_inv_def kill_inv_def record_inv_def)
  show "i < length ts \<Longrightarrow> j < length ts \<Longrightarrow> in_section (ts ! i) \<Longrightarrow> in_section (ts ! j) \<Longrightarrow> i = j"
    using lk by (simp add: lock_inv_def)
  show "sup_backend s \<in> {b0, b1}"
    using ph by (auto simp: phase_ok_def settled_def midway_def split: option.splits pc.splits if_splits)
  show "e \<in> set es \<and> is_kill e \<and> e \<in> set (record_of (sup_sink s))" if c: "sup_cause s = Some e"
  proof (cases "\<exists>i e'. l = Some i \<and> ts ! i = Executing e'")
    case True
    then obtain i e' where i: "l = Some i" "ts ! i = Executing e'" by blast
    then have "i < length es" using lk len by (simp add: lock_inv_def)
    then show ?thesis using ok [of i] i ph c by (auto simp: thread_ok_def phase_ok_def midway_def)
  next
    case False
    then show ?thesis using ph c
      by (auto simp: phase_ok_def settled_def midway_def split: option.splits pc.splits if_splits)
  qed
qed

lemma stuck_finished:
  assumes "all_inv good record_of k0 es run creds b0 b1 r (ts, l, s)" "\<nexists>c. sys_step em B (ts, l, s) c"
  shows "l = None" "list_all (\<lambda>p. p = Finished None) ts"
proof -
  have lk: "lock_inv (ts, l, s)" and un: "\<And>i. i < length ts \<Longrightarrow> unraised (ts ! i)"
    using assms(1) by (auto simp: all_inv_def kill_inv_def)
  have wait: "(\<exists>x. ts ! i = Finished x) \<or> (\<exists>e. ts ! i = Acquiring e \<and> l \<noteq> None)" if "i < length ts" for i
  proof (rule ccontr)
    assume "\<not> ?thesis"
    then obtain y where "thread_step em B i (ts ! i, l, s) y"
      using can_step [of "ts ! i" l em B i s] by auto
    then show False
      using assms(2) interleave [OF that, of em B l s] by (metis prod_cases3)
  qed
  show l: "l = None"
  proof (rule ccontr)
    assume "l \<noteq> None"
    then obtain i where i: "l = Some i" "i < length ts" using lk by (auto simp: lock_inv_def)
    then have "in_section (ts ! i)" using lk by (simp add: lock_inv_def)
    then show False using wait [OF i(2)] by auto
  qed
  show "list_all (\<lambda>p. p = Finished None) ts"
    using wait un l by (fastforce simp: list_all_length)
qed

lemma finished_outcome:
  assumes inv: "all_inv good record_of k0 es run creds b0 b1 r (ts, l, s)"
    and fin: "list_all (\<lambda>p. p = Finished None) ts" "l = None"
  shows "mset (record_of (sup_sink s)) = mset (record_of k0) + mset es"
    and "sup_killed s \<longleftrightarrow> (\<exists>e \<in> set es. is_kill e)"
    and "sup_backend s = (if sup_killed s then b1 else b0)"
    and "sup_kill_result s = (if sup_killed s then Some r else None)"
proof -
  have len: "length ts = length es"
    and bal: "mset (record_of (sup_sink s)) + mset (concat (map pending ts)) = mset (record_of k0) + mset es"
    and st: "settled es (record_of (sup_sink s)) b0 b1 r s"
    and past: "\<And>j. j < length ts \<Longrightarrow> past_check (ts ! j) \<Longrightarrow> is_kill (es ! j) \<Longrightarrow> sup_killed s"
    using inv fin(2) by (auto simp: all_inv_def kill_inv_def record_inv_def phase_ok_def)
  have c: "concat (map pending ts) = []" using fin(1) by (auto simp: list_all_iff)
  show "mset (record_of (sup_sink s)) = mset (record_of k0) + mset es" using bal unfolding c by simp
  show "sup_killed s \<longleftrightarrow> (\<exists>e \<in> set es. is_kill e)"
  proof
    assume "\<exists>e \<in> set es. is_kill e"
    then obtain j where "j < length ts" "is_kill (es ! j)" using len by (auto simp: in_set_conv_nth)
    then show "sup_killed s" using past [of j] fin(1) by (simp add: list_all_length)
  qed (use st in \<open>auto simp: settled_def\<close>)
  show "sup_backend s = (if sup_killed s then b1 else b0)"
    "sup_kill_result s = (if sup_killed s then Some r else None)"
    using st by (auto simp: settled_def)
qed

section \<open>Concurrent reports on the program's backends\<close>

text \<open>
  Any recording sink and any total backend: what holds of a supervisor over them, however
  its reports interleave. The backend logs its calls.
\<close>

lemma supervised_inv:
  assumes "supervised em good fine record_of (logging B) (\<lambda>(b, cs). ok b)" "total_backend B ok"
    and "good k" "list_all fine es" "ok b"
    and "(sys_step em (logging B))\<^sup>*\<^sup>* (start es (supervisor_init (b, []) k run (Some creds))) c"
  shows "\<exists>b' r. kr_run_id r = run \<and> subseq (kr_credentials_revoked r) creds
    \<and> all_inv good record_of k es run creds (b, []) (b', kill_plan B run creds) r c"
proof -
  obtain r b' where r: "execute_kill B run creds b = (Inr r, b')"
      "kr_run_id r = run" "subseq (kr_credentials_revoked r) creds"
    using total_backend.execute_kill_total [OF assms(2,5)] by blast
  show ?thesis
    using supervised.all_inv_reachable [OF assms(1) logged_kill_calls [OF r(1)] assms(4,3,6)] r(2,3)
    by (auto intro!: exI [of _ r] exI [of _ b'])
qed

definition single_kill ::
  "('k \<Rightarrow> trip_event list) \<Rightarrow> trip_event list \<Rightarrow> kill_call list \<Rightarrow> ('k, 'b \<times> kill_call list) system \<Rightarrow> bool" where
  "single_kill record_of es plan c = (case c of (ts, l, s) \<Rightarrow>
     card {i. i < length ts \<and> in_section (ts ! i)} \<le> 1
     \<and> snd (sup_backend s) \<in> {[], plan}
     \<and> (case sup_cause s of None \<Rightarrow> True
        | Some e \<Rightarrow> e \<in> set es \<and> is_kill e \<and> e \<in> set (record_of (sup_sink s))))"

definition completed ::
  "('k \<Rightarrow> trip_event list) \<Rightarrow> 'k \<Rightarrow> trip_event list \<Rightarrow> string \<Rightarrow> kill_call list \<Rightarrow> ('k, 'b \<times> kill_call list) system \<Rightarrow> bool" where
  "completed record_of k es run plan c = (case c of (ts, l, s) \<Rightarrow>
     ts = replicate (length es) (Finished None) \<and> l = None
     \<and> mset (record_of (sup_sink s)) = mset (record_of k) + mset es
     \<and> sup_killed s = (\<exists>e \<in> set es. is_kill e)
     \<and> snd (sup_backend s) = (if sup_killed s then plan else [])
     \<and> (case sup_kill_result s of None \<Rightarrow> \<not> sup_killed s | Some r \<Rightarrow> sup_killed s \<and> kr_run_id r = run))"

lemma supervised_single_kill:
  assumes "supervised em good fine record_of (logging B) (\<lambda>(b, cs). ok b)" "total_backend B ok"
    and "good k" "list_all fine es" "ok b"
    and "(sys_step em (logging B))\<^sup>*\<^sup>* (start es (supervisor_init (b, []) k run (Some creds))) c"
  shows "single_kill record_of es (kill_plan B run creds) c"
proof -
  obtain ts l s where c: "c = (ts, l, s)" by (metis prod_cases3)
  obtain b' r where inv: "all_inv good record_of k es run creds (b, []) (b', kill_plan B run creds) r (ts, l, s)"
    using supervised_inv [OF assms] c by blast
  have "card {i. i < length ts \<and> in_section (ts ! i)} \<le> 1"
    using all_invD(3) [OF inv] by (subst card_le_Suc0_iff_eq [folded One_nat_def]) auto
  then show ?thesis
    using all_invD(1) [OF inv] all_invD(2) [OF inv] c by (auto simp: single_kill_def split: option.splits)
qed

lemma supervised_completion:
  assumes "supervised em good fine record_of (logging B) (\<lambda>(b, cs). ok b)" "total_backend B ok"
    and "good k" "list_all fine es" "ok b"
    and "(sys_step em (logging B))\<^sup>*\<^sup>* (start es (supervisor_init (b, []) k run (Some creds))) c"
    and "\<nexists>c'. sys_step em (logging B) c c'"
  shows "completed record_of k es run (kill_plan B run creds) c"
proof -
  obtain ts l s where c: "c = (ts, l, s)" by (metis prod_cases3)
  obtain b' r where inv: "kr_run_id r = run"
      "all_inv good record_of k es run creds (b, []) (b', kill_plan B run creds) r (ts, l, s)"
    using supervised_inv [OF assms(1-6)] c by blast
  have len: "length ts = length es" using inv(2) by (simp add: all_inv_def record_inv_def)
  have fin: "l = None" "list_all (\<lambda>p. p = Finished None) ts"
    using stuck_finished [OF inv(2)] assms(7) c by blast+
  have "ts = replicate (length es) (Finished None)"
    using fin(2) len by (simp add: list_all_iff replicate_eqI)
  then show ?thesis
    using finished_outcome [OF inv(2) fin(2,1)] fin(1) inv(1) c by (simp add: completed_def)
qed

text \<open>The invariant over the durable record, on any backend that keeps the contract.\<close>

lemma concurrent_inv:
  assumes "total_backend B ok" "durable fp k" "list_all (event_ok fr fp) es" "ok b"
    and "(sys_step (emit fr) (logging B))\<^sup>*\<^sup>* (start es (supervisor_init (b, []) k run (Some creds))) c"
  shows "\<exists>b' r. kr_run_id r = run \<and> subseq (kr_credentials_revoked r) creds
    \<and> all_inv (durable fp) (durable_record fp) k es run creds (b, []) (b', kill_plan B run creds) r c"
  using supervised_inv [OF durable_supervised [OF assms(1)] assms(1-5)] .

abbreviation gvisor_plan :: "string \<Rightarrow> string list \<Rightarrow> kill_call list" where
  "gvisor_plan run creds \<equiv> map Revoke creds @ [Sever run, Terminate run]"

abbreviation firecracker_plan :: "string \<Rightarrow> string list \<Rightarrow> kill_call list" where
  "firecracker_plan run creds \<equiv> map Revoke creds @ [Terminate run, Sever run]"

lemma program_plans:
  "kill_plan gvisor_backend run creds = gvisor_plan run creds"
  "kill_plan firecracker_backend run creds = firecracker_plan run creds"
  by (simp_all add: kill_plan_def)

text \<open>
  However the threads interleave, at every moment: at most one is inside the lock, the
  backend has been called for one whole kill or for none, and the recorded cause is one of
  the reported \<open>KILL\<close> events, already in the durable record.
\<close>
theorem concurrent_single_kill:
  assumes "durable fp k" "list_all (event_ok fr fp) es" "gvisor_total g"
    and "(sys_step (emit fr) (logging gvisor_backend))\<^sup>*\<^sup>*
      (start es (supervisor_init (g, []) k run (Some creds))) (ts, l, s)"
  shows "card {i. i < length ts \<and> in_section (ts ! i)} \<le> 1
    \<and> snd (sup_backend s) \<in> {[], gvisor_plan run creds}
    \<and> (case sup_cause s of None \<Rightarrow> True
       | Some e \<Rightarrow> e \<in> set es \<and> is_kill e \<and> e \<in> set (durable_record fp (sup_sink s)))"
  using supervised_single_kill [OF gvisor_run.supervised_axioms gvisor.total_backend_axioms assms]
  by (simp add: single_kill_def program_plans)

text \<open>
  When no thread can go on, all of them have returned, without an exception and with the
  lock free; every event is in the record as often as it was reported, and the kill ran if
  and only if some event demanded it. So the lock never deadlocks a report.
\<close>
theorem concurrent_completion:
  assumes "durable fp k" "list_all (event_ok fr fp) es" "gvisor_total g"
    and "(sys_step (emit fr) (logging gvisor_backend))\<^sup>*\<^sup>*
      (start es (supervisor_init (g, []) k run (Some creds))) (ts, l, s)"
    and "\<nexists>c. sys_step (emit fr) (logging gvisor_backend) (ts, l, s) c"
  shows "ts = replicate (length es) (Finished None) \<and> l = None
    \<and> mset (durable_record fp (sup_sink s)) = mset (durable_record fp k) + mset es
    \<and> sup_killed s = (\<exists>e \<in> set es. is_kill e)
    \<and> snd (sup_backend s) = (if sup_killed s then gvisor_plan run creds else [])
    \<and> (case sup_kill_result s of None \<Rightarrow> \<not> sup_killed s | Some r \<Rightarrow> sup_killed s \<and> kr_run_id r = run)"
  using supervised_completion [OF gvisor_run.supervised_axioms gvisor.total_backend_axioms assms]
  by (simp add: completed_def program_plans)

text \<open>The same on Firecracker, whose plan terminates before it severs.\<close>

theorem firecracker_single_kill:
  assumes "durable fp k" "list_all (event_ok fr fp) es" "firecracker_total f"
    and "(sys_step (emit fr) (logging firecracker_backend))\<^sup>*\<^sup>*
      (start es (supervisor_init (f, []) k run (Some creds))) c"
  shows "single_kill (durable_record fp) es (firecracker_plan run creds) c"
  using supervised_single_kill [OF firecracker_run.supervised_axioms firecracker.total_backend_axioms assms]
  by (simp add: program_plans)

theorem firecracker_completion:
  assumes "durable fp k" "list_all (event_ok fr fp) es" "firecracker_total f"
    and "(sys_step (emit fr) (logging firecracker_backend))\<^sup>*\<^sup>*
      (start es (supervisor_init (f, []) k run (Some creds))) c"
    and "\<nexists>c'. sys_step (emit fr) (logging firecracker_backend) c c'"
  shows "completed (durable_record fp) k es run (firecracker_plan run creds) c"
  using supervised_completion [OF firecracker_run.supervised_axioms firecracker.total_backend_axioms assms]
  by (simp add: program_plans)

text \<open>Every run ends: \<open>n\<close> concurrent reports take at most \<open>7 * n\<close> steps.\<close>
theorem concurrent_terminates:
  assumes "(sys_step em B ^^ n) (start es s) c"
  shows "n \<le> 7 * length es"
proof -
  have "work (start es s) = 7 * length es"
    by (simp add: work_def start_def) (induction es; simp)
  then show ?thesis using reports.steps_bounded [OF assms] by simp
qed

section \<open>Which kill wins\<close>

lemma two_solo_runs:
  assumes "report em B e s = (Inr (), s1)" "report em B e' s1 = (Inr (), s2)"
    and "(i, j) \<in> {(0, 1), (1, 0)}" "[a, b] ! i = e" "[a, b] ! j = e'"
  shows "(sys_step em B)\<^sup>*\<^sup>* (start [a, b] s) ([Finished None, Finished None], None, s2)"
proof -
  let ?ts = "map Entered [a, b]"
  have 1: "(sys_step em B)\<^sup>*\<^sup>* (?ts, None, s) (?ts[i := Finished None], None, s1)"
    using thread_runs_report [of i ?ts e em B s] assms(1,3,4) by (auto simp: raised_def)
  have 2: "(sys_step em B)\<^sup>*\<^sup>* (?ts[i := Finished None], None, s1) (?ts[i := Finished None, j := Finished None], None, s2)"
    using thread_runs_report [of j "?ts[i := Finished None]" e' em B s1] assms(2,3,5) by (auto simp: raised_def)
  show ?thesis using rtranclp_trans [OF 1 2] assms(3) by (auto simp: start_def)
qed

lemma local_two_kills:
  assumes "list_all tame ss" "is_kill e" "is_kill e'"
  shows "\<exists>s1 s2. report (emit fr) local_backend e (supervisor_init b (Tee ss fs) run creds) = (Inr (), s1)
    \<and> report (emit fr) local_backend e' s1 = (Inr (), s2) \<and> sup_cause s2 = Some e"
proof -
  let ?s = "supervisor_init b (Tee ss fs) run creds"
  obtain k1 where k1: "emit fr e (Tee ss fs) = (Inr (), k1)" "tame_tee k1"
    using tee.emit_total [where k = "Tee ss fs" and e = e and fr = fr] assms(1) by auto
  obtain k2 where k2: "emit fr e' k1 = (Inr (), k2)"
    using tee.emit_total [where k = k1 and e = e' and fr = fr] k1(2) by auto
  have s: "sup_sink ?s = Tee ss fs" "\<not> sup_killed ?s" by (simp_all add: supervisor_init_def)
  obtain r b' where "report (emit fr) local_backend e ?s =
      (Inr (), ?s\<lparr>sup_sink := k1, sup_killed := True, sup_cause := Some e, sup_backend := b', sup_kill_result := Some r\<rparr>)"
    using report_first_kill [of "emit fr" e ?s k1 local_backend] k1(1) s assms(2)
    by (simp add: local_kill_outcome)
  then show ?thesis
    using report_observation [of "emit fr" e' _ k2 local_backend] k2 by auto
qed

text \<open>
  C33. \<^verbatim>\<open>supervisor.py\<close> says that "first kill wins" by event id and timestamp, not by lock order.
  The code records whichever thread takes the lock first: for two concurrent \<open>KILL\<close>
  events, whatever their ids and timestamps, either can become the cause.
\<close>
theorem lock_order_decides_cause:
  assumes "list_all tame ss" "is_kill e1" "is_kill e2"
  shows "(\<exists>s. (sys_step (emit fr) local_backend)\<^sup>*\<^sup>* (start [e1, e2] (supervisor_init b (Tee ss fs) run creds))
        ([Finished None, Finished None], None, s) \<and> sup_cause s = Some e1)
    \<and> (\<exists>s. (sys_step (emit fr) local_backend)\<^sup>*\<^sup>* (start [e1, e2] (supervisor_init b (Tee ss fs) run creds))
        ([Finished None, Finished None], None, s) \<and> sup_cause s = Some e2)"
proof -
  obtain s1 s2 where 1: "report (emit fr) local_backend e1 (supervisor_init b (Tee ss fs) run creds) = (Inr (), s1)"
      "report (emit fr) local_backend e2 s1 = (Inr (), s2)" "sup_cause s2 = Some e1"
    using local_two_kills [OF assms] by blast
  obtain t1 t2 where 2: "report (emit fr) local_backend e2 (supervisor_init b (Tee ss fs) run creds) = (Inr (), t1)"
      "report (emit fr) local_backend e1 t1 = (Inr (), t2)" "sup_cause t2 = Some e2"
    using local_two_kills [OF assms(1,3,2)] by blast
  show ?thesis
    using two_solo_runs [OF 1(1,2), of 0 1 e1 e2] two_solo_runs [OF 2(1,2), of 1 0 e1 e2] 1(3) 2(3) by auto
qed

section \<open>A run of two concurrent kills\<close>

abbreviation demo_sys :: "(unit sink, unit gvisor \<times> kill_call list) supervisor" where
  "demo_sys \<equiv> supervisor_init (demo_gvisor, []) demo_tee ''run-1'' (Some [''tok-1''])"

lemma demo_events_ok: "list_all (event_ok demo_fr demo_fp) [demo_event, demo_event]"
  by (simp add: demo_event_ok)

lemma demo_two_reports:
  "\<exists>s1 s2. report (emit demo_fr) (logging gvisor_backend) demo_event demo_sys = (Inr (), s1)
     \<and> report (emit demo_fr) (logging gvisor_backend) demo_event s1 = (Inr (), s2)"
proof -
  obtain s2 where "py_for [demo_event, demo_event] (report (emit demo_fr) (logging gvisor_backend)) demo_sys = (Inr (), s2)"
    using supervised_run [OF gvisor_run.supervised_axioms gvisor.total_backend_axioms demo_tee_durable(1)
        demo_events_ok demo_gvisor_total, of "''run-1''" "[''tok-1'']"] by blast
  then show ?thesis
    by (auto simp: py_simps split: prod.splits sum.splits)
qed

lemma demo_reach:
  "\<exists>s. (sys_step (emit demo_fr) (logging gvisor_backend))\<^sup>*\<^sup>* (start [demo_event, demo_event] demo_sys)
     ([Finished None, Finished None], None, s)"
  using demo_two_reports two_solo_runs [of "emit demo_fr" "logging gvisor_backend" demo_event demo_sys _ demo_event _ 0 1
      demo_event demo_event] by auto

lemma finished_stuck: "\<not> thread_step em B i (Finished x, l, s) y"
  by (simp add: thread_step_simps)

lemma demo_stuck: "\<nexists>c. sys_step em B ([Finished None, Finished None], None, s) c"
proof
  assume "\<exists>c. sys_step em B ([Finished None, Finished None], None, s) c"
  then obtain c where "sys_step em B ([Finished None, Finished None], None, s) c" by blast
  then show False
    by (cases rule: sys_stepE) (auto simp: finished_stuck less_Suc_eq)
qed

theorem concurrent_single_kill_witness:
  "\<exists>s. (sys_step (emit demo_fr) (logging gvisor_backend))\<^sup>*\<^sup>* (start [demo_event, demo_event] demo_sys)
      ([Finished None, Finished None], None, s)
    \<and> snd (sup_backend s) \<in> {[], [Revoke ''tok-1'', Sever ''run-1'', Terminate ''run-1'']}"
proof -
  obtain s where s: "(sys_step (emit demo_fr) (logging gvisor_backend))\<^sup>*\<^sup>* (start [demo_event, demo_event] demo_sys)
      ([Finished None, Finished None], None, s)" using demo_reach by blast
  then show ?thesis
    using concurrent_single_kill [OF demo_tee_durable(1) demo_events_ok demo_gvisor_total s]
    by (intro exI [of _ s]) simp
qed

theorem concurrent_completion_witness:
  "\<exists>s. (sys_step (emit demo_fr) (logging gvisor_backend))\<^sup>*\<^sup>* (start [demo_event, demo_event] demo_sys)
      ([Finished None, Finished None], None, s)
    \<and> mset (durable_record demo_fp (sup_sink s)) = {#demo_event, demo_event#}
    \<and> snd (sup_backend s) = [Revoke ''tok-1'', Sever ''run-1'', Terminate ''run-1'']"
proof -
  obtain s where s: "(sys_step (emit demo_fr) (logging gvisor_backend))\<^sup>*\<^sup>* (start [demo_event, demo_event] demo_sys)
      ([Finished None, Finished None], None, s)" using demo_reach by blast
  have k: "is_kill demo_event" by (simp add: demo_event_def make_event_def)
  note c = concurrent_completion [OF demo_tee_durable(1) demo_events_ok demo_gvisor_total s demo_stuck]
  have killed: "sup_killed s" using c k by auto
  have rcd: "mset (durable_record demo_fp (sup_sink s)) = {#demo_event, demo_event#}"
    using c by (simp only: demo_tee_durable(2) mset.simps empty_neutral)
  have "snd (sup_backend s) = map Revoke [''tok-1''] @ [Sever ''run-1'', Terminate ''run-1'']"
    using c killed by (simp only: if_True)
  then show ?thesis using s rcd by (intro exI [of _ s]) simp
qed

theorem concurrent_terminates_witness:
  "\<exists>n s. (sys_step (emit demo_fr) (logging gvisor_backend) ^^ n) (start [demo_event, demo_event] demo_sys)
      ([Finished None, Finished None], None, s) \<and> n \<le> 14"
proof -
  obtain s where "(sys_step (emit demo_fr) (logging gvisor_backend))\<^sup>*\<^sup>* (start [demo_event, demo_event] demo_sys)
      ([Finished None, Finished None], None, s)" using demo_reach by blast
  then obtain n where n: "(sys_step (emit demo_fr) (logging gvisor_backend) ^^ n) (start [demo_event, demo_event] demo_sys)
      ([Finished None, Finished None], None, s)" by (auto simp: rtranclp_power)
  then show ?thesis using concurrent_terminates [OF n] by (intro exI [of _ n] exI [of _ s]) simp
qed

theorem lock_order_decides_cause_witness:
  "\<exists>s. (sys_step (emit demo_fr) local_backend)\<^sup>*\<^sup>*
      (start [demo_event, demo_event\<lparr>te_event_id := ''e-2'', te_ts := 1\<rparr>]
         (supervisor_init local_init (Tee [] [] :: unit sink) ''run-1'' None))
      ([Finished None, Finished None], None, s) \<and> sup_cause s = Some demo_event"
  using lock_order_decides_cause [of "[] :: unit sink list" demo_event "demo_event\<lparr>te_event_id := ''e-2'', te_ts := 1\<rparr>"
      demo_fr local_init "[]" "''run-1''" None]
  by (auto simp: demo_event_def make_event_def)

end
