(* ===== verification/Handlers.thy ===== *)
theory Handlers
  imports Session Concurrency
begin

text \<open>
  The terminating proxy with its threads: the accept loop (\<^verbatim>\<open>_serve\<close>), one handler thread per
  connection (\<^verbatim>\<open>_run_handler\<close>, \<^verbatim>\<open>_handle_accepted\<close>) and, inside the handlers, the calls to
  \<^verbatim>\<open>PolicyGate.decide\<close> and with it \<^verbatim>\<open>Supervisor.report\<close>, whose statements interleave as in
  Concurrency. A handler is a program counter over the statements that touch what threads
  share; what it does with its own sockets between two of them is part of the step: the
  handshake with the reading of the head is one step (\<open>prepare\<close>), the whole forwarding another
  (\<open>forward\<close>, with the schedule of its relay's threads), each with the outcome the scripts of the
  socket calls give it, the timeout of a call among them. How long a step takes does not
  show; a thread that never takes its next step is one the schedule does not pick
  (Stopping, \<open>moves\<close>).
\<close>

section \<open>Program counters\<close>

datatype hpc =
    Fresh                 \<comment> \<open>thread started, at the first statement of \<^verbatim>\<open>_handle_accepted\<close>\<close>
  | Planned plan          \<comment> \<open>connection read, at \<^verbatim>\<open>self._notify(observed)\<close>, or raising\<close>
  | Seen plan             \<comment> \<open>in \<^verbatim>\<open>_seen\<close>, at the observer callback\<close>
  | Told plan             \<comment> \<open>at \<^verbatim>\<open>self._decide(observed)\<close>, or done with the connection\<close>
  | Asking plan nat       \<comment> \<open>inside \<^verbatim>\<open>PolicyGate.decide\<close>, in the report with that number\<close>
  | Sending plan nat      \<comment> \<open>allowed, at \<^verbatim>\<open>self._forward(...)\<close>\<close>
  | Ending "py_exn option"  \<comment> \<open>\<^verbatim>\<open>_handle_accepted\<close> returned, or raised\<close>
  | Closing               \<comment> \<open>at \<^verbatim>\<open>conn.close()\<close>\<close>
  | Done

text \<open>
  What the threads share: the questions asked so far, each with the activation of \<^verbatim>\<open>report\<close>
  that records it, the supervisor's lock, and the proxy with the supervisor in \<open>tp_gate\<close>.
\<close>

record ('w, 'k, 'b, 'h) shared =
  sh_asked :: "(stamp \<times> intercepted_connection) list"
  sh_reports :: "pc list"
  sh_lock :: "nat option"
  sh_proxy :: "('w, ('k, 'b) supervisor, 'h) term_proxy"

fun plan_observation :: "plan \<Rightarrow> intercepted_connection option" where
  "plan_observation (Unreadable e) = None"
| "plan_observation (Silent obs) = Some obs"
| "plan_observation (Undecrypted obs) = Some obs"
| "plan_observation (Request obs head rest) = Some obs"

fun forwards :: "policy \<Rightarrow> plan \<Rightarrow> bool" where
  "forwards p (Request obs head rest) = gate_permits p obs"
| "forwards p _ = False"

text \<open>
  \<open>decide\<close> computes its answer from the policy before it reports (lemma \<open>decide_eq\<close>), so
  asking is entering a report and the answer is read when that report has returned.
\<close>

inductive handler_step ::
  "(('k, 'b) supervisor, stamp) term_config \<Rightarrow> policy \<Rightarrow> stamp tconn \<Rightarrow>
   hpc \<times> ('w, 'k, 'b, 'h) shared \<Rightarrow> hpc \<times> ('w, 'k, 'b, 'h) shared \<Rightarrow> bool"
  for cfg p c where
  reads: "prepare cfg c (sh_proxy s) = (pl, x) \<Longrightarrow>
    handler_step cfg p c (Fresh, s) (Planned pl, s\<lparr>sh_proxy := x\<rparr>)"
| unreadable: "handler_step cfg p c (Planned (Unreadable e), s) (Ending (Some e), s)"
| seen: "plan_observation pl = Some obs \<Longrightarrow> add_seen obs (sh_proxy s) = (r, x) \<Longrightarrow>
    handler_step cfg p c (Planned pl, s) (Seen pl, s\<lparr>sh_proxy := x\<rparr>)"
| told: "plan_observation pl = Some obs \<Longrightarrow> call_observer obs (sh_proxy s) = (r, x) \<Longrightarrow>
    handler_step cfg p c (Seen pl, s) (Told pl, s\<lparr>sh_proxy := x\<rparr>)"
| silent: "asks pl = None \<Longrightarrow> handler_step cfg p c (Told pl, s) (Ending None, s)"
| asked: "asks pl = Some obs \<Longrightarrow>
    handler_step cfg p c (Told pl, s) (Asking pl (length (sh_reports s)),
      s\<lparr>sh_asked := sh_asked s @ [(tc_stamp c, obs)],
        sh_reports := sh_reports s @ [Entered (decision_event p (tc_stamp c) obs)]\<rparr>)"
| failed: "sh_reports s ! k = Finished (Some e) \<Longrightarrow> handler_step cfg p c (Asking pl k, s) (Ending (Some e), s)"
| dropped: "sh_reports s ! k = Finished None \<Longrightarrow> \<not> forwards p pl \<Longrightarrow>
    handler_step cfg p c (Asking pl k, s) (Ending None, s)"
| allowed: "sh_reports s ! k = Finished None \<Longrightarrow> forwards p pl \<Longrightarrow>
    handler_step cfg p c (Asking pl k, s) (Sending pl k, s)"
| sent: "forward cfg c rest obs head (sh_proxy s) = (r, x) \<Longrightarrow>
    handler_step cfg p c (Sending (Request obs head rest) k, s) (Ending (raised r), s\<lparr>sh_proxy := x\<rparr>)"
| noted: "is_Exception e \<Longrightarrow> add_error e (sh_proxy s) = (r, x) \<Longrightarrow>
    handler_step cfg p c (Ending (Some e), s) (Closing, s\<lparr>sh_proxy := x\<rparr>)"
| passed: "(case q of None \<Rightarrow> True | Some e \<Rightarrow> \<not> is_Exception e) \<Longrightarrow> handler_step cfg p c (Ending q, s) (Closing, s)"
| closed: "close_sock (tc_sock c) (sh_proxy s) = (r, x) \<Longrightarrow>
    handler_step cfg p c (Closing, s) (Done, s\<lparr>sh_proxy := x\<rparr>)"

inductive_cases handler_stepE: "handler_step cfg p c (h, s) (h', s')"

text \<open>
  The accept loop, the handlers and the reports take their steps in any order. What \<^verbatim>\<open>accept()\<close>
  does is a script; a run is the program up to the script's end, which stands for the last
  event so far and not for an end of the loop.
\<close>

type_synonym ('w, 'k, 'b, 'h) world =
  "stamp tconn accept_event list \<times> (stamp tconn \<times> hpc) list \<times> ('w, 'k, 'b, 'h) shared"

inductive world_step ::
  "(trip_event \<Rightarrow> ('k, unit) py) \<Rightarrow> 'b kill_backend \<Rightarrow> (('k, 'b) supervisor, stamp) term_config \<Rightarrow> policy \<Rightarrow>
   ('w, 'k, 'b, 'h) world \<Rightarrow> ('w, 'k, 'b, 'h) world \<Rightarrow> bool"
  for em B cfg p where
  loop_ends: "px_stop (sh_proxy s) \<Longrightarrow> world_step em B cfg p (ev # evs, hs, s) ([], hs, s)"
| stop_called: "\<not> px_stop (sh_proxy s) \<Longrightarrow>
    world_step em B cfg p (StopSet # evs, hs, s) (evs, hs, s\<lparr>sh_proxy := (sh_proxy s)\<lparr>px_stop := True\<rparr>\<rparr>)"
| accept_timeout: "\<not> px_stop (sh_proxy s) \<Longrightarrow> world_step em B cfg p (AcceptTimeout # evs, hs, s) (evs, hs, s)"
| accept_error: "\<not> px_stop (sh_proxy s) \<Longrightarrow> world_step em B cfg p (AcceptError # evs, hs, s) ([], hs, s)"
| accepted: "\<not> px_stop (sh_proxy s) \<Longrightarrow>
    world_step em B cfg p (Accepted c # evs, hs, s)
      (evs, hs @ [(c, Fresh)], s\<lparr>sh_proxy := (sh_proxy s)\<lparr>tp_handlers := tp_handlers (sh_proxy s) + 1\<rparr>\<rparr>)"
| handler: "i < length hs \<Longrightarrow> hs ! i = (c, h) \<Longrightarrow> handler_step cfg p c (h, s) (h', s') \<Longrightarrow>
    world_step em B cfg p (evs, hs, s) (evs, hs[i := (c, h')], s')"
| report: "sys_step em B (sh_reports s, sh_lock s, tp_gate (sh_proxy s)) (ts, l, g) \<Longrightarrow>
    world_step em B cfg p (evs, hs, s) (evs, hs, s\<lparr>sh_reports := ts, sh_lock := l, sh_proxy := (sh_proxy s)\<lparr>tp_gate := g\<rparr>\<rparr>)"

definition world_init :: "stamp tconn accept_event list \<Rightarrow> ('w, ('k, 'b) supervisor, 'h) term_proxy \<Rightarrow> ('w, 'k, 'b, 'h) world" where
  "world_init evs x = (evs, [], \<lparr>sh_asked = [], sh_reports = [], sh_lock = None, sh_proxy = x\<rparr>)"

section \<open>What a handler may touch\<close>

lemma handler_step_frame:
  assumes "handler_step cfg p c (h, s) (h', s')"
  shows "sh_lock s' = sh_lock s \<and> tp_gate (sh_proxy s') = tp_gate (sh_proxy s) \<and> px_stop (sh_proxy s') = px_stop (sh_proxy s)"
  using assms
proof cases
  case (reads pl x)
  then show ?thesis using prepare_frame [OF reads(4)] by auto
next
  case (told pl obs r x)
  then show ?thesis using call_observer_returns [of obs "sh_proxy s"] by auto
next
  case (sent rest obs head r x k)
  then show ?thesis using forward_frame [OF sent(4)] by auto
next
  case (closed r x)
  then show ?thesis by (auto simp: close_sock_def py_simps split: option.splits if_splits)
qed (auto simp: add_seen_def add_error_def py_simps)

section \<open>The reports run as in Concurrency\<close>

lemma sys_step_append:
  assumes "sys_step em B (ts, l, g) (ts', l', g')"
  shows "sys_step em B (ts @ us, l, g) (ts' @ us, l', g') \<and> length ts' = length ts"
  using assms
proof cases
  case (interleave i p)
  then show ?thesis
    using sys_step.interleave [of i "ts @ us" em B l g p l' g'] by (simp add: nth_append list_update_append)
qed

lemma sys_steps_append:
  assumes "(sys_step em B)\<^sup>*\<^sup>* (ts, l, g) c"
  shows "case c of (ts', l', g') \<Rightarrow> (sys_step em B)\<^sup>*\<^sup>* (ts @ us, l, g) (ts' @ us, l', g') \<and> length ts' = length ts"
  using assms
proof (induction rule: rtranclp_induct)
  case (step c d)
  obtain ts1 l1 g1 ts2 l2 g2 where c: "c = (ts1, l1, g1)" "d = (ts2, l2, g2)" by (metis prod_cases3)
  show ?case using step.IH sys_step_append [of em B ts1 l1 g1 ts2 l2 g2 us] step.hyps(2) unfolding c
    by (auto intro: rtranclp.rtrancl_into_rtrancl)
qed simp

text \<open>
  \<open>reports_run em B p g s\<close>: the reports so far, their lock and the supervisor are a state that
  the concurrent reports of the decisions asked for can reach from \<open>g\<close>.
\<close>

definition reports_run ::
  "(trip_event \<Rightarrow> ('k, unit) py) \<Rightarrow> 'b kill_backend \<Rightarrow> policy \<Rightarrow> ('k, 'b) supervisor \<Rightarrow> ('w, 'k, 'b, 'h) shared \<Rightarrow> bool" where
  "reports_run em B p g s \<longleftrightarrow>
     length (sh_reports s) = length (sh_asked s)
   \<and> (sys_step em B)\<^sup>*\<^sup>* (start (decision_events p (sh_asked s)) g) (sh_reports s, sh_lock s, tp_gate (sh_proxy s))"

lemma reports_run_ask:
  assumes "reports_run em B p g s"
  shows "reports_run em B p g (s\<lparr>sh_asked := sh_asked s @ [(t, obs)], sh_reports := sh_reports s @ [Entered (decision_event p t obs)]\<rparr>)"
  using assms sys_steps_append [of em B "map Entered (decision_events p (sh_asked s))" None g
      "(sh_reports s, sh_lock s, tp_gate (sh_proxy s))" "[Entered (decision_event p t obs)]"]
  by (simp add: reports_run_def start_def)

lemma handler_asks:
  assumes "handler_step cfg p c (h, s) (h', s')"
  shows "sh_asked s' = sh_asked s \<and> sh_reports s' = sh_reports s
    \<or> (\<exists>pl obs. h = Told pl \<and> asks pl = Some obs \<and> h' = Asking pl (length (sh_reports s))
        \<and> s' = s\<lparr>sh_asked := sh_asked s @ [(tc_stamp c, obs)],
                 sh_reports := sh_reports s @ [Entered (decision_event p (tc_stamp c) obs)]\<rparr>)"
  using assms by cases simp_all

lemma reports_run_step:
  assumes "world_step em B cfg p (evs, hs, s) (evs', hs', s')" "reports_run em B p g s"
  shows "reports_run em B p g s'"
  using assms(1)
proof cases
  case (handler i c h h')
  note f = handler_step_frame [OF handler(5)]
  from handler_asks [OF handler(5)] show ?thesis
    using assms(2) f reports_run_ask [OF assms(2)] by (auto simp: reports_run_def)
next
  case (report ts l g')
  then show ?thesis using assms(2) sys_step_append [OF report(4), of "[]"]
    by (auto simp: reports_run_def intro: rtranclp.rtrancl_into_rtrancl)
qed (use assms(2) in \<open>auto simp: reports_run_def\<close>)

section \<open>What is settled stays settled\<close>

definition keeps :: "('w, 'k, 'b, 'h) shared \<Rightarrow> ('w, 'k, 'b, 'h) shared \<Rightarrow> bool" where
  "keeps s s' \<longleftrightarrow> length (sh_asked s) \<le> length (sh_asked s')
     \<and> (\<forall>k < length (sh_asked s). sh_asked s' ! k = sh_asked s ! k
          \<and> (\<forall>q. sh_reports s ! k = Finished q \<longrightarrow> sh_reports s' ! k = Finished q))"

lemma handler_step_keeps:
  assumes "handler_step cfg p c (h, s) (h', s')" "length (sh_reports s) = length (sh_asked s)"
  shows "keeps s s'"
  using handler_asks [OF assms(1)] assms(2) by (auto simp: keeps_def nth_append)

lemma sys_step_finished:
  "sys_step em B (ts, l, g) (ts', l', g') \<Longrightarrow> k < length ts \<Longrightarrow> ts ! k = Finished q \<Longrightarrow> ts' ! k = Finished q"
  by (erule sys_stepE) (metis Pair_inject finished_stuck nth_list_update_neq)

lemma world_step_keeps:
  assumes "world_step em B cfg p (evs, hs, s) (evs', hs', s')" "length (sh_reports s) = length (sh_asked s)"
  shows "keeps s s'"
  using assms(1)
proof cases
  case (handler i c h h')
  show ?thesis by (rule handler_step_keeps [OF handler(5) assms(2)])
next
  case (report ts l g)
  then show ?thesis using assms(2) sys_step_finished [OF report(4)] by (simp add: keeps_def)
qed (simp_all add: keeps_def)

section \<open>Every handler is where its connection brought it\<close>

definition question_at :: "('w, 'k, 'b, 'h) shared \<Rightarrow> nat \<Rightarrow> stamp tconn \<Rightarrow> plan \<Rightarrow> bool" where
  "question_at s k c pl \<longleftrightarrow> k < length (sh_asked s)
     \<and> fst (sh_asked s ! k) = tc_stamp c \<and> asks pl = Some (snd (sh_asked s ! k))"

fun handler_ok :: "policy \<Rightarrow> ('w, 'k, 'b, 'h) shared \<Rightarrow> stamp tconn \<times> hpc \<Rightarrow> bool" where
  "handler_ok p s (c, Planned pl) = planned c pl"
| "handler_ok p s (c, Seen pl) = (planned c pl \<and> plan_observation pl \<noteq> None)"
| "handler_ok p s (c, Told pl) = planned c pl"
| "handler_ok p s (c, Asking pl k) = (planned c pl \<and> question_at s k c pl)"
| "handler_ok p s (c, Sending pl k) =
     (planned c pl \<and> question_at s k c pl \<and> forwards p pl \<and> sh_reports s ! k = Finished None)"
| "handler_ok p s (c, h) = True"

lemma handler_ok_keeps: "keeps s s' \<Longrightarrow> handler_ok p s ch \<Longrightarrow> handler_ok p s' ch"
  by (cases "(p, s, ch)" rule: handler_ok.cases) (auto simp: keeps_def question_at_def)

lemma handler_ok_step:
  assumes "handler_step cfg p c (h, s) (h', s')" "handler_ok p s (c, h)" "length (sh_reports s) = length (sh_asked s)"
  shows "handler_ok p s' (c, h')"
  using assms(1)
proof cases
  case (reads pl x)
  then show ?thesis using prepare_planned by auto
qed (use assms(2,3) in \<open>auto simp: question_at_def\<close>)

section \<open>The books\<close>

text \<open>
  What a handler still owes: a question, a forwarding, a socket to close. With these the lists
  of the proxy balance at every moment.
\<close>

abbreviation asks_list :: "plan \<Rightarrow> intercepted_connection list" where
  "asks_list pl \<equiv> (case asks pl of None \<Rightarrow> [] | Some obs \<Rightarrow> [obs])"

fun unasked :: "stamp tconn \<times> hpc \<Rightarrow> intercepted_connection list" where
  "unasked (c, Seen pl) = asks_list pl"
| "unasked (c, Told pl) = asks_list pl"
| "unasked (c, h) = []"

fun unsent :: "stamp tconn \<times> hpc \<Rightarrow> intercepted_connection list" where
  "unsent (c, Asking pl k) = asks_list pl"
| "unsent (c, Sending pl k) = asks_list pl"
| "unsent (c, h) = []"

fun still_open :: "stamp tconn \<times> hpc \<Rightarrow> sock list" where
  "still_open (c, Done) = []"
| "still_open (c, h) = [tc_sock c]"

definition backed ::
  "(('k, 'b) supervisor, stamp) term_config \<Rightarrow> policy \<Rightarrow> stamp tconn set \<Rightarrow> ('w, 'k, 'b, 'h) shared \<Rightarrow> forwarding \<Rightarrow> bool" where
  "backed cfg p cs s f \<longleftrightarrow> gate_permits p (fw_conn f) \<and> (\<exists>c \<in> cs. faithful cfg c f)
     \<and> (\<exists>k < length (sh_asked s). snd (sh_asked s ! k) = fw_conn f \<and> sh_reports s ! k = Finished None)"

lemma backed_mono:
  assumes "backed cfg p cs s f" "keeps s s'" "cs \<subseteq> cs'"
  shows "backed cfg p cs' s' f"
proof -
  obtain k where "k < length (sh_asked s)" "snd (sh_asked s ! k) = fw_conn f" "sh_reports s ! k = Finished None"
    using assms(1) unfolding backed_def by blast
  then have "k < length (sh_asked s')" "snd (sh_asked s' ! k) = fw_conn f" "sh_reports s' ! k = Finished None"
    using assms(2) by (simp_all add: keeps_def)
  then show ?thesis using assms(1,3) unfolding backed_def by blast
qed

definition posed_by :: "stamp tconn \<Rightarrow> stamp \<times> intercepted_connection \<Rightarrow> bool" where
  "posed_by c = (\<lambda>(t, obs). t = tc_stamp c \<and> (\<exists>pl. planned c pl \<and> asks pl = Some obs))"

text \<open>What one step of one handler enters into the lists of the proxy, and what it takes off its own.\<close>

definition entries ::
  "(('k, 'b) supervisor, stamp) term_config \<Rightarrow> policy \<Rightarrow> stamp tconn \<Rightarrow> hpc \<times> ('w, 'k, 'b, 'h) shared \<Rightarrow>
   hpc \<times> ('w, 'k, 'b, 'h) shared \<Rightarrow> forwarding list \<Rightarrow> (stamp \<times> intercepted_connection) list \<Rightarrow>
   intercepted_connection list \<Rightarrow> sock list \<Rightarrow> bool" where
  "entries cfg p c = (\<lambda>(h, s) (h', s') fs qs obs cl.
     tp_forwarded (sh_proxy s') = tp_forwarded (sh_proxy s) @ fs \<and> sh_asked s' = sh_asked s @ qs
   \<and> px_seen (sh_proxy s') = px_seen (sh_proxy s) @ obs \<and> px_closed (sh_proxy s') = px_closed (sh_proxy s) @ cl
   \<and> mset (map fw_conn fs) + mset (unsent (c, h')) \<subseteq># mset (unsent (c, h)) + mset (map snd qs)
   \<and> mset (map snd qs) + mset (unasked (c, h')) \<subseteq># mset (unasked (c, h)) + mset obs
   \<and> mset cl + mset (still_open (c, h')) = mset (still_open (c, h))
   \<and> list_all (backed cfg p {c} s') fs \<and> list_all (posed_by c) qs)"

lemma plan_asks: "plan_observation pl = Some obs \<Longrightarrow> asks pl = None \<or> asks pl = Some obs"
  by (cases pl) auto

lemma no_entries:
  "sh_asked s' = sh_asked s \<Longrightarrow> tp_forwarded (sh_proxy s') = tp_forwarded (sh_proxy s) \<Longrightarrow>
     px_seen (sh_proxy s') = px_seen (sh_proxy s) \<Longrightarrow> px_closed (sh_proxy s') = px_closed (sh_proxy s) \<Longrightarrow>
     mset (unsent (c, h')) \<subseteq># mset (unsent (c, h)) \<Longrightarrow> mset (unasked (c, h')) \<subseteq># mset (unasked (c, h)) \<Longrightarrow>
     still_open (c, h') = still_open (c, h) \<Longrightarrow> entries cfg p c (h, s) (h', s') [] [] [] []"
  by (simp add: entries_def)

lemma handler_entries:
  assumes "handler_step cfg p c (h, s) (h', s')" "handler_ok p s (c, h)"
  shows "\<exists>fs qs obs cl. entries cfg p c (h, s) (h', s') fs qs obs cl"
  using assms(1)
proof cases
  case (reads pl x)
  then have "entries cfg p c (h, s) (h', s') [] [] [] []"
    using prepare_frame [OF reads(4)] by (auto intro!: no_entries)
  then show ?thesis by blast
next
  case (seen pl obs r x)
  then have "entries cfg p c (h, s) (h', s') [] [] [obs] []"
    using plan_asks [OF seen(4)] by (auto simp: entries_def add_seen_def py_simps)
  then show ?thesis by blast
next
  case (told pl obs r x)
  then have "entries cfg p c (h, s) (h', s') [] [] [] []"
    using call_observer_returns [of obs "sh_proxy s"] by (auto intro!: no_entries)
  then show ?thesis by blast
next
  case (asked pl obs)
  moreover have "posed_by c (tc_stamp c, obs)" using asked assms(2) by (auto simp: posed_by_def)
  ultimately have "entries cfg p c (h, s) (h', s') [] [(tc_stamp c, obs)] [] []" by (simp add: entries_def)
  then show ?thesis by blast
next
  case (sent rest obs head r x k)
  have pl: "planned c (Request obs head rest)" using assms(2) sent(1) by simp
  have k: "k < length (sh_asked s)" "snd (sh_asked s ! k) = obs" "gate_permits p obs" "sh_reports s ! k = Finished None"
    using assms(2) sent(1) by (auto simp: question_at_def)
  from forward_faithful [OF sent(4) pl]
  have "entries cfg p c (h, s) (h', s') [] [] [] [] \<or> (\<exists>f. entries cfg p c (h, s) (h', s') [f] [] [] [])"
    using sent(1-3) k by (auto simp: entries_def backed_def)
  then show ?thesis by blast
next
  case (noted e r x)
  then have "entries cfg p c (h, s) (h', s') [] [] [] []" by (auto intro!: no_entries simp: add_error_def py_simps)
  then show ?thesis by blast
next
  case (closed r x)
  then have "entries cfg p c (h, s) (h', s') [] [] [] [tc_sock c]"
    by (auto simp: entries_def close_sock_def py_simps split: option.splits if_splits)
  then show ?thesis by blast
qed (auto intro!: exI [of _ "[]"] no_entries split: option.split)

definition ledger ::
  "(('k, 'b) supervisor, stamp) term_config \<Rightarrow> policy \<Rightarrow> ('w, ('k, 'b) supervisor, 'h) term_proxy \<Rightarrow>
   (stamp tconn \<times> hpc) list \<Rightarrow> ('w, 'k, 'b, 'h) shared \<Rightarrow> forwarding list \<Rightarrow> intercepted_connection list \<Rightarrow> sock list \<Rightarrow> bool" where
  "ledger cfg p x0 hs s fs obs cl \<longleftrightarrow>
     tp_forwarded (sh_proxy s) = tp_forwarded x0 @ fs \<and> px_seen (sh_proxy s) = px_seen x0 @ obs
   \<and> px_closed (sh_proxy s) = px_closed x0 @ cl
   \<and> mset (map fw_conn fs) + mset (concat (map unsent hs)) \<subseteq># mset (map snd (sh_asked s))
   \<and> mset (map snd (sh_asked s)) + mset (concat (map unasked hs)) \<subseteq># mset obs
   \<and> mset cl + mset (concat (map still_open hs)) = mset (map (tc_sock \<circ> fst) hs)
   \<and> list_all (backed cfg p (fst ` set hs) s) fs
   \<and> (\<forall>d \<in> set (sh_asked s). \<exists>c \<in> fst ` set hs. posed_by c d)"

lemma book_transfer:
  assumes "f' + u' \<subseteq># u + q" "t' + u = t + u'" "f + t \<subseteq># (a :: 'a multiset)"
  shows "f + f' + t' \<subseteq># a + q"
proof (rule mset_subset_eqI)
  fix x
  have "count f' x + count u' x \<le> count u x + count q x" "count t' x + count u x = count t x + count u' x"
    "count f x + count t x \<le> count a x"
    using assms by (metis count_union mset_subset_eq_count)+
  then show "count (f + f' + t') x \<le> count (a + q) x" by simp
qed

lemma ledger_handler:
  assumes led: "ledger cfg p x0 hs s fs obs cl" and i: "i < length hs" "hs ! i = (c, h)"
    and e: "entries cfg p c (h, s) (h', s') fs' qs obs' cl'" and k: "keeps s s'"
  shows "ledger cfg p x0 (hs[i := (c, h')]) s' (fs @ fs') (obs @ obs') (cl @ cl')"
proof -
  let ?hs = "hs[i := (c, h')]"
  have dom: "map fst ?hs = map fst hs" using i by (metis fst_conv list_update_id map_update)
  then have cs: "fst ` set ?hs = fst ` set hs" "map (tc_sock \<circ> fst) ?hs = map (tc_sock \<circ> fst) hs" and ci: "c \<in> fst ` set hs"
    using i by (metis list.set_map, metis map_map, metis fst_conv imageI nth_mem)
  have upd: "mset (concat (map f ?hs)) + mset (f (c, h)) = mset (concat (map f hs)) + mset (f (c, h'))" for f :: "_ \<Rightarrow> 'z list"
    using concat_update [OF i(1), of f "(c, h')"] i(2) by simp
  note E = e [unfolded entries_def prod.case] and L = led [unfolded ledger_def]
  have "mset (map fw_conn fs) + mset (map fw_conn fs') + mset (concat (map unsent ?hs))
      \<subseteq># mset (map snd (sh_asked s)) + mset (map snd qs)"
    by (rule book_transfer [where u = "mset (unsent (c, h))" and u' = "mset (unsent (c, h'))"
          and t = "mset (concat (map unsent hs))"]) (use E L upd in simp_all)
  moreover have "mset (map snd (sh_asked s)) + mset (map snd qs) + mset (concat (map unasked ?hs)) \<subseteq># mset obs + mset obs'"
    by (rule book_transfer [where u = "mset (unasked (c, h))" and u' = "mset (unasked (c, h'))"
          and t = "mset (concat (map unasked hs))"]) (use E L upd in simp_all)
  moreover have "mset cl + mset cl' + mset (concat (map still_open ?hs)) = mset (map (tc_sock \<circ> fst) hs)"
    by (rule mset_transfer [where a = "mset cl" and p = "mset (still_open (c, h'))" and q = "mset (still_open (c, h))"
          and c = "mset (concat (map still_open hs))"]) (use E L upd [of still_open] in \<open>simp_all add: add.assoc\<close>)
  moreover have "list_all (backed cfg p (fst ` set hs) s') (fs @ fs')"
    using E L k ci backed_mono [of cfg p _ s _ s'] backed_mono [of cfg p "{c}" s' _ s' "fst ` set hs"]
    by (auto simp: list_all_iff keeps_def)
  moreover have "\<exists>c \<in> fst ` set hs. posed_by c d" if "d \<in> set (sh_asked s @ qs)" for d
    using that E L ci by (auto simp: list_all_iff)
  ultimately show ?thesis using E L unfolding ledger_def cs by simp
qed

lemma ledger_same:
  "ledger cfg p x0 hs s fs obs cl \<Longrightarrow> keeps s s' \<Longrightarrow> sh_asked s' = sh_asked s \<Longrightarrow>
     tp_forwarded (sh_proxy s') = tp_forwarded (sh_proxy s) \<Longrightarrow> px_seen (sh_proxy s') = px_seen (sh_proxy s) \<Longrightarrow>
     px_closed (sh_proxy s') = px_closed (sh_proxy s) \<Longrightarrow> ledger cfg p x0 hs s' fs obs cl"
  using backed_mono [of cfg p "fst ` set hs" s _ s'] by (auto simp: ledger_def list_all_iff)

lemma ledger_accept:
  "ledger cfg p x0 hs s fs obs cl \<Longrightarrow>
     ledger cfg p x0 (hs @ [(c, Fresh)]) (s\<lparr>sh_proxy := (sh_proxy s)\<lparr>tp_handlers := n\<rparr>\<rparr>) fs obs cl"
proof -
  assume led: "ledger cfg p x0 hs s fs obs cl"
  have "keeps s (s\<lparr>sh_proxy := (sh_proxy s)\<lparr>tp_handlers := n\<rparr>\<rparr>)" by (simp add: keeps_def)
  then have "backed cfg p (insert c (fst ` set hs)) (s\<lparr>sh_proxy := (sh_proxy s)\<lparr>tp_handlers := n\<rparr>\<rparr>) f" if "f \<in> set fs" for f
    using led that by (auto simp: ledger_def list_all_iff intro: backed_mono)
  then show ?thesis using led by (auto simp: ledger_def list_all_iff)
qed

definition world_inv ::
  "(trip_event \<Rightarrow> ('k, unit) py) \<Rightarrow> 'b kill_backend \<Rightarrow> (('k, 'b) supervisor, stamp) term_config \<Rightarrow> policy \<Rightarrow>
   ('w, ('k, 'b) supervisor, 'h) term_proxy \<Rightarrow> stamp tconn accept_event list \<Rightarrow> ('w, 'k, 'b, 'h) world \<Rightarrow> bool" where
  "world_inv em B cfg p x0 evs0 w \<longleftrightarrow> (case w of (evs, hs, s) \<Rightarrow>
     reports_run em B p (tp_gate x0) s \<and> list_all (handler_ok p s) hs
   \<and> (\<exists>fs obs cl. ledger cfg p x0 hs s fs obs cl)
   \<and> map fst hs @ (if px_stop (sh_proxy s) then [] else served evs) = served evs0)"

lemma world_inv_init: "\<not> px_stop x0 \<Longrightarrow> world_inv em B cfg p x0 evs (world_init evs x0)"
  by (simp add: world_inv_def world_init_def reports_run_def start_def ledger_def)

lemma handlers_ok_step:
  assumes st: "handler_step cfg p c (h, s) (h', s')" and i: "i < length hs" "hs ! i = (c, h)"
    and len: "length (sh_reports s) = length (sh_asked s)" and ok: "list_all (handler_ok p s) hs"
  shows "list_all (handler_ok p s') (hs[i := (c, h')])"
proof -
  have "handler_ok p s (c, h)" using ok i by (metis list_all_length)
  then have "handler_ok p s' (c, h')" using handler_ok_step [OF st _ len] by blast
  then show ?thesis
    using ok handler_ok_keeps [OF handler_step_keeps [OF st len]] i(1)
    by (auto simp: list_all_length nth_list_update)
qed

lemma world_inv_step:
  assumes st: "world_step em B cfg p w w'" and inv: "world_inv em B cfg p x0 evs0 w"
  shows "world_inv em B cfg p x0 evs0 w'"
proof -
  obtain evs hs s evs' hs' s' where w: "w = (evs, hs, s)" "w' = (evs', hs', s')" by (metis prod_cases3)
  note st = st [unfolded w]
  have rr: "reports_run em B p (tp_gate x0) s" and ok: "list_all (handler_ok p s) hs"
    and sv: "map fst hs @ (if px_stop (sh_proxy s) then [] else served evs) = served evs0"
    using inv by (auto simp: world_inv_def w)
  obtain fs obs cl where led: "ledger cfg p x0 hs s fs obs cl" using inv by (auto simp: world_inv_def w)
  have len: "length (sh_reports s) = length (sh_asked s)" using rr by (simp add: reports_run_def)
  note k = world_step_keeps [OF st len]
  have ok': "list_all (handler_ok p s') hs" using ok handler_ok_keeps [OF k] by (auto simp: list_all_iff)
  have "list_all (handler_ok p s') hs' \<and> (\<exists>fs obs cl. ledger cfg p x0 hs' s' fs obs cl)
      \<and> map fst hs' @ (if px_stop (sh_proxy s') then [] else served evs') = served evs0"
    using st
  proof cases
    case (accepted c)
    then have "ledger cfg p x0 hs' s' fs obs cl" using ledger_accept [OF led] by simp
    then show ?thesis using ok' sv accepted by auto
  next
    case (handler i c h h')
    have "handler_ok p s (c, h)" using ok handler(3,4) by (metis list_all_length)
    then obtain fs' qs obs' cl' where "entries cfg p c (h, s) (h', s') fs' qs obs' cl'"
      using handler_entries [OF handler(5)] by blast
    then have "\<exists>fs obs cl. ledger cfg p x0 hs' s' fs obs cl" unfolding handler(2)
      using ledger_handler [OF led handler(3,4) _ k] by blast
    moreover have "map fst hs' = map fst hs" using handler(2-4) by (metis fst_conv list_update_id map_update)
    ultimately show ?thesis
      using handlers_ok_step [OF handler(5,3,4) len ok] handler(1,2) handler_step_frame [OF handler(5)] sv
      by (cases "px_stop (sh_proxy s)") simp_all
  next
    case (report ts l g)
    then show ?thesis using ok' ledger_same [OF led k] sv by (auto split: if_splits)
  qed (use ok' ledger_same [OF led k] sv in \<open>auto split: if_splits\<close>)
  then show ?thesis using reports_run_step [OF st rr] by (simp add: world_inv_def w)
qed

lemma world_inv_reachable:
  assumes "(world_step em B cfg p)\<^sup>*\<^sup>* (world_init evs x0) w" "\<not> px_stop x0"
  shows "world_inv em B cfg p x0 evs w"
  using assms by (induction rule: rtranclp_induct) (auto intro: world_inv_init world_inv_step)

section \<open>Every forwarding is a recorded decision\<close>

lemma served_handlers:
  assumes "world_inv em B cfg p x0 evs0 (evs, hs, s)" shows "fst ` set hs \<subseteq> set (served evs0)"
proof -
  have "map fst hs @ (if px_stop (sh_proxy s) then [] else served evs) = served evs0" using assms by (simp add: world_inv_def)
  from this [symmetric] show ?thesis by auto
qed

lemma questions_recordable:
  assumes inv: "world_inv em B cfg p x0 evs0 (evs, hs, s)" and ord: "list_all (ordinary_conn fr fp) (served evs0)"
  shows "list_all (event_ok fr fp) (decision_events p (sh_asked s))"
proof -
  have "event_ok fr fp (decision_event p t obs)" if d: "(t, obs) \<in> set (sh_asked s)" for t obs
  proof -
    obtain c pl where c: "c \<in> fst ` set hs" "t = tc_stamp c" "planned c pl" "asks pl = Some obs"
      using inv d by (fastforce simp: world_inv_def ledger_def posed_by_def)
    then have oc: "ordinary_conn fr fp c" using served_handlers [OF inv] ord by (auto simp: list_all_iff)
    then have "short_endpoint c"
      using endpoint_short by (auto simp: short_endpoint_def split: sum.splits prod.splits)
    then show ?thesis
      using planned_observation [OF c(3) _ c(4)] observation_recordable [OF oc] decision_event_ok c(2) by simp
  qed
  then show ?thesis by (auto simp: list_all_iff)
qed

text \<open>
  What the invariant gives on a total backend with a durable record: the reports are in
  Concurrency's invariant.
\<close>

lemma world_inv_reports:
  fixes x0 :: "('w, ('k sink, 'b \<times> kill_call list) supervisor, 'h) term_proxy"
  assumes "total_backend B ok" "tp_gate x0 = supervisor_init (g, []) k run (Some creds)"
    and "durable fp k" "ok g" "list_all (ordinary_conn fr fp) (served evs)"
    and inv: "world_inv (emit fr) (logging B) cfg p x0 evs (evs', hs, s)"
  obtains fs obs cl g' r where "ledger cfg p x0 hs s fs obs cl" "list_all (handler_ok p s) hs" "kr_run_id r = run"
    "all_inv (durable fp) (durable_record fp) k (decision_events p (sh_asked s)) run creds (g, []) (g', kill_plan B run creds) r
       (sh_reports s, sh_lock s, tp_gate (sh_proxy s))"
    "fst ` set hs \<subseteq> set (served evs)" "map fst hs @ (if px_stop (sh_proxy s) then [] else served evs') = served evs"
    "length (sh_reports s) = length (sh_asked s)"
proof -
  have "(sys_step (emit fr) (logging B))\<^sup>*\<^sup>*
      (start (decision_events p (sh_asked s)) (supervisor_init (g, []) k run (Some creds)))
      (sh_reports s, sh_lock s, tp_gate (sh_proxy s))"
    using assms(2) inv by (simp add: world_inv_def reports_run_def)
  from concurrent_inv [OF assms(1,3) questions_recordable [OF inv assms(5)] assms(4) this]
  show ?thesis using that inv served_handlers [OF inv] by (auto simp: world_inv_def reports_run_def)
qed

lemma finished_recorded:
  assumes "all_inv good record_of k0 es run creds b0 b1 r (ts, l, g)" "i < length es" "ts ! i = Finished q"
  shows "es ! i \<in> set (record_of (sup_sink g))"
  using assms by (auto simp: all_inv_def record_inv_def thread_ok_def)

lemma backed_recorded:
  assumes "backed cfg p cs s f"
    and "all_inv good record_of k0 (decision_events p (sh_asked s)) run creds b0 b1 r (sh_reports s, sh_lock s, g)"
  shows "\<exists>t. decision_event p t (fw_conn f) \<in> set (record_of (sup_sink g))"
proof -
  obtain i where i: "i < length (sh_asked s)" "snd (sh_asked s ! i) = fw_conn f" "sh_reports s ! i = Finished None"
    using assms(1) unfolding backed_def by blast
  then have "decision_events p (sh_asked s) ! i = decision_event p (fst (sh_asked s ! i)) (fw_conn f)"
    by (simp add: case_prod_beta)
  then show ?thesis using finished_recorded [OF assms(2) _ i(3)] i(1) by auto
qed

lemma permitted_only:
  assumes "m \<subseteq># mset xs" "\<forall>x \<in># m. P x"
  shows "m \<subseteq># mset (filter P xs)"
  using multiset_filter_mono [OF assms(1), of P] assms(2) by (simp add: filter_mset_eq_conv mset_filter) (metis filter_mset_True filter_mset_cong)

text \<open>On any backend; the theorem below is its instance on gVisor.\<close>

lemma forward_recorded:
  fixes x0 :: "('w, ('k sink, 'b \<times> kill_call list) supervisor, 'h) term_proxy"
  assumes "total_backend B ok" "tp_gate x0 = supervisor_init (g, []) k run (Some creds)" "\<not> px_stop x0"
    and "durable fp k" "ok g" "list_all (ordinary_conn fr fp) (served evs)"
    and "(world_step (emit fr) (logging B) cfg p)\<^sup>*\<^sup>* (world_init evs x0) (evs', hs, s)"
  shows "\<exists>fs obs. tp_forwarded (sh_proxy s) = tp_forwarded x0 @ fs \<and> px_seen (sh_proxy s) = px_seen x0 @ obs
    \<and> mset (map snd (sh_asked s)) \<subseteq># mset obs
    \<and> mset (map fw_conn fs) \<subseteq># mset (filter (gate_permits p) (map snd (sh_asked s)))
    \<and> list_all (\<lambda>f. (\<exists>c \<in> set (served evs). faithful cfg c f)
        \<and> (\<exists>t. decision_event p t (fw_conn f) \<in> set (durable_record fp (sup_sink (tp_gate (sh_proxy s)))))) fs
    \<and> snd (sup_backend (tp_gate (sh_proxy s))) \<in> {[], kill_plan B run creds}"
proof -
  obtain fs obs cl g' r where led: "ledger cfg p x0 hs s fs obs cl" and all: "all_inv (durable fp) (durable_record fp) k
        (decision_events p (sh_asked s)) run creds (g, []) (g', kill_plan B run creds) r
        (sh_reports s, sh_lock s, tp_gate (sh_proxy s))"
      and cs: "fst ` set hs \<subseteq> set (served evs)"
    using world_inv_reports [OF assms(1,2,4,5,6) world_inv_reachable [OF assms(7,3)]] by metis
  note L = led [unfolded ledger_def]
  have b: "backed cfg p (fst ` set hs) s f" if "f \<in> set fs" for f using L that by (simp add: list_all_iff)
  have "list_all (\<lambda>f. (\<exists>c \<in> set (served evs). faithful cfg c f)
        \<and> (\<exists>t. decision_event p t (fw_conn f) \<in> set (durable_record fp (sup_sink (tp_gate (sh_proxy s)))))) fs"
    using b cs backed_recorded [OF b all] unfolding list_all_iff backed_def by blast
  moreover have F: "mset (map fw_conn fs) \<subseteq># mset (map snd (sh_asked s))" and "mset (map snd (sh_asked s)) \<subseteq># mset obs"
    using L by (meson mset_subset_eq_add_left subset_mset.order_trans)+
  moreover have "mset (map fw_conn fs) \<subseteq># mset (filter (gate_permits p) (map snd (sh_asked s)))"
    by (rule permitted_only [OF F]) (use b in \<open>auto simp: backed_def\<close>)
  moreover have "snd (sup_backend (tp_gate (sh_proxy s))) \<in> {[], kill_plan B run creds}"
    using all_invD(1) [OF all] by auto
  ultimately show ?thesis using L by blast
qed

text \<open>
  C1. However the accept loop, the handlers and their reports interleave, at every moment:
  each forwarding was permitted by the policy, is faithful to an accepted connection (it
  carries that connection's bytes only: theory Terminate), has its decision in the durable
  record, and no decision paid for two forwardings; everything asked had been observed; the
  backend was called for one whole kill or for none.
\<close>
theorem handlers_forward_recorded:
  fixes x0 :: "('w, ('k sink, 'b gvisor \<times> kill_call list) supervisor, 'h) term_proxy"
  assumes "tp_gate x0 = supervisor_init (g, []) k run (Some creds)" "\<not> px_stop x0"
    and "durable fp k" "gvisor_total g" "list_all (ordinary_conn fr fp) (served evs)"
    and "(world_step (emit fr) (logging gvisor_backend) cfg p)\<^sup>*\<^sup>* (world_init evs x0) (evs', hs, s)"
  shows "\<exists>fs obs. tp_forwarded (sh_proxy s) = tp_forwarded x0 @ fs \<and> px_seen (sh_proxy s) = px_seen x0 @ obs
    \<and> mset (map snd (sh_asked s)) \<subseteq># mset obs
    \<and> mset (map fw_conn fs) \<subseteq># mset (filter (gate_permits p) (map snd (sh_asked s)))
    \<and> list_all (\<lambda>f. (\<exists>c \<in> set (served evs). faithful cfg c f)
        \<and> (\<exists>t. decision_event p t (fw_conn f) \<in> set (durable_record fp (sup_sink (tp_gate (sh_proxy s)))))) fs
    \<and> snd (sup_backend (tp_gate (sh_proxy s))) \<in> {[], gvisor_plan run creds}"
  using forward_recorded [OF gvisor.total_backend_axioms assms] unfolding program_plans .

text \<open>The same on Firecracker.\<close>

theorem firecracker_forward_recorded:
  fixes x0 :: "('w, ('k sink, 'b firecracker \<times> kill_call list) supervisor, 'h) term_proxy"
  assumes "tp_gate x0 = supervisor_init (g, []) k run (Some creds)" "\<not> px_stop x0"
    and "durable fp k" "firecracker_total g" "list_all (ordinary_conn fr fp) (served evs)"
    and "(world_step (emit fr) (logging firecracker_backend) cfg p)\<^sup>*\<^sup>* (world_init evs x0) (evs', hs, s)"
  shows "\<exists>fs obs. tp_forwarded (sh_proxy s) = tp_forwarded x0 @ fs \<and> px_seen (sh_proxy s) = px_seen x0 @ obs
    \<and> mset (map snd (sh_asked s)) \<subseteq># mset obs
    \<and> mset (map fw_conn fs) \<subseteq># mset (filter (gate_permits p) (map snd (sh_asked s)))
    \<and> list_all (\<lambda>f. (\<exists>c \<in> set (served evs). faithful cfg c f)
        \<and> (\<exists>t. decision_event p t (fw_conn f) \<in> set (durable_record fp (sup_sink (tp_gate (sh_proxy s)))))) fs
    \<and> snd (sup_backend (tp_gate (sh_proxy s))) \<in> {[], firecracker_plan run creds}"
  using forward_recorded [OF firecracker.total_backend_axioms assms] unfolding program_plans .

end
