(* ===== verification/Schedules.thy ===== *)
theory Schedules
  imports Handlers
begin

text \<open>
  The schedules of the threaded proxy: the sequential model is one of them, all of them end,
  and where they end every connection is closed and every decision recorded.
\<close>

section \<open>The sequential schedule\<close>

lemma at_handler:
  "i < length hs \<Longrightarrow> handler_step cfg p c (h, s) (h', s') \<Longrightarrow>
     world_step em B cfg p (evs, hs[i := (c, h)], s) (evs, hs[i := (c, h')], s')"
  using handler [of i "hs[i := (c, h)]" c h cfg p s h' s' em B evs] by simp

lemma reports_lift:
  assumes "(sys_step em B)\<^sup>*\<^sup>* (sh_reports s, sh_lock s, tp_gate (sh_proxy s)) y"
  shows "case y of (ts, l, g) \<Rightarrow> (world_step em B cfg p)\<^sup>*\<^sup>* (evs, hs, s)
     (evs, hs, s\<lparr>sh_reports := ts, sh_lock := l, sh_proxy := (sh_proxy s)\<lparr>tp_gate := g\<rparr>\<rparr>)"
  using assms
proof (induction rule: rtranclp_induct)
  case (step y z)
  obtain ts l g ts' l' g' where y: "y = (ts, l, g)" "z = (ts', l', g')" by (metis prod_cases3)
  let ?s = "s\<lparr>sh_reports := ts, sh_lock := l, sh_proxy := (sh_proxy s)\<lparr>tp_gate := g\<rparr>\<rparr>"
  have "world_step em B cfg p (evs, hs, ?s)
      (evs, hs, s\<lparr>sh_reports := ts', sh_lock := l', sh_proxy := (sh_proxy s)\<lparr>tp_gate := g'\<rparr>\<rparr>)"
    using report [of em B ?s ts' l' g' cfg p evs hs] step.hyps(2) y by simp
  then show ?case using step.IH y by auto
qed simp

lemma two_at_handler:
  assumes "i < length hs" "handler_step cfg p c (h, s) (h1, s1)" "handler_step cfg p c (h1, s1) (h2, s2)"
  shows "(world_step em B cfg p)\<^sup>*\<^sup>* (evs, hs[i := (c, h)], s) (evs, hs[i := (c, h2)], s2)"
  using at_handler [OF assms(1,2)] at_handler [OF assms(1,3)]
  by (meson converse_rtranclp_into_rtranclp r_into_rtranclp)

text \<open>A question asked while no report is running is answered by \<^verbatim>\<open>decide\<close>.\<close>

lemma asked_alone:
  assumes "i < length hs" "sh_lock s = None" "asks pl = Some obs"
    and r: "report em B (decision_event p (tc_stamp c) obs) (tp_gate (sh_proxy s)) = (r, g)"
  shows "\<exists>qs ts k. (world_step em B cfg p)\<^sup>*\<^sup>* (evs, hs[i := (c, Told pl)], s)
     (evs, hs[i := (c, Asking pl k)], s\<lparr>sh_asked := qs, sh_reports := ts, sh_proxy := (sh_proxy s)\<lparr>tp_gate := g\<rparr>\<rparr>)
     \<and> ts ! k = Finished (raised r)"
proof -
  let ?e = "decision_event p (tc_stamp c) obs" and ?k = "length (sh_reports s)"
  let ?s = "s\<lparr>sh_asked := sh_asked s @ [(tc_stamp c, obs)], sh_reports := sh_reports s @ [Entered ?e]\<rparr>"
  have 1: "world_step em B cfg p (evs, hs[i := (c, Told pl)], s) (evs, hs[i := (c, Asking pl ?k)], ?s)"
    by (intro at_handler asked assms)
  have "(sys_step em B)\<^sup>*\<^sup>* (sh_reports ?s, sh_lock ?s, tp_gate (sh_proxy ?s))
      ((sh_reports s @ [Entered ?e])[?k := Finished (raised r)], None, g)"
    using thread_runs_report [of ?k "sh_reports s @ [Entered ?e]" ?e em B "tp_gate (sh_proxy s)"] assms(2) r by simp
  from reports_lift [OF this, of cfg p evs "hs[i := (c, Asking pl ?k)]"]
  have "(world_step em B cfg p)\<^sup>*\<^sup>* (evs, hs[i := (c, Asking pl ?k)], ?s)
      (evs, hs[i := (c, Asking pl ?k)], s\<lparr>sh_asked := sh_asked s @ [(tc_stamp c, obs)],
         sh_reports := sh_reports s @ [Finished (raised r)], sh_proxy := (sh_proxy s)\<lparr>tp_gate := g\<rparr>\<rparr>)"
    using assms(2) by (cases s) simp
  then show ?thesis using 1
    by (intro exI [of _ "sh_asked s @ [(tc_stamp c, obs)]"] exI [of _ "sh_reports s @ [Finished (raised r)]"] exI [of _ ?k])
      (auto intro: converse_rtranclp_into_rtranclp)
qed

definition permitted_part ::
  "('s, 't) term_config \<Rightarrow> policy \<Rightarrow> 't tconn \<Rightarrow> plan \<Rightarrow> (('w, 's, 'h) term_proxy, unit) py" where
  "permitted_part cfg p c pl =
     (case pl of
        Request obs head rest \<Rightarrow> if gate_permits p obs then forward cfg c rest obs head else py_return ()
      | _ \<Rightarrow> py_return ())"

lemma answered_alone:
  assumes i: "i < length hs" and k: "sh_reports s ! k = Finished (raised q)"
    and run: "(case q of Inl e \<Rightarrow> (Inl e, sh_proxy s) | Inr _ \<Rightarrow> permitted_part cfg p c pl (sh_proxy s)) = (r, x)"
  shows "(world_step em B cfg p)\<^sup>*\<^sup>* (evs, hs[i := (c, Asking pl k)], s)
     (evs, hs[i := (c, Ending (raised r))], s\<lparr>sh_proxy := x\<rparr>)"
proof (cases "isl q \<or> \<not> forwards p pl")
  case True
  then have "handler_step cfg p c (Asking pl k, s) (Ending (raised r), s\<lparr>sh_proxy := x\<rparr>)"
    using k run failed [of s k _ cfg p c pl] dropped [of s k p pl cfg c]
    by (cases q; cases pl) (auto simp: raised_def permitted_part_def py_simps split: if_splits)
  then show ?thesis using at_handler [OF i] by blast
next
  case False
  then obtain obs head rest u where pl: "pl = Request obs head rest" "forwards p pl" "q = Inr u" by (cases q; cases pl) auto
  then have "forward cfg c rest obs head (sh_proxy s) = (r, x)" using run by (simp add: permitted_part_def)
  then show ?thesis
    using two_at_handler [OF i allowed [OF _ pl(2) [unfolded pl(1)]] sent] k pl by (simp add: raised_def)
qed

lemma ends_alone:
  assumes i: "i < length hs" and h: "handle (tc_sock c) y = (r, sh_proxy s)"
  shows "(world_step em B cfg p)\<^sup>*\<^sup>* (evs, hs[i := (c, Ending (raised r))], s)
     (evs, hs[i := (c, Done)], s\<lparr>sh_proxy := snd (dispatch handle (tc_sock c) y)\<rparr>)"
proof -
  obtain q x where q: "py_except is_Exception (handle (tc_sock c)) add_error y = (q, x)" by fastforce
  obtain q' x' where q': "close_sock (tc_sock c) x = (q', x')" by fastforce
  have 1: "handler_step cfg p c (Ending (raised r), s) (Closing, s\<lparr>sh_proxy := x\<rparr>)"
  proof (cases "\<exists>e. r = Inl e \<and> is_Exception e")
    case True
    then obtain e where e: "r = Inl e" "is_Exception e" by blast
    then have "add_error e (sh_proxy s) = (q, x)" using q h by (simp add: py_except_run)
    then show ?thesis using noted [OF e(2), of s q x cfg p c] e(1) by (simp add: raised_def)
  next
    case False
    then have "x = sh_proxy s" using q h by (cases r) (simp_all add: py_except_run)
    then show ?thesis using passed [of "raised r" cfg p c s] False by (cases r) (simp_all add: raised_def)
  qed
  have "handler_step cfg p c (Closing, s\<lparr>sh_proxy := x\<rparr>) (Done, s\<lparr>sh_proxy := x'\<rparr>)"
    using closed [of c "s\<lparr>sh_proxy := x\<rparr>" q' x' cfg p] q' by simp
  then have "(world_step em B cfg p)\<^sup>*\<^sup>* (evs, hs[i := (c, Ending (raised r))], s) (evs, hs[i := (c, Done)], s\<lparr>sh_proxy := x'\<rparr>)"
    by (rule two_at_handler [OF i 1])
  moreover have "snd (dispatch handle (tc_sock c) y) = x'"
    using q q' by (cases q') (simp_all add: dispatch_def py_finally_run)
  ultimately show ?thesis by simp
qed

lemma carried_alone:
  assumes i: "i < length hs" and l: "sh_lock s = None" and d: "tx_decide cfg = decide em B p"
    and run: "carry_out cfg c pl (sh_proxy s) = (r, x)"
  shows "\<exists>qs ts. (world_step em B cfg p)\<^sup>*\<^sup>* (evs, hs[i := (c, Planned pl)], s)
     (evs, hs[i := (c, Ending (raised r))], s\<lparr>sh_asked := qs, sh_reports := ts, sh_proxy := x\<rparr>)"
proof (cases "plan_observation pl")
  case None
  then obtain e where "pl = Unreadable e" by (cases pl) auto
  then show ?thesis using run at_handler [OF i unreadable [of cfg p c e s], of em B evs]
    by (intro exI [of _ "sh_asked s"] exI [of _ "sh_reports s"]) (auto simp: carry_out_def py_simps raised_def)
next
  case (Some obs)
  obtain x2 where n: "notify obs (sh_proxy s) = (Inr (), x2)" using notify_returns [of obs "sh_proxy s"] by blast
  obtain x1 where x1: "add_seen obs (sh_proxy s) = (Inr (), x1)" "call_observer obs x1 = (Inr (), x2)"
    using n by (simp add: notify_def add_seen_def py_simps)
  have g: "tp_gate x2 = tp_gate (sh_proxy s)" using term_proxy_frame [OF n] by simp
  have 1: "(world_step em B cfg p)\<^sup>*\<^sup>* (evs, hs[i := (c, Planned pl)], s) (evs, hs[i := (c, Told pl)], s\<lparr>sh_proxy := x2\<rparr>)"
    using two_at_handler [OF i seen [OF Some x1(1)] told [OF Some, of _ "Inr ()" x2]] x1(2) by simp
  show ?thesis
  proof (cases "asks pl")
    case None
    then have "r = Inr () \<and> x = x2" using run Some n by (cases pl) (auto simp: carry_out_def)
    then show ?thesis
      using 1 at_handler [OF i silent [OF None, of cfg p c "s\<lparr>sh_proxy := x2\<rparr>"], of em B evs]
      by (intro exI [of _ "sh_asked s"] exI [of _ "sh_reports s"])
        (auto simp: raised_def intro: rtranclp.rtrancl_into_rtrancl)
  next
    case (Some obs')
    then have o: "obs' = obs" using \<open>plan_observation pl = Some obs\<close> by (cases pl) auto
    let ?e = "decision_event p (tc_stamp c) obs"
    obtain q g' where q: "report em B ?e (tp_gate x2) = (q, g')" by fastforce
    have a: "ask cfg c obs x2 = (case q of Inl e \<Rightarrow> Inl e | Inr _ \<Rightarrow> Inr (gate_permits p obs), x2\<lparr>tp_gate := g'\<rparr>)"
      using q by (cases q) (simp_all add: ask_def d decide_eq py_simps)
    obtain qs ts k where k: "(world_step em B cfg p)\<^sup>*\<^sup>* (evs, hs[i := (c, Told pl)], s\<lparr>sh_proxy := x2\<rparr>)
        (evs, hs[i := (c, Asking pl k)], s\<lparr>sh_asked := qs, sh_reports := ts, sh_proxy := x2\<lparr>tp_gate := g'\<rparr>\<rparr>)"
        "ts ! k = Finished (raised q)"
      using asked_alone [OF i, of "s\<lparr>sh_proxy := x2\<rparr>" pl obs em B p c q g' cfg evs] l Some o q by auto
    let ?s = "s\<lparr>sh_asked := qs, sh_reports := ts, sh_proxy := x2\<lparr>tp_gate := g'\<rparr>\<rparr>"
    have "(case q of Inl e \<Rightarrow> (Inl e, sh_proxy ?s) | Inr _ \<Rightarrow> permitted_part cfg p c pl (sh_proxy ?s)) = (r, x)"
      using run Some n a o by (cases pl; cases q) (auto simp: carry_out_def py_simps permitted_part_def)
    from answered_alone [OF i _ this, of k em B evs]
    have "(world_step em B cfg p)\<^sup>*\<^sup>* (evs, hs[i := (c, Asking pl k)], ?s)
        (evs, hs[i := (c, Ending (raised r))], s\<lparr>sh_asked := qs, sh_reports := ts, sh_proxy := x\<rparr>)"
      using k(2) by simp
    then show ?thesis using rtranclp_trans [OF 1 rtranclp_trans [OF k(1)]] by blast
  qed
qed

lemma run_handler_stop: "px_stop (snd (run_handler cfg c s)) = px_stop s"
proof -
  obtain pl s1 where p: "prepare cfg c s = (pl, s1)" by fastforce
  obtain s2 where n: "\<And>obs. plan_observation pl = Some obs \<Longrightarrow> notify obs s1 = (Inr (), s2)"
    using notify_returns [of _ s1] by (cases "plan_observation pl") auto
  obtain r s' where c: "carry_out cfg c pl s1 = (r, s')" by fastforce
  have "px_stop s' = px_stop s1"
  proof (cases pl)
    case (Request obs head rest)
    then have n: "notify obs s1 = (Inr (), s2)" using n by simp
    obtain q g where a: "ask cfg c obs s2 = (q, s2\<lparr>tp_gate := g\<rparr>)" by (simp add: ask_frame)
    have "s' = s2\<lparr>tp_gate := g\<rparr> \<or> forward cfg c rest obs head (s2\<lparr>tp_gate := g\<rparr>) = (r, s')"
      using c Request n a by (cases q) (auto simp: carry_out_def py_simps split: if_splits)
    then show ?thesis using forward_frame [of cfg c rest obs head "s2\<lparr>tp_gate := g\<rparr>" r s'] term_proxy_frame [OF n] by auto
  qed (use c n term_proxy_frame [of _ s1 s2] in
      \<open>auto simp: carry_out_def py_simps ask_frame split: sum.splits\<close>)
  moreover have "term_handle cfg c s = (r, s')" using p c by (simp add: term_handle_plan)
  ultimately show ?thesis
    using dispatch_frame [of "\<lambda>_. term_handle cfg c" "tc_sock c" s r s'] prepare_frame [OF p] by (auto simp: run_handler_def)
qed

lemma handled_alone:
  assumes i: "i < length hs" and l: "sh_lock s = None" and d: "tx_decide cfg = decide em B p"
  shows "\<exists>qs ts. (world_step em B cfg p)\<^sup>*\<^sup>* (evs, hs[i := (c, Fresh)], s)
     (evs, hs[i := (c, Done)], s\<lparr>sh_asked := qs, sh_reports := ts, sh_proxy := snd (run_handler cfg c (sh_proxy s))\<rparr>)"
proof -
  obtain pl x1 where p: "prepare cfg c (sh_proxy s) = (pl, x1)" by fastforce
  obtain r x where c: "carry_out cfg c pl x1 = (r, x)" by fastforce
  have h: "term_handle cfg c (sh_proxy s) = (r, x)" using p c by (simp add: term_handle_plan)
  have 1: "world_step em B cfg p (evs, hs[i := (c, Fresh)], s) (evs, hs[i := (c, Planned pl)], s\<lparr>sh_proxy := x1\<rparr>)"
    by (intro at_handler i reads p)
  obtain qs ts where 2: "(world_step em B cfg p)\<^sup>*\<^sup>* (evs, hs[i := (c, Planned pl)], s\<lparr>sh_proxy := x1\<rparr>)
      (evs, hs[i := (c, Ending (raised r))], s\<lparr>sh_asked := qs, sh_reports := ts, sh_proxy := x\<rparr>)"
    using carried_alone [OF i _ d, of "s\<lparr>sh_proxy := x1\<rparr>" c pl r x evs] l c by auto
  let ?s = "s\<lparr>sh_asked := qs, sh_reports := ts, sh_proxy := x\<rparr>"
  have "(world_step em B cfg p)\<^sup>*\<^sup>* (evs, hs[i := (c, Ending (raised r))], ?s)
      (evs, hs[i := (c, Done)], ?s\<lparr>sh_proxy := snd (run_handler cfg c (sh_proxy s))\<rparr>)"
    unfolding run_handler_def using ends_alone [OF i, of "\<lambda>_. term_handle cfg c" c "sh_proxy s" r ?s] h by simp
  from rtranclp_trans [OF converse_rtranclp_into_rtranclp [OF 1 2] this] show ?thesis by auto
qed

lemma serve_alone:
  assumes d: "tx_decide cfg = decide em B p"
  shows "sh_lock s = None \<Longrightarrow> \<exists>s'. (world_step em B cfg p)\<^sup>*\<^sup>* (evs, hs, s)
     ([], hs @ (if px_stop (sh_proxy s) then [] else map (\<lambda>c. (c, Done)) (served evs)), s')
     \<and> sh_proxy s' = serve (term_dispatch cfg) evs (sh_proxy s) \<and> sh_lock s' = None"
proof (induction evs arbitrary: hs s)
  case Nil
  then show ?case by (intro exI [of _ s]) simp
next
  case (Cons ev evs)
  show ?case
  proof (cases "px_stop (sh_proxy s)")
    case True
    then show ?thesis using loop_ends [OF True, of em B cfg p ev evs hs] Cons.prems by (intro exI [of _ s]) auto
  next
    case False
    show ?thesis
    proof (cases ev)
      case StopSet
      let ?s = "s\<lparr>sh_proxy := (sh_proxy s)\<lparr>px_stop := True\<rparr>\<rparr>"
      show ?thesis using Cons.IH [of ?s hs] stop_called [OF False, of em B cfg p evs hs] StopSet False Cons.prems
        by (auto intro: converse_rtranclp_into_rtranclp)
    next
      case AcceptTimeout
      then show ?thesis using Cons.IH [of s hs] accept_timeout [OF False, of em B cfg p evs hs] False Cons.prems
        by (auto intro: converse_rtranclp_into_rtranclp)
    next
      case AcceptError
      then show ?thesis using accept_error [OF False, of em B cfg p evs hs] False Cons.prems by (intro exI [of _ s]) auto
    next
      case (Accepted c)
      let ?x = "(sh_proxy s)\<lparr>tp_handlers := tp_handlers (sh_proxy s) + 1\<rparr>"
      have 1: "world_step em B cfg p (ev # evs, hs, s) (evs, hs @ [(c, Fresh)], s\<lparr>sh_proxy := ?x\<rparr>)"
        unfolding Accepted by (rule accepted [OF False])
      obtain qs ts where 2: "(world_step em B cfg p)\<^sup>*\<^sup>* (evs, hs @ [(c, Fresh)], s\<lparr>sh_proxy := ?x\<rparr>)
          (evs, hs @ [(c, Done)], s\<lparr>sh_asked := qs, sh_reports := ts, sh_proxy := snd (run_handler cfg c ?x)\<rparr>)"
        using handled_alone [OF _ _ d, of "length hs" "hs @ [(c, Fresh)]" "s\<lparr>sh_proxy := ?x\<rparr>" evs c] Cons.prems by auto
      let ?s = "s\<lparr>sh_asked := qs, sh_reports := ts, sh_proxy := snd (run_handler cfg c ?x)\<rparr>"
      have t: "term_dispatch cfg c (sh_proxy s) = (Inr (), sh_proxy ?s)" by (simp add: term_dispatch_def)
      have st: "\<not> px_stop (sh_proxy ?s)" using False by (simp add: run_handler_stop)
      obtain s' where "(world_step em B cfg p)\<^sup>*\<^sup>* (evs, hs @ [(c, Done)], ?s)
          ([], (hs @ [(c, Done)]) @ map (\<lambda>c. (c, Done)) (served evs), s')"
          "sh_proxy s' = serve (term_dispatch cfg) evs (sh_proxy ?s)" "sh_lock s' = None"
        using Cons.IH [of ?s "hs @ [(c, Done)]"] Cons.prems st by auto
      then show ?thesis using Accepted t False rtranclp_trans [OF converse_rtranclp_into_rtranclp [OF 1 2]]
        by (intro exI [of _ s']) simp
    qed
  qed
qed

text \<open>
  C4. The sequential model refines the threads: what \<open>serve\<close> computes with each handler run
  when it is started is what the schedule reaches that runs every handler to its end before
  the next connection is accepted.
\<close>
theorem sequential_run_is_a_schedule:
  assumes "tx_decide cfg = decide em B p"
  shows "\<exists>s. (world_step em B cfg p)\<^sup>*\<^sup>* (world_init evs x)
       ([], if px_stop x then [] else map (\<lambda>c. (c, Done)) (served evs), s)
     \<and> sh_proxy s = serve (term_dispatch cfg) evs x \<and> sh_lock s = None"
  using serve_alone [OF assms, of "\<lparr>sh_asked = [], sh_reports = [], sh_lock = None, sh_proxy = x\<rparr>" evs "[]"]
  by (simp add: world_init_def)

section \<open>Every run ends, with every connection closed and every decision recorded\<close>

fun handler_rank :: "hpc \<Rightarrow> nat" where
  "handler_rank Fresh = 15"
| "handler_rank (Planned pl) = 14"
| "handler_rank (Seen pl) = 13"
| "handler_rank (Told pl) = 12"
| "handler_rank (Asking pl k) = 4"
| "handler_rank (Sending pl k) = 3"
| "handler_rank (Ending q) = 2"
| "handler_rank Closing = 1"
| "handler_rank Done = 0"

definition world_work :: "('w, 'k, 'b, 'h) world \<Rightarrow> nat" where
  "world_work w = (case w of (evs, hs, s) \<Rightarrow>
     16 * length evs + sum_list (map (handler_rank \<circ> snd) hs) + sum_list (map rank (sh_reports s)))"

lemma handler_step_work:
  "handler_step cfg p c (h, s) (h', s') \<Longrightarrow>
     handler_rank h' + sum_list (map rank (sh_reports s')) < handler_rank h + sum_list (map rank (sh_reports s))"
  by (elim handler_stepE) auto

lemma sum_update:
  "i < length xs \<Longrightarrow> sum_list (map f (xs[i := y])) + f (xs ! i) = sum_list (map f xs) + (f y :: nat)"
  by (induction xs arbitrary: i) (auto split: nat.splits)

lemma world_step_work: "world_step em B cfg p w w' \<Longrightarrow> world_work w' < world_work w"
proof (induction rule: world_step.induct)
  case (handler i hs c h s h' s' evs)
  then show ?case using handler_step_work [OF handler(3)] sum_update [OF handler(1), of "handler_rank \<circ> snd" "(c, h')"]
    by (simp add: world_work_def)
next
  case (report s ts l g evs hs)
  then show ?case using sys_step_work [OF report] by (simp add: world_work_def work_def)
qed (simp_all add: world_work_def)

interpretation threads: ending_steps "world_step em B cfg p" world_work for em B cfg p
  by unfold_locales (rule world_step_work)

lemma script_can_step:
  assumes "evs \<noteq> []"
  shows "\<exists>w. world_step em B cfg p (evs, hs, s) w"
proof -
  obtain ev evs' where e: "evs = ev # evs'" using assms by (cases evs) auto
  show ?thesis
  proof (cases "px_stop (sh_proxy s)")
    case True
    then show ?thesis unfolding e by (intro exI) (rule loop_ends)
  next
    case False
    note step = stop_called [OF False] accept_timeout [OF False] accept_error [OF False] accepted [OF False]
    show ?thesis unfolding e by (cases ev; simp only:; rule exI; rule step)
  qed
qed

lemma handler_can_step:
  assumes "handler_ok p s (c, h)" "h \<noteq> Done" "list_all (\<lambda>q. q = Finished None) (sh_reports s)"
    and "length (sh_reports s) = length (sh_asked s)"
  shows "\<exists>y. handler_step cfg p c (h, s) y"
proof -
  have fin: "sh_reports s ! k = Finished None" if "question_at s k c pl" for k pl
    using assms(3,4) that by (simp add: list_all_length question_at_def)
  show ?thesis
  proof (cases h)
    case Fresh
    then show ?thesis using reads [of cfg c s] by (metis surj_pair)
  next
    case (Planned pl)
    then show ?thesis using unreadable [of cfg p c _ s] seen [of pl _ s _ _ cfg p c]
      by (cases pl) (auto, (metis plan_observation.simps surj_pair)+)
  next
    case (Seen pl)
    then show ?thesis using assms(1) told [of pl _ s _ _ cfg p c] by auto (metis surj_pair)
  next
    case (Told pl)
    then show ?thesis using silent [of pl cfg p c s] asked [of pl _ cfg p c s] by (cases "asks pl") auto
  next
    case (Asking pl k)
    then show ?thesis using fin [of k pl] assms(1) dropped [of s k p pl cfg c] allowed [of s k p pl cfg c]
      by (cases "forwards p pl") auto
  next
    case (Sending pl k)
    then obtain obs head rest where "pl = Request obs head rest" using assms(1) by (cases pl) auto
    then show ?thesis using Sending sent [of cfg c rest obs head s _ _ p k] by (metis surj_pair)
  next
    case (Ending q)
    then show ?thesis using passed [of q cfg p c s] noted [of _ s _ _ cfg p c]
      by (cases q) (auto, metis surj_pair)
  next
    case Closing
    then show ?thesis using closed [of c s _ _ cfg p] by (metis surj_pair)
  qed (use assms(2) in simp)
qed

lemma world_stuck:
  assumes stuck: "\<nexists>w. world_step em B cfg p (evs, hs, s) w"
    and all: "all_inv good record_of k0 es run creds b0 b1 r (sh_reports s, sh_lock s, tp_gate (sh_proxy s))"
    and ok: "list_all (handler_ok p s) hs" and len: "length (sh_reports s) = length (sh_asked s)"
  shows "evs = [] \<and> sh_lock s = None \<and> list_all (\<lambda>q. q = Finished None) (sh_reports s) \<and> list_all (\<lambda>ch. snd ch = Done) hs"
proof -
  have e: "evs = []" using stuck script_can_step by blast
  have "\<nexists>c. sys_step em B (sh_reports s, sh_lock s, tp_gate (sh_proxy s)) c"
    using stuck report [of em B s] by (metis prod_cases3)
  note fin = stuck_finished [OF all this]
  have "snd (hs ! i) = Done" if i: "i < length hs" for i
  proof (rule ccontr)
    assume n: "snd (hs ! i) \<noteq> Done"
    obtain c h where ch: "hs ! i = (c, h)" by (cases "hs ! i")
    then have "handler_ok p s (c, h)" using ok i by (metis list_all_length)
    then obtain h' s' where "handler_step cfg p c (h, s) (h', s')"
      using handler_can_step [OF _ _ fin(2) len, of p c h cfg] n ch by auto
    then show False using stuck handler [OF i ch] by blast
  qed
  then show ?thesis using e fin by (simp add: list_all_length)
qed

text \<open>Where no thread is at work any more: what the threads leave.\<close>

definition at_rest :: "(stamp tconn \<times> hpc) list \<Rightarrow> ('w, 'k, 'b, 'h) shared \<Rightarrow> bool" where
  "at_rest hs s \<longleftrightarrow> sh_lock s = None \<and> list_all (\<lambda>q. q = Finished None) (sh_reports s) \<and> list_all (\<lambda>ch. snd ch = Done) hs"

lemma quiet_outcome:
  fixes x0 :: "('w, ('k sink, 'b \<times> kill_call list) supervisor, 'h) term_proxy"
  assumes led: "ledger cfg p x0 hs s fs obs cl" and q: "at_rest hs s"
    and all: "all_inv good record_of k (decision_events p (sh_asked s)) run creds (g, []) (g', plan) r
        (sh_reports s, sh_lock s, tp_gate (sh_proxy s))"
  shows "hs = map (\<lambda>c. (c, Done)) (map fst hs)
    \<and> (\<exists>cl. px_closed (sh_proxy s) = px_closed x0 @ cl \<and> mset cl = mset (map (tc_sock \<circ> fst) hs))
    \<and> mset (record_of (sup_sink (tp_gate (sh_proxy s)))) = mset (record_of k @ decision_events p (sh_asked s))
    \<and> snd (sup_backend (tp_gate (sh_proxy s))) = (if list_all (gate_permits p \<circ> snd) (sh_asked s) then [] else plan)"
proof -
  have h: "hs = map (\<lambda>c. (c, Done)) (map fst hs)"
    using q by (auto simp: at_rest_def list_all_iff intro!: nth_equalityI) (metis nth_mem prod.collapse)
  have "concat (map still_open hs) = []" by (subst h) (simp add: comp_def)
  then have cl: "px_closed (sh_proxy s) = px_closed x0 @ cl" "mset cl = mset (map (tc_sock \<circ> fst) hs)"
    using led unfolding ledger_def by (simp_all only: mset.simps add_0_right)
  have "(\<exists>e \<in> set (decision_events p (sh_asked s)). is_kill e) \<longleftrightarrow> \<not> list_all (gate_permits p \<circ> snd) (sh_asked s)"
    by (auto simp: list_all_iff case_prod_beta)
  then show ?thesis using h cl finished_outcome(1-3) [OF all] q by (auto simp: at_rest_def)
qed

text \<open>On any backend; the theorem below is its instance on gVisor.\<close>

lemma complete_on:
  fixes x0 :: "('w, ('k sink, 'b \<times> kill_call list) supervisor, 'h) term_proxy"
  assumes "total_backend B ok" "tp_gate x0 = supervisor_init (g, []) k run (Some creds)" "\<not> px_stop x0"
    and "durable fp k" "ok g" "list_all (ordinary_conn fr fp) (served evs)"
    and "(world_step (emit fr) (logging B) cfg p)\<^sup>*\<^sup>* (world_init evs x0) (evs', hs, s)"
    and "\<nexists>w. world_step (emit fr) (logging B) cfg p (evs', hs, s) w"
  shows "hs = map (\<lambda>c. (c, Done)) (served evs)
    \<and> (\<exists>cl. px_closed (sh_proxy s) = px_closed x0 @ cl \<and> mset cl = mset (map tc_sock (served evs)))
    \<and> mset (durable_record fp (sup_sink (tp_gate (sh_proxy s)))) = mset (durable_record fp k @ decision_events p (sh_asked s))
    \<and> snd (sup_backend (tp_gate (sh_proxy s))) =
        (if list_all (gate_permits p \<circ> snd) (sh_asked s) then [] else kill_plan B run creds)"
proof -
  obtain fs obs cl g' r where led: "ledger cfg p x0 hs s fs obs cl" and ok: "list_all (handler_ok p s) hs"
      and all: "all_inv (durable fp) (durable_record fp) k (decision_events p (sh_asked s)) run creds (g, [])
        (g', kill_plan B run creds) r (sh_reports s, sh_lock s, tp_gate (sh_proxy s))"
      and sv: "map fst hs @ (if px_stop (sh_proxy s) then [] else served evs') = served evs"
      and len: "length (sh_reports s) = length (sh_asked s)"
    using world_inv_reports [OF assms(1,2,4,5,6) world_inv_reachable [OF assms(7,3)]] by metis
  note st = world_stuck [OF assms(8) all ok len]
  then have m: "map fst hs = served evs" using sv by (simp split: if_splits)
  then have "map (tc_sock \<circ> fst) hs = map tc_sock (served evs)" by (metis map_map)
  then show ?thesis using quiet_outcome [OF led _ all] st m by (simp add: at_rest_def)
qed

text \<open>
  C2. When no thread can go on, no handler hangs: every accepted connection was handled and
  closed, once; the record gained one event per question; and the backend was called for one
  kill if some question was refused, for none otherwise.
\<close>
theorem handlers_complete:
  fixes x0 :: "('w, ('k sink, 'b gvisor \<times> kill_call list) supervisor, 'h) term_proxy"
  assumes "tp_gate x0 = supervisor_init (g, []) k run (Some creds)" "\<not> px_stop x0"
    and "durable fp k" "gvisor_total g" "list_all (ordinary_conn fr fp) (served evs)"
    and "(world_step (emit fr) (logging gvisor_backend) cfg p)\<^sup>*\<^sup>* (world_init evs x0) (evs', hs, s)"
    and "\<nexists>w. world_step (emit fr) (logging gvisor_backend) cfg p (evs', hs, s) w"
  shows "hs = map (\<lambda>c. (c, Done)) (served evs)
    \<and> (\<exists>cl. px_closed (sh_proxy s) = px_closed x0 @ cl \<and> mset cl = mset (map tc_sock (served evs)))
    \<and> mset (durable_record fp (sup_sink (tp_gate (sh_proxy s)))) = mset (durable_record fp k @ decision_events p (sh_asked s))
    \<and> snd (sup_backend (tp_gate (sh_proxy s))) =
        (if list_all (gate_permits p \<circ> snd) (sh_asked s) then [] else gvisor_plan run creds)"
  using complete_on [OF gvisor.total_backend_axioms assms] unfolding program_plans .

text \<open>The same on Firecracker.\<close>

theorem firecracker_complete:
  fixes x0 :: "('w, ('k sink, 'b firecracker \<times> kill_call list) supervisor, 'h) term_proxy"
  assumes "tp_gate x0 = supervisor_init (g, []) k run (Some creds)" "\<not> px_stop x0"
    and "durable fp k" "firecracker_total g" "list_all (ordinary_conn fr fp) (served evs)"
    and "(world_step (emit fr) (logging firecracker_backend) cfg p)\<^sup>*\<^sup>* (world_init evs x0) (evs', hs, s)"
    and "\<nexists>w. world_step (emit fr) (logging firecracker_backend) cfg p (evs', hs, s) w"
  shows "hs = map (\<lambda>c. (c, Done)) (served evs)
    \<and> (\<exists>cl. px_closed (sh_proxy s) = px_closed x0 @ cl \<and> mset cl = mset (map tc_sock (served evs)))
    \<and> mset (durable_record fp (sup_sink (tp_gate (sh_proxy s)))) = mset (durable_record fp k @ decision_events p (sh_asked s))
    \<and> snd (sup_backend (tp_gate (sh_proxy s))) =
        (if list_all (gate_permits p \<circ> snd) (sh_asked s) then [] else firecracker_plan run creds)"
  using complete_on [OF firecracker.total_backend_axioms assms] unfolding program_plans .

section \<open>Two connections\<close>

definition demo_script :: "stamp tconn accept_event list" where
  "demo_script = [Accepted (demo_tconn (demo_raw ''pypi.org'')), AcceptTimeout, Accepted (demo_tconn (demo_raw ''evil.org''))]"

abbreviation demo_world_step where
  "demo_world_step \<equiv> world_step (emit demo_fr) (logging gvisor_backend) demo_session_config demo_policy"

lemma demo_session_gate:
  "tp_gate demo_session = supervisor_init (demo_gvisor, []) demo_tee ''run-1'' (Some [''tok-1''])" "\<not> px_stop demo_session"
  "tp_forwarded demo_session = []" "px_closed demo_session = []"
  by (simp_all add: demo_session_def proxy.defs term_proxy.defs proxy_init_def)

lemma demo_served:
  "served demo_script = [demo_tconn (demo_raw ''pypi.org''), demo_tconn (demo_raw ''evil.org'')]" "length demo_script = 3"
  by (simp_all add: demo_script_def)

lemma demo_script_ordinary: "list_all (ordinary_conn demo_fr demo_fp) (served demo_script)"
proof -
  have "float_text demo_fr demo_fp (3 / 2)" using demo_event_ok by (simp add: event_ok_def demo_event_def make_event_def)
  then show ?thesis by (simp add: demo_served ordinary_conn_def demo_tconn_def demo_sock_def)
qed

lemma demo_decides: "tx_decide demo_session_config = decide (emit demo_fr) (logging gvisor_backend) demo_policy"
  by (simp add: demo_session_config_def)

lemmas demo_threads = demo_session_gate(1,2) demo_tee_durable(1) demo_gvisor_total demo_script_ordinary

theorem handlers_forward_recorded_witness:
  "\<exists>hs s fs. demo_world_step\<^sup>*\<^sup>* (world_init demo_script demo_session) ([], hs, s)
    \<and> sh_proxy s = serve (term_dispatch demo_session_config) demo_script demo_session
    \<and> tp_forwarded (sh_proxy s) = fs
    \<and> mset (map fw_conn fs) \<subseteq># mset (filter (gate_permits demo_policy) (map snd (sh_asked s)))"
proof -
  obtain hs s where s: "demo_world_step\<^sup>*\<^sup>* (world_init demo_script demo_session) ([], hs, s)"
      "sh_proxy s = serve (term_dispatch demo_session_config) demo_script demo_session"
    using serve_alone [OF demo_decides, of "\<lparr>sh_asked = [], sh_reports = [], sh_lock = None, sh_proxy = demo_session\<rparr>"
        demo_script "[]"] by (auto simp: world_init_def)
  from handlers_forward_recorded [OF demo_threads s(1)] show ?thesis
    using s unfolding demo_session_gate(3) append_Nil by blast
qed

theorem sequential_run_is_a_schedule_witness:
  "\<exists>s. demo_world_step\<^sup>*\<^sup>* (world_init demo_script demo_session)
      ([], map (\<lambda>c. (c, Done)) [demo_tconn (demo_raw ''pypi.org''), demo_tconn (demo_raw ''evil.org'')], s)
    \<and> sh_proxy s = serve (term_dispatch demo_session_config) demo_script demo_session"
  using sequential_run_is_a_schedule [OF demo_decides, of demo_script demo_session] demo_session_gate(2)
  by (auto simp: demo_served)

theorem handlers_complete_witness:
  "\<exists>evs hs s. demo_world_step\<^sup>*\<^sup>* (world_init demo_script demo_session) (evs, hs, s)
    \<and> hs = [(demo_tconn (demo_raw ''pypi.org''), Done), (demo_tconn (demo_raw ''evil.org''), Done)]
    \<and> length (px_closed (sh_proxy s)) = 2"
proof -
  obtain evs hs s where w: "demo_world_step\<^sup>*\<^sup>* (world_init demo_script demo_session) (evs, hs, s)"
      "\<nexists>v. demo_world_step (evs, hs, s) v"
    using threads.steps_halt [of "emit demo_fr" "logging gvisor_backend" demo_session_config demo_policy
        "world_init demo_script demo_session"] by (metis prod_cases3)
  note c = handlers_complete [OF demo_threads w]
  then obtain cl where cl: "px_closed (sh_proxy s) = cl" "mset cl = mset (map tc_sock (served demo_script))"
    unfolding demo_session_gate(4) append_Nil by blast
  have "length (px_closed (sh_proxy s)) = 2" using mset_eq_length [OF cl(2)] cl(1) by (simp add: demo_served)
  moreover have "hs = map (\<lambda>c. (c, Done)) (served demo_script)" using c by blast
  ultimately show ?thesis using w(1) by (intro exI [of _ evs] exI [of _ hs] exI [of _ s]) (simp add: demo_served)
qed

end
