(* ===== verification/Stopping.thy ===== *)
theory Stopping
  imports Schedules
begin

text \<open>
  \<^verbatim>\<open>TerminatingProxy.stop\<close> (\<^verbatim>\<open>intercept/terminate.py\<close>, lines 127-131, and
  \<^verbatim>\<open>DenyAllProxy.stop\<close>, \<^verbatim>\<open>intercept/proxy.py\<close>, lines 149-156) called while the accept loop and
  the handlers run. The thread that stops the proxy waits for the others, each for at most
  the timeout: a \<^verbatim>\<open>join\<close> returns when its thread has ended, or at any time, late.
  The proxy is a started one, so the guards on \<^verbatim>\<open>_thread\<close> and \<^verbatim>\<open>_sock\<close> hold.

  The other threads take only the steps that \<open>moves\<close> lets them take: a thread that waits for
  its peer, however long, is one whose steps \<open>moves\<close> does not admit.
\<close>

datatype stop_pc =
    Signalling            \<comment> \<open>at \<^verbatim>\<open>self._stop.set()\<close>\<close>
  | AwaitingLoop          \<comment> \<open>at \<^verbatim>\<open>self._thread.join(timeout)\<close>\<close>
  | Unlistening           \<comment> \<open>at \<^verbatim>\<open>self._sock.close()\<close>\<close>
  | AwaitingHandler nat   \<comment> \<open>at \<^verbatim>\<open>t.join(timeout)\<close> for the handler with that number\<close>
  | Returned

text \<open>The flag says that some \<^verbatim>\<open>join\<close> gave up.\<close>

type_synonym ('w, 'k, 'b, 'h) stopping = "stop_pc \<times> bool \<times> ('w, 'k, 'b, 'h) world"

inductive stop_step ::
  "(trip_event \<Rightarrow> ('k, unit) py) \<Rightarrow> 'b kill_backend \<Rightarrow> (('k, 'b) supervisor, stamp) term_config \<Rightarrow> policy \<Rightarrow>
   (('w, 'k, 'b, 'h) world \<Rightarrow> ('w, 'k, 'b, 'h) world \<Rightarrow> bool) \<Rightarrow>
   ('w, 'k, 'b, 'h) stopping \<Rightarrow> ('w, 'k, 'b, 'h) stopping \<Rightarrow> bool"
  for em B cfg p moves where
  elsewhere: "world_step em B cfg p w w' \<Longrightarrow> moves w w' \<Longrightarrow> stop_step em B cfg p moves (q, late, w) (q, late, w')"
| signals: "stop_step em B cfg p moves (Signalling, late, (evs, hs, s))
    (AwaitingLoop, late, (evs, hs, s\<lparr>sh_proxy := (sh_proxy s)\<lparr>px_stop := True\<rparr>\<rparr>))"
| loop_joined: "stop_step em B cfg p moves (AwaitingLoop, late, ([], hs, s))
    (Unlistening, late, ([], hs, s\<lparr>sh_proxy := (sh_proxy s)\<lparr>px_thread := False\<rparr>\<rparr>))"
| loop_late: "stop_step em B cfg p moves (AwaitingLoop, late, (evs, hs, s))
    (Unlistening, True, (evs, hs, s\<lparr>sh_proxy := (sh_proxy s)\<lparr>px_thread := False\<rparr>\<rparr>))"
| unlistens: "stop_step em B cfg p moves (Unlistening, late, (evs, hs, s))
    (AwaitingHandler 0, late, (evs, hs, s\<lparr>sh_proxy := (sh_proxy s)\<lparr>px_sock := None\<rparr>\<rparr>))"
| joined: "n < length hs \<Longrightarrow> snd (hs ! n) = Done \<Longrightarrow>
    stop_step em B cfg p moves (AwaitingHandler n, late, (evs, hs, s)) (AwaitingHandler (Suc n), late, (evs, hs, s))"
| late: "n < length hs \<Longrightarrow>
    stop_step em B cfg p moves (AwaitingHandler n, late, (evs, hs, s)) (AwaitingHandler (Suc n), True, (evs, hs, s))"
| cleared: "length hs \<le> n \<Longrightarrow> stop_step em B cfg p moves (AwaitingHandler n, late, (evs, hs, s))
    (Returned, late, (evs, hs, s\<lparr>sh_proxy := (sh_proxy s)\<lparr>tp_handlers := 0\<rparr>\<rparr>))"

section \<open>stop() returns\<close>

fun stop_rank :: "nat \<Rightarrow> stop_pc \<Rightarrow> nat" where
  "stop_rank n Signalling = n + 5" | "stop_rank n AwaitingLoop = n + 4" | "stop_rank n Unlistening = n + 3"
| "stop_rank n (AwaitingHandler k) = n - k + 2" | "stop_rank n Returned = 0"

definition stop_work :: "('w, 'k, 'b, 'h) stopping \<Rightarrow> nat" where
  "stop_work = (\<lambda>(q, late, (evs, hs, s)). 2 * world_work (evs, hs, s) + stop_rank (length hs) q)"

lemma world_step_handlers:
  assumes "world_step em B cfg p (evs, hs, s) (evs', hs', s')"
  shows "length hs \<le> length hs' \<and> length hs' \<le> Suc (length hs) \<and> (evs = [] \<longrightarrow> evs' = [] \<and> length hs' = length hs)"
  using assms by cases auto

lemma stop_rank_mono: "n \<le> m \<Longrightarrow> m \<le> Suc n \<Longrightarrow> stop_rank m q \<le> Suc (stop_rank n q)"
  by (cases q) auto

lemma world_work_proxy: "world_work (evs, hs, s\<lparr>sh_proxy := x\<rparr>) = world_work (evs, hs, s)"
  by (simp add: world_work_def)

interpretation stops: ending_steps "stop_step em B cfg p moves" stop_work for em B cfg p moves
proof unfold_locales
  fix x y
  assume "stop_step em B cfg p moves x y"
  then show "stop_work y < stop_work x"
  proof (induction rule: stop_step.induct)
    case (elsewhere w w' q late)
    obtain evs hs s evs' hs' s' where w: "w = (evs, hs, s)" "w' = (evs', hs', s')" by (metis prod_cases3)
    have "stop_rank (length hs') q \<le> Suc (stop_rank (length hs) q)"
      using world_step_handlers elsewhere(1) stop_rank_mono unfolding w by blast
    then show ?case using world_step_work [OF elsewhere(1)] unfolding w by (simp add: stop_work_def)
  qed (simp_all add: stop_work_def world_work_proxy)
qed

lemma stop_can_step:
  assumes "q \<noteq> Returned"
  shows "\<exists>y. stop_step em B cfg p moves (q, late, w) y"
proof -
  obtain evs hs s where w: "w = (evs, hs, s)" by (metis prod_cases3)
  show ?thesis
  proof (cases q)
    case Signalling
    then show ?thesis unfolding w by (blast intro: signals)
  next
    case AwaitingLoop
    then show ?thesis unfolding w by (blast intro: loop_late)
  next
    case Unlistening
    then show ?thesis unfolding w by (blast intro: unlistens)
  next
    case (AwaitingHandler n)
    show ?thesis
    proof (cases "n < length hs")
      case True
      from stop_step.late [OF this] show ?thesis unfolding w AwaitingHandler by blast
    next
      case False
      then have "length hs \<le> n" by simp
      from cleared [OF this] show ?thesis unfolding w AwaitingHandler by blast
    qed
  qed (use assms in simp)
qed

text \<open>
  C5. Whatever the connections do, \<^verbatim>\<open>stop()\<close> returns: also when any of the other threads, or all
  of them, are blocked for good, every run has boundedly many steps, and where nothing can
  move \<^verbatim>\<open>stop\<close> has returned.
\<close>
theorem stop_returns:
  "(stop_step em B cfg p moves ^^ n) (Signalling, False, world_init evs x0) y \<Longrightarrow> n \<le> 32 * length evs + 5
    \<and> ((\<nexists>z. stop_step em B cfg p moves y z) \<longrightarrow> fst y = Returned)"
proof -
  assume "(stop_step em B cfg p moves ^^ n) (Signalling, False, world_init evs x0) y"
  then have "n \<le> stop_work (Signalling, False, world_init evs x0)" using stops.steps_bounded by fastforce
  moreover have "stop_work (Signalling, False, world_init evs x0) = 32 * length evs + 5"
    by (simp add: stop_work_def world_init_def world_work_def)
  moreover have "fst y = Returned" if "\<nexists>z. stop_step em B cfg p moves y z" using stop_can_step [of "fst y" em B cfg p moves "fst (snd y)" "snd (snd y)"] that by auto
  ultimately show ?thesis by auto
qed

section \<open>Who runs a report\<close>

text \<open>A report that has not finished belongs to a handler that waits for it.\<close>

definition reports_owned :: "('w, 'k, 'b, 'h) world \<Rightarrow> bool" where
  "reports_owned = (\<lambda>(evs, hs, s). \<forall>k < length (sh_reports s).
     (\<exists>q. sh_reports s ! k = Finished q) \<or> (\<exists>pl. Asking pl k \<in> snd ` set hs))"

lemma asking_waits:
  assumes "handler_step cfg p c (Asking pl k, s) (h', s')"
  shows "\<exists>q. sh_reports s ! k = Finished q"
  using assms by cases simp_all

lemma other_kept:
  assumes "x \<in> snd ` set xs" "x \<noteq> snd (xs ! i)"
  shows "x \<in> snd ` set (xs[i := y])"
proof -
  obtain j where j: "j < length xs" "snd (xs ! j) = x" using assms(1) by (auto simp: in_set_conv_nth)
  then have "xs[i := y] ! j = xs ! j" using assms(2) by (cases "j = i") auto
  then have "xs ! j \<in> set (xs[i := y])" using j(1) nth_mem [of j "xs[i := y]"] by simp
  then show ?thesis using j(2) by blast
qed

lemma reports_owned_handler:
  assumes st: "handler_step cfg p c (h, s) (h', s')" and i: "i < length hs" "hs ! i = (c, h)"
    and own: "reports_owned (evs, hs, s)"
  shows "reports_owned (evs, hs[i := (c, h')], s')"
proof -
  have kept: "(\<exists>q. sh_reports s ! k = Finished q) \<or> (\<exists>pl. Asking pl k \<in> snd ` set (hs[i := (c, h')]))"
    if k: "k < length (sh_reports s)" for k
  proof (cases "\<exists>pl. h = Asking pl k")
    case True
    then show ?thesis using asking_waits st by blast
  next
    case False
    consider (fin) q where "sh_reports s ! k = Finished q" | (owned) pl where "Asking pl k \<in> snd ` set hs"
      using own k unfolding reports_owned_def prod.case by blast
    then show ?thesis
    proof cases
      case owned
      have "Asking pl k \<noteq> snd (hs ! i)" using False i(2) by auto
      from other_kept [OF owned this] show ?thesis by blast
    qed blast
  qed
  from handler_asks [OF st] show ?thesis
  proof (elim disjE exE conjE)
    assume "sh_reports s' = sh_reports s"
    then show ?thesis using kept by (simp add: reports_owned_def)
  next
    fix pl obs
    assume a: "h' = Asking pl (length (sh_reports s))"
      "s' = s\<lparr>sh_asked := sh_asked s @ [(tc_stamp c, obs)],
              sh_reports := sh_reports s @ [Entered (decision_event p (tc_stamp c) obs)]\<rparr>"
    have "(c, h') \<in> set (hs[i := (c, h')])" using i(1) by (rule set_update_memI)
    then have "Asking pl (length (sh_reports s)) \<in> snd ` set (hs[i := (c, h')])" using a(1) by (metis image_eqI snd_conv)
    then show ?thesis using kept a(2) by (auto simp: reports_owned_def nth_append less_Suc_eq)
  qed
qed

lemma reports_owned_step:
  assumes st: "world_step em B cfg p (evs, hs, s) (evs', hs', s')" and own: "reports_owned (evs, hs, s)"
  shows "reports_owned (evs', hs', s')"
  using st
proof cases
  case (accepted c)
  then show ?thesis using own by (auto simp: reports_owned_def)
next
  case (handler i c h h')
  then show ?thesis using reports_owned_handler [OF handler(5,3,4) own] by (simp add: reports_owned_def)
next
  case (report ts l g)
  have "length ts = length (sh_reports s)" using sys_step_append [OF report(4), of "[]"] by simp
  then show ?thesis
    using own report(1-3) sys_step_finished [OF report(4)] unfolding reports_owned_def prod.case by simp metis
qed (use own in \<open>simp_all add: reports_owned_def\<close>)

section \<open>A clean stop\<close>

text \<open>What \<^verbatim>\<open>stop\<close> itself changes is of no concern to the other threads.\<close>

lemma world_inv_admin:
  assumes "world_inv em B cfg p x0 evs0 (evs, hs, s)" "tp_gate x = tp_gate (sh_proxy s)" "px_stop x = px_stop (sh_proxy s)"
    and "tp_forwarded x = tp_forwarded (sh_proxy s)" "px_seen x = px_seen (sh_proxy s)" "px_closed x = px_closed (sh_proxy s)"
  shows "world_inv em B cfg p x0 evs0 (evs, hs, s\<lparr>sh_proxy := x\<rparr>)"
proof -
  have k: "keeps s (s\<lparr>sh_proxy := x\<rparr>)" by (simp add: keeps_def)
  have "\<exists>fs obs cl. ledger cfg p x0 hs s fs obs cl \<Longrightarrow> \<exists>fs obs cl. ledger cfg p x0 hs (s\<lparr>sh_proxy := x\<rparr>) fs obs cl"
    using ledger_same [OF _ k] assms(4-6) by fastforce
  then show ?thesis
    using assms(1-3) handler_ok_keeps [OF k] by (auto simp: world_inv_def reports_run_def list_all_iff)
qed

lemma world_inv_stopped:
  assumes "world_inv em B cfg p x0 evs0 (evs, hs, s)"
  shows "world_inv em B cfg p x0 (map (Accepted \<circ> fst) hs) (evs, hs, s\<lparr>sh_proxy := (sh_proxy s)\<lparr>px_stop := True\<rparr>\<rparr>)"
proof -
  let ?s = "s\<lparr>sh_proxy := (sh_proxy s)\<lparr>px_stop := True\<rparr>\<rparr>"
  have k: "keeps s ?s" by (simp add: keeps_def)
  have "\<exists>fs obs cl. ledger cfg p x0 hs s fs obs cl \<Longrightarrow> \<exists>fs obs cl. ledger cfg p x0 hs ?s fs obs cl"
    using ledger_same [OF _ k] by fastforce
  moreover have "served (map (Accepted \<circ> fst) hs) = map fst hs" by (induction hs) simp_all
  ultimately show ?thesis
    using assms handler_ok_keeps [OF k] by (auto simp: world_inv_def reports_run_def list_all_iff)
qed

fun joined_so_far :: "stop_pc \<Rightarrow> (stamp tconn \<times> hpc) list \<Rightarrow> stamp tconn accept_event list \<Rightarrow> bool" where
  "joined_so_far Signalling hs evs = True"
| "joined_so_far AwaitingLoop hs evs = True"
| "joined_so_far Unlistening hs evs = (evs = [])"
| "joined_so_far (AwaitingHandler n) hs evs = (evs = [] \<and> n \<le> length hs \<and> (\<forall>i < n. snd (hs ! i) = Done))"
| "joined_so_far Returned hs evs = (evs = [] \<and> (\<forall>i < length hs. snd (hs ! i) = Done))"

definition stop_inv ::
  "(trip_event \<Rightarrow> ('k, unit) py) \<Rightarrow> 'b kill_backend \<Rightarrow> (('k, 'b) supervisor, stamp) term_config \<Rightarrow> policy \<Rightarrow>
   ('w, ('k, 'b) supervisor, 'h) term_proxy \<Rightarrow> stamp tconn accept_event list \<Rightarrow> ('w, 'k, 'b, 'h) stopping \<Rightarrow> bool" where
  "stop_inv em B cfg p x0 evs0 = (\<lambda>(q, late, (evs, hs, s)).
     (\<exists>evs1. world_inv em B cfg p x0 evs1 (evs, hs, s) \<and> (\<exists>more. served evs0 = served evs1 @ more))
   \<and> reports_owned (evs, hs, s) \<and> (late \<or> joined_so_far q hs evs))"

lemma done_kept:
  assumes "world_step em B cfg p (evs, hs, s) (evs', hs', s')" "i < length hs" "snd (hs ! i) = Done"
  shows "snd (hs' ! i) = Done"
  using assms(1)
proof cases
  case (handler j c h h')
  have "h \<noteq> Done" using handler(5) by (auto elim: handler_stepE)
  then have "j \<noteq> i" using handler(4) assms(3) by auto
  then show ?thesis using handler(2) assms(3) by simp
qed (use assms(2,3) in \<open>simp_all add: nth_append\<close>)

lemma joined_kept:
  "world_step em B cfg p (evs, hs, s) (evs', hs', s') \<Longrightarrow> joined_so_far q hs evs \<Longrightarrow> joined_so_far q hs' evs'"
  using world_step_handlers [of em B cfg p evs hs s evs' hs' s'] done_kept [of em B cfg p evs hs s evs' hs' s']
  by (cases q) auto

lemma stop_inv_admin:
  assumes "stop_inv em B cfg p x0 evs0 (q, late, (evs, hs, s))" "late' \<or> joined_so_far q' hs evs"
    and "tp_gate x = tp_gate (sh_proxy s)" "px_stop x = px_stop (sh_proxy s)"
    and "tp_forwarded x = tp_forwarded (sh_proxy s)" "px_seen x = px_seen (sh_proxy s)" "px_closed x = px_closed (sh_proxy s)"
  shows "stop_inv em B cfg p x0 evs0 (q', late', (evs, hs, s\<lparr>sh_proxy := x\<rparr>))"
proof -
  obtain evs1 where inv: "world_inv em B cfg p x0 evs1 (evs, hs, s)" "\<exists>more. served evs0 = served evs1 @ more"
    and own: "reports_owned (evs, hs, s)" using assms(1) unfolding stop_inv_def prod.case by blast
  have "reports_owned (evs, hs, s\<lparr>sh_proxy := x\<rparr>)" using own by (simp add: reports_owned_def)
  then show ?thesis unfolding stop_inv_def prod.case
    using world_inv_admin [OF inv(1) assms(3-7)] inv(2) assms(2) by blast
qed

lemma stop_inv_late: "stop_inv em B cfg p x0 evs0 (q, late, w) \<Longrightarrow> late \<or> (case w of (evs, hs, s) \<Rightarrow> joined_so_far q hs evs)"
  unfolding stop_inv_def by (cases w) auto

lemma stop_inv_step: "stop_step em B cfg p moves x y \<Longrightarrow> stop_inv em B cfg p x0 evs0 x \<Longrightarrow> stop_inv em B cfg p x0 evs0 y"
proof (induction rule: stop_step.induct)
  case (elsewhere w w' q late)
  obtain evs hs s evs' hs' s' where w: "w = (evs, hs, s)" "w' = (evs', hs', s')" by (metis prod_cases3)
  note st = elsewhere(1) [unfolded w] and inv = elsewhere(3) [unfolded w stop_inv_def prod.case]
  show ?case unfolding w stop_inv_def prod.case
    using inv world_inv_step [OF st] reports_owned_step [OF st] joined_kept [OF st] by blast
next
  case (signals late evs hs s)
  then obtain evs1 more where inv: "world_inv em B cfg p x0 evs1 (evs, hs, s)" "served evs0 = served evs1 @ more"
    and own: "reports_owned (evs, hs, s)" unfolding stop_inv_def prod.case by blast
  have "served (map (Accepted \<circ> fst) hs) = map fst hs" by (induction hs) simp_all
  moreover have "\<exists>m. served evs1 = map fst hs @ m" using inv(1) by (auto simp: world_inv_def intro: sym)
  ultimately have "\<exists>more. served evs0 = served (map (Accepted \<circ> fst) hs) @ more" using inv(2) by auto
  then show ?case unfolding stop_inv_def prod.case
    using world_inv_stopped [OF inv(1)] own by (auto simp: reports_owned_def)
next
  case (loop_joined late hs s)
  then show ?case by (elim stop_inv_admin) simp_all
next
  case (loop_late late evs hs s)
  then show ?case by (elim stop_inv_admin) simp_all
next
  case (unlistens late evs hs s)
  then show ?case using stop_inv_late [OF unlistens] by (elim stop_inv_admin) auto
next
  case (joined n hs late evs s)
  then show ?case using stop_inv_late [OF joined(3)] by (auto simp: stop_inv_def less_Suc_eq)
next
  case (late n hs lt evs s)
  then show ?case by (simp add: stop_inv_def)
next
  case (cleared hs n late evs s)
  then show ?case using stop_inv_late [OF cleared(2)] by (elim stop_inv_admin) auto
qed

lemma stop_inv_reachable:
  assumes "(stop_step em B cfg p moves)\<^sup>*\<^sup>* (Signalling, False, world_init evs x0) y" "\<not> px_stop x0"
  shows "stop_inv em B cfg p x0 evs y"
  using assms(1)
proof (induction rule: rtranclp_induct)
  case base
  have "world_inv em B cfg p x0 evs (evs, [], \<lparr>sh_asked = [], sh_reports = [], sh_lock = None, sh_proxy = x0\<rparr>)"
    using world_inv_init [OF assms(2), of em B cfg p evs] by (simp add: world_init_def)
  then show ?case by (auto simp: stop_inv_def world_init_def reports_owned_def)
qed (rule stop_inv_step)

lemma unraised_finished: "all_inv good record_of k es run creds b0 b1 r (ts, l, g) \<Longrightarrow> i < length ts \<Longrightarrow> ts ! i = Finished q \<Longrightarrow> q = None"
  by (fastforce simp: all_inv_def kill_inv_def)

lemma free_lock: "all_inv good record_of k es run creds b0 b1 r (ts, l, g) \<Longrightarrow> list_all (\<lambda>q. q = Finished None) ts \<Longrightarrow> l = None"
  by (cases l) (auto simp: all_inv_def lock_inv_def list_all_length)

lemma quiet_stuck:
  assumes "at_rest hs s" "evs = []"
  shows "\<not> world_step em B cfg p (evs, hs, s) w"
proof
  assume "world_step em B cfg p (evs, hs, s) w"
  then show False
  proof cases
    case (handler i c h h' s')
    then have "h = Done" using assms(1) by (auto simp: at_rest_def list_all_length)
    then show False using handler(4) by (auto elim: handler_stepE)
  next
    case (report ts l g)
    from report(2) show False
    proof cases
      case (interleave i p')
      then have "sh_reports s ! i = Finished None" using assms(1) by (simp add: at_rest_def list_all_length)
      then show False using interleave(3) by (auto elim: thread_stepE)
    qed
  qed (use assms(2) in simp_all)
qed

text \<open>On any backend; the theorem below is its instance on gVisor.\<close>

lemma clean_stop_on:
  fixes x0 :: "('w, ('k sink, 'b \<times> kill_call list) supervisor, 'h) term_proxy"
  assumes "total_backend B ok" "tp_gate x0 = supervisor_init (g, []) k run (Some creds)" "\<not> px_stop x0"
    and "durable fp k" "ok g" "list_all (ordinary_conn fr fp) (served evs)"
    and "(stop_step (emit fr) (logging B) cfg p moves)\<^sup>*\<^sup>* (Signalling, False, world_init evs x0) (Returned, False, (evs', hs, s))"
  shows "(\<exists>cs more. served evs = cs @ more \<and> hs = map (\<lambda>c. (c, Done)) cs
        \<and> (\<exists>cl. px_closed (sh_proxy s) = px_closed x0 @ cl \<and> mset cl = mset (map tc_sock cs)))
    \<and> mset (durable_record fp (sup_sink (tp_gate (sh_proxy s)))) = mset (durable_record fp k @ decision_events p (sh_asked s))
    \<and> snd (sup_backend (tp_gate (sh_proxy s))) =
        (if list_all (gate_permits p \<circ> snd) (sh_asked s) then [] else kill_plan B run creds)
    \<and> (\<nexists>w. world_step (emit fr) (logging B) cfg p (evs', hs, s) w)"
proof -
  note inv = stop_inv_reachable [OF assms(7,3), unfolded stop_inv_def prod.case]
  obtain evs1 more where w: "world_inv (emit fr) (logging B) cfg p x0 evs1 (evs', hs, s)" "served evs = served evs1 @ more"
    using inv by blast
  have own: "reports_owned (evs', hs, s)" and j: "evs' = []" "list_all (\<lambda>ch. snd ch = Done) hs"
    using inv by (auto simp: list_all_length)
  have "list_all (ordinary_conn fr fp) (served evs1)" using assms(6) w(2) by simp
  then obtain fs obs cl g' r where led: "ledger cfg p x0 hs s fs obs cl" and ok: "list_all (handler_ok p s) hs"
      and all: "all_inv (durable fp) (durable_record fp) k (decision_events p (sh_asked s)) run creds (g, [])
        (g', kill_plan B run creds) r (sh_reports s, sh_lock s, tp_gate (sh_proxy s))"
      and sv: "map fst hs @ (if px_stop (sh_proxy s) then [] else served evs') = served evs1"
    using world_inv_reports [OF assms(1,2,4,5) _ w(1)] by metis
  have "sh_reports s ! i = Finished None" if i: "i < length (sh_reports s)" for i
  proof -
    have "Asking pl i \<notin> snd ` set hs" for pl using j(2) by (auto simp: list_all_iff)
    then obtain q where "sh_reports s ! i = Finished q" using own i unfolding reports_owned_def prod.case by blast
    then show ?thesis using unraised_finished [OF all i] by simp
  qed
  then have fin: "list_all (\<lambda>q. q = Finished None) (sh_reports s)" by (simp add: list_all_length)
  have q: "at_rest hs s" using fin free_lock [OF all fin] j(2) by (simp add: at_rest_def)
  have m: "map fst hs = served evs1" using sv j(1) by (simp split: if_splits)
  have "map (tc_sock \<circ> fst) hs = map tc_sock (served evs1)" using m by (metis map_map)
  then have out: "\<exists>cs more. served evs = cs @ more \<and> hs = map (\<lambda>c. (c, Done)) cs
        \<and> (\<exists>cl. px_closed (sh_proxy s) = px_closed x0 @ cl \<and> mset cl = mset (map tc_sock cs))"
    using quiet_outcome [OF led q all] w(2) m by metis
  have "\<not> world_step (emit fr) (logging B) cfg p (evs', hs, s) w'" for w'
    by (rule quiet_stuck [OF q j(1)])
  then show ?thesis using out quiet_outcome [OF led q all] by blast
qed

text \<open>
  C3. A clean shutdown: when \<^verbatim>\<open>stop()\<close> has returned and no \<^verbatim>\<open>join\<close> gave up, no thread of the
  proxy can move any more, whatever held the threads up before. The connections accepted are the first ones of the listener's
  script, each handled to the end and closed once; every question is in the record; the
  backend was called for one kill if some question was refused, for none otherwise.
\<close>
theorem stop_is_clean:
  fixes x0 :: "('w, ('k sink, 'b gvisor \<times> kill_call list) supervisor, 'h) term_proxy"
  assumes "tp_gate x0 = supervisor_init (g, []) k run (Some creds)" "\<not> px_stop x0"
    and "durable fp k" "gvisor_total g" "list_all (ordinary_conn fr fp) (served evs)"
    and "(stop_step (emit fr) (logging gvisor_backend) cfg p moves)\<^sup>*\<^sup>* (Signalling, False, world_init evs x0)
           (Returned, False, (evs', hs, s))"
  shows "(\<exists>cs more. served evs = cs @ more \<and> hs = map (\<lambda>c. (c, Done)) cs
        \<and> (\<exists>cl. px_closed (sh_proxy s) = px_closed x0 @ cl \<and> mset cl = mset (map tc_sock cs)))
    \<and> mset (durable_record fp (sup_sink (tp_gate (sh_proxy s)))) = mset (durable_record fp k @ decision_events p (sh_asked s))
    \<and> snd (sup_backend (tp_gate (sh_proxy s))) =
        (if list_all (gate_permits p \<circ> snd) (sh_asked s) then [] else gvisor_plan run creds)
    \<and> (\<nexists>w. world_step (emit fr) (logging gvisor_backend) cfg p (evs', hs, s) w)"
  using clean_stop_on [OF gvisor.total_backend_axioms assms] unfolding program_plans .

text \<open>And it can be had: stopped when every thread has ended, no \<^verbatim>\<open>join\<close> gives up.\<close>

lemma two_steps: "r a b \<Longrightarrow> r b c \<Longrightarrow> r\<^sup>*\<^sup>* a c"
  by (meson converse_rtranclp_into_rtranclp r_into_rtranclp)

lemma joins_all:
  assumes "list_all (\<lambda>ch. snd ch = Done) hs" "n \<le> length hs"
  shows "(stop_step em B cfg p moves)\<^sup>*\<^sup>* (AwaitingHandler n, lt, (evs, hs, s)) (AwaitingHandler (length hs), lt, (evs, hs, s))"
  using assms(2)
proof (induction "length hs - n" arbitrary: n)
  case (Suc m)
  then have "n < length hs" "snd (hs ! n) = Done" using assms(1) by (simp_all add: list_all_length)
  then have "stop_step em B cfg p moves (AwaitingHandler n, lt, (evs, hs, s)) (AwaitingHandler (Suc n), lt, (evs, hs, s))"
    by (rule joined)
  then show ?case using Suc(1) [of "Suc n"] Suc(2,3) \<open>n < length hs\<close> by (simp add: converse_rtranclp_into_rtranclp)
qed simp

lemma stops_clean:
  assumes "list_all (\<lambda>ch. snd ch = Done) hs"
  shows "\<exists>s'. (stop_step em B cfg p moves)\<^sup>*\<^sup>* (Signalling, lt, ([], hs, s)) (Returned, lt, ([], hs, s'))
    \<and> tp_gate (sh_proxy s') = tp_gate (sh_proxy s) \<and> tp_forwarded (sh_proxy s') = tp_forwarded (sh_proxy s)"
proof -
  let ?s1 = "s\<lparr>sh_proxy := (sh_proxy s)\<lparr>px_stop := True\<rparr>\<rparr>"
  let ?s2 = "?s1\<lparr>sh_proxy := (sh_proxy ?s1)\<lparr>px_thread := False\<rparr>\<rparr>"
  let ?s3 = "?s2\<lparr>sh_proxy := (sh_proxy ?s2)\<lparr>px_sock := None\<rparr>\<rparr>"
  let ?s4 = "?s3\<lparr>sh_proxy := (sh_proxy ?s3)\<lparr>tp_handlers := 0\<rparr>\<rparr>"
  have "stop_step em B cfg p moves (Signalling, lt, ([], hs, s)) (AwaitingLoop, lt, ([], hs, ?s1))"
    "stop_step em B cfg p moves (AwaitingLoop, lt, ([], hs, ?s1)) (Unlistening, lt, ([], hs, ?s2))"
    "stop_step em B cfg p moves (Unlistening, lt, ([], hs, ?s2)) (AwaitingHandler 0, lt, ([], hs, ?s3))"
    "stop_step em B cfg p moves (AwaitingHandler (length hs), lt, ([], hs, ?s3)) (Returned, lt, ([], hs, ?s4))"
    by (rule signals, rule loop_joined, rule unlistens, rule cleared) simp
  then have "(stop_step em B cfg p moves)\<^sup>*\<^sup>* (Signalling, lt, ([], hs, s)) (Returned, lt, ([], hs, ?s4))"
    using joins_all [OF assms, of 0 em B cfg p moves lt "[]" ?s3]
    by (meson converse_rtranclp_into_rtranclp le0 rtranclp.rtrancl_into_rtrancl)
  then show ?thesis by (intro exI [of _ ?s4]) simp
qed

lemma elsewhere_all: "(world_step em B cfg p)\<^sup>*\<^sup>* w w' \<Longrightarrow> (stop_step em B cfg p (\<lambda>_ _. True))\<^sup>*\<^sup>* (q, lt, w) (q, lt, w')"
  by (induction rule: rtranclp_induct) (auto intro: rtranclp.rtrancl_into_rtrancl elsewhere)

theorem stop_is_clean_witness:
  "\<exists>hs s. (stop_step (emit demo_fr) (logging gvisor_backend) demo_session_config demo_policy (\<lambda>_ _. True))\<^sup>*\<^sup>*
      (Signalling, False, world_init demo_script demo_session) (Returned, False, ([], hs, s))
    \<and> length hs = 2 \<and> (\<nexists>w. demo_world_step ([], hs, s) w)"
proof -
  let ?hs = "map (\<lambda>c. (c, Done)) (served demo_script)"
  obtain s where "demo_world_step\<^sup>*\<^sup>* (world_init demo_script demo_session) ([], ?hs, s)"
    using serve_alone [OF demo_decides, of "\<lparr>sh_asked = [], sh_reports = [], sh_lock = None, sh_proxy = demo_session\<rparr>"
        demo_script "[]"] demo_session_gate(2) by (auto simp: world_init_def)
  from elsewhere_all [OF this] obtain s' where r: "(stop_step (emit demo_fr) (logging gvisor_backend) demo_session_config demo_policy (\<lambda>_ _. True))\<^sup>*\<^sup>*
      (Signalling, False, world_init demo_script demo_session) (Returned, False, ([], ?hs, s'))"
    using stops_clean [of ?hs "emit demo_fr" "logging gvisor_backend" demo_session_config demo_policy "\<lambda>_ _. True" False s]
    by (auto simp: list_all_iff intro: rtranclp_trans)
  have "length ?hs = 2" by (simp add: demo_served)
  then show ?thesis using stop_is_clean [OF demo_threads r] r by blast
qed

theorem stop_returns_witness:
  "\<exists>n y. ((stop_step (emit demo_fr) (logging gvisor_backend) demo_session_config demo_policy (\<lambda>_ _. False)) ^^ n)
      (Signalling, False, world_init demo_script demo_session) y \<and> fst y = Returned \<and> n \<le> 101"
proof -
  let ?st = "stop_step (emit demo_fr) (logging gvisor_backend) demo_session_config demo_policy (\<lambda>_ _. False)"
  obtain y where y: "?st\<^sup>*\<^sup>* (Signalling, False, world_init demo_script demo_session) y" "\<nexists>z. ?st y z"
    using stops.steps_halt by blast
  then obtain n where n: "(?st ^^ n) (Signalling, False, world_init demo_script demo_session) y" by (auto simp: rtranclp_power)
  then show ?thesis using stop_returns [OF n] y(2) by (intro exI [of _ n] exI [of _ y]) (simp add: demo_served)
qed

section \<open>A stop that gives up\<close>

text \<open>
  \<^verbatim>\<open>join\<close> returns without a sign whether its thread has ended, and \<^verbatim>\<open>stop\<close> does not look: with
  one connection just accepted it may return, its list of handlers cleared, while that
  handler has not yet read a byte, and the handler then runs as if nothing had been stopped.
\<close>

theorem late_stop:
  assumes "tx_decide cfg = decide em B p" "\<not> px_stop x0"
  shows "\<exists>s s'. (stop_step em B cfg p (\<lambda>_ _. True))\<^sup>*\<^sup>* (Signalling, False, world_init [Accepted c] x0) (Returned, True, ([], [(c, Fresh)], s))
    \<and> px_stop (sh_proxy s) \<and> tp_handlers (sh_proxy s) = 0
    \<and> (stop_step em B cfg p (\<lambda>_ _. True))\<^sup>*\<^sup>* (Returned, True, ([], [(c, Fresh)], s)) (Returned, True, ([], [(c, Done)], s'))
    \<and> sh_proxy s' = snd (run_handler cfg c (sh_proxy s))"
proof -
  let ?init = "\<lparr>sh_asked = [], sh_reports = [], sh_lock = None, sh_proxy = x0\<rparr>"
  let ?at = "\<lambda>y. ?init\<lparr>sh_proxy := y\<rparr>"
  let ?ax = "x0\<lparr>tp_handlers := tp_handlers x0 + 1\<rparr>"
  let ?bx = "?ax\<lparr>px_stop := True\<rparr>"
  let ?cx = "?bx\<lparr>px_thread := False\<rparr>"
  let ?dx = "?cx\<lparr>px_sock := None\<rparr>"
  let ?ex = "?dx\<lparr>tp_handlers := 0\<rparr>"
  have st: "stop_step em B cfg p (\<lambda>_ _. True) (Signalling, False, world_init [Accepted c] x0) (Signalling, False, ([], [(c, Fresh)], ?at ?ax))"
    "stop_step em B cfg p (\<lambda>_ _. True) (Signalling, False, ([], [(c, Fresh)], ?at ?ax)) (AwaitingLoop, False, ([], [(c, Fresh)], ?at ?bx))"
    "stop_step em B cfg p (\<lambda>_ _. True) (AwaitingLoop, False, ([], [(c, Fresh)], ?at ?bx)) (Unlistening, False, ([], [(c, Fresh)], ?at ?cx))"
    "stop_step em B cfg p (\<lambda>_ _. True) (Unlistening, False, ([], [(c, Fresh)], ?at ?cx)) (AwaitingHandler 0, False, ([], [(c, Fresh)], ?at ?dx))"
    "stop_step em B cfg p (\<lambda>_ _. True) (AwaitingHandler 0, False, ([], [(c, Fresh)], ?at ?dx)) (AwaitingHandler 1, True, ([], [(c, Fresh)], ?at ?dx))"
    "stop_step em B cfg p (\<lambda>_ _. True) (AwaitingHandler 1, True, ([], [(c, Fresh)], ?at ?dx)) (Returned, True, ([], [(c, Fresh)], ?at ?ex))"
    using elsewhere [OF accepted [of ?init em B cfg p c "[]" "[]"], of "\<lambda>_ _. True" Signalling False] assms(2)
      signals [of em B cfg p "\<lambda>_ _. True" False "[]" "[(c, Fresh)]" "?at ?ax"] loop_joined [of em B cfg p "\<lambda>_ _. True" False "[(c, Fresh)]" "?at ?bx"]
      unlistens [of em B cfg p "\<lambda>_ _. True" False "[]" "[(c, Fresh)]" "?at ?cx"]
      stop_step.late [of 0 "[(c, Fresh)]" em B cfg p "\<lambda>_ _. True" False "[]" "?at ?dx"]
      cleared [of "[(c, Fresh)]" 1 em B cfg p "\<lambda>_ _. True" True "[]" "?at ?dx"]
    by (simp_all add: world_init_def)
  have "(stop_step em B cfg p (\<lambda>_ _. True))\<^sup>*\<^sup>* (Signalling, False, world_init [Accepted c] x0) (Returned, True, ([], [(c, Fresh)], ?at ?ex))"
    using two_steps [of "stop_step em B cfg p (\<lambda>_ _. True)", OF st(1,2)] two_steps [of "stop_step em B cfg p (\<lambda>_ _. True)", OF st(3,4)]
      two_steps [of "stop_step em B cfg p (\<lambda>_ _. True)", OF st(5,6)] by (meson rtranclp_trans)
  moreover obtain s' where "(world_step em B cfg p)\<^sup>*\<^sup>* ([], [(c, Fresh)], ?at ?ex) ([], [(c, Done)], s')"
      "sh_proxy s' = snd (run_handler cfg c (sh_proxy (?at ?ex)))"
    using handled_alone [of 0 "[(c, Fresh)]" "?at ?ex" cfg em B p "[]" c] assms(1) by auto
  ultimately show ?thesis using elsewhere_all by (intro exI [of _ "?at ?ex"] exI [of _ s']) simp
qed

end
