(* ===== verification/TeeThreads.thy ===== *)
theory TeeThreads
  imports Concurrency BroadcastThreads
begin

text \<open>
  \<^verbatim>\<open>Supervisor.report\<close> by several threads at once, over a \<^verbatim>\<open>TeeSink\<close> (\<^verbatim>\<open>halt/sinks.py\<close>,
  lines 59-74). The theory Concurrency takes one emit as one step; here a thread hands its
  event to one sink at a time, and the other threads run in between, also in the middle of
  the emit of an \<^verbatim>\<open>ExternalBroadcastSink\<close> (theory BroadcastThreads). A sink of another class
  alone still sees a run of Concurrency, so what holds there holds behind a tee. The emit of
  a tee inside the tee is one step; the claims about the sinks' states leave such tees out.
\<close>

section \<open>Threads inside TeeSink.emit\<close>

text \<open>
  At \<^verbatim>\<open>s.emit(event)\<close> for the sink of the given index, inside the emit of the broadcast sink
  of that index, or past the tee's emit, in \<^verbatim>\<open>report\<close>.
\<close>

datatype tee_pc =
    Handing trip_event nat
  | InPost trip_event nat post_pc
  | Past pc

type_synonym ('h, 'b) tee_system = "tee_pc list \<times> nat option \<times> ('h sink, 'b) supervisor"

fun is_broadcast :: "'h sink \<Rightarrow> bool" where
  "is_broadcast (Broadcast b) = True"
| "is_broadcast _ = False"

fun leaf :: "'h sink \<Rightarrow> bool" where
  "leaf (Tee ss fs) = False"
| "leaf _ = True"

text \<open>
  One turn of the loop over a file or a user's sink is one step: the hand-over to the sink
  and, when it raised an \<^verbatim>\<open>Exception\<close>, the \<^verbatim>\<open>append\<close> to \<^verbatim>\<open>failures\<close>. A broadcast is the steps of
  its emit. Anything else that is raised leaves the loop.
\<close>

inductive tee_thread_step ::
  "(rat \<Rightarrow> string) \<Rightarrow> 'b kill_backend \<Rightarrow> nat \<Rightarrow>
   tee_pc \<times> nat option \<times> ('h sink, 'b) supervisor \<Rightarrow> tee_pc \<times> nat option \<times> ('h sink, 'b) supervisor \<Rightarrow> bool"
  for fr B i where
  hands: "sup_sink s = Tee ss fs \<Longrightarrow> m < length ss \<Longrightarrow> \<not> is_broadcast (ss ! m) \<Longrightarrow> emit fr e (ss ! m) = (Inr (), k) \<Longrightarrow>
    tee_thread_step fr B i (Handing e m, l, s) (Handing e (Suc m), l, s\<lparr>sup_sink := Tee (ss[m := k]) fs\<rparr>)"
| records_failure: "sup_sink s = Tee ss fs \<Longrightarrow> m < length ss \<Longrightarrow> \<not> is_broadcast (ss ! m) \<Longrightarrow>
    emit fr e (ss ! m) = (Inl x, k) \<Longrightarrow> is_Exception x \<Longrightarrow>
    tee_thread_step fr B i (Handing e m, l, s)
      (Handing e (Suc m), l, s\<lparr>sup_sink := Tee (ss[m := k]) (fs @ [(sink_name (ss ! m), x)])\<rparr>)"
| stops: "sup_sink s = Tee ss fs \<Longrightarrow> m < length ss \<Longrightarrow> \<not> is_broadcast (ss ! m) \<Longrightarrow>
    emit fr e (ss ! m) = (Inl x, k) \<Longrightarrow> \<not> is_Exception x \<Longrightarrow>
    tee_thread_step fr B i (Handing e m, l, s) (Past (Finished (Some x)), l, s\<lparr>sup_sink := Tee (ss[m := k]) fs\<rparr>)"
| posts: "sup_sink s = Tee ss fs \<Longrightarrow> m < length ss \<Longrightarrow> is_broadcast (ss ! m) \<Longrightarrow>
    tee_thread_step fr B i (Handing e m, l, s) (InPost e m (Posting e), l, s)"
| in_post: "sup_sink s = Tee ss fs \<Longrightarrow> m < length ss \<Longrightarrow> ss ! m = Broadcast b \<Longrightarrow> post_thread_step fr (q, b) (q', b') \<Longrightarrow>
    tee_thread_step fr B i (InPost e m q, l, s) (InPost e m q', l, s\<lparr>sup_sink := Tee (ss[m := Broadcast b']) fs\<rparr>)"
| posted: "tee_thread_step fr B i (InPost e m (Sent None), l, s) (Handing e (Suc m), l, s)"
| records_post_failure: "sup_sink s = Tee ss fs \<Longrightarrow> is_Exception x \<Longrightarrow>
    tee_thread_step fr B i (InPost e m (Sent (Some x)), l, s)
      (Handing e (Suc m), l, s\<lparr>sup_sink := Tee ss (fs @ [(sink_name (ss ! m), x)])\<rparr>)"
| post_stops: "\<not> is_Exception x \<Longrightarrow>
    tee_thread_step fr B i (InPost e m (Sent (Some x)), l, s) (Past (Finished (Some x)), l, s)"
| handed: "sup_sink s = Tee ss fs \<Longrightarrow> length ss \<le> m \<Longrightarrow>
    tee_thread_step fr B i (Handing e m, l, s) (Past (Emitted e), l, s)"
| goes_on: "\<forall>e. p \<noteq> Entered e \<Longrightarrow> thread_step (emit fr) B i (p, l, s) (p', l', s') \<Longrightarrow>
    tee_thread_step fr B i (Past p, l, s) (Past p', l', s')"

inductive_cases tee_thread_stepE: "tee_thread_step fr B i (p, l, s) (p', l', s')"

inductive tee_step ::
  "(rat \<Rightarrow> string) \<Rightarrow> 'b kill_backend \<Rightarrow> ('h, 'b) tee_system \<Rightarrow> ('h, 'b) tee_system \<Rightarrow> bool"
  for fr B where
  tee_interleave: "i < length ps \<Longrightarrow> tee_thread_step fr B i (ps ! i, l, s) (p, l', s') \<Longrightarrow>
    tee_step fr B (ps, l, s) (ps[i := p], l', s')"

text \<open>Every thread has called \<^verbatim>\<open>report\<close> with its event.\<close>

definition tee_start :: "trip_event list \<Rightarrow> ('h sink, 'b) supervisor \<Rightarrow> ('h, 'b) tee_system" where
  "tee_start es s = (map (\<lambda>e. Handing e 0) es, None, s)"

lemma past_keeps_sink:
  "thread_step em B i (p, l, s) (p', l', s') \<Longrightarrow> \<forall>e. p \<noteq> Entered e \<Longrightarrow>
     sup_sink s' = sup_sink s \<and> (\<forall>e. p' \<noteq> Entered e)"
  by (auto elim!: thread_stepE simp: run_kill_sink)

text \<open>
  The same system as \<open>sink m\<close> sees it: a thread has entered the emit until the hand-over to
  sink \<open>m\<close>, for a broadcast sink its request, and is past it afterwards.
\<close>

fun seen_from :: "nat \<Rightarrow> tee_pc \<Rightarrow> pc" where
  "seen_from m (Handing e n) = (if n \<le> m then Entered e else Emitted e)"
| "seen_from m (InPost e n q) = (if n < m \<or> n = m \<and> q = Posting e then Entered e else Emitted e)"
| "seen_from m (Past p) = p"

abbreviation not_yet :: "nat \<Rightarrow> tee_pc \<Rightarrow> trip_event list" where
  "not_yet m p \<equiv> pending (seen_from m p)"

section \<open>The books of each sink\<close>

text \<open>A sink after the events, handed to it one after the other.\<close>

definition handed_all :: "(rat \<Rightarrow> string) \<Rightarrow> trip_event list \<Rightarrow> 'h sink \<Rightarrow> 'h sink" where
  "handed_all fr es k = foldl (\<lambda>k e. snd (emit fr e k)) k es"

lemma handed_all_simps [simp]:
  "handed_all fr [] k = k" "handed_all fr (es @ [e]) k = snd (emit fr e (handed_all fr es k))"
  by (simp_all add: handed_all_def)

lemma emit_broadcast [simp]: "is_broadcast (snd (emit fr e k)) = is_broadcast k"
  by (cases k) (auto split: prod.split option.split)

lemma handed_broadcast [simp]: "is_broadcast (handed_all fr es k) = is_broadcast k"
  by (induction es rule: rev_induct) simp_all

text \<open>
  A sink beside what emitting to it one by one would leave. A broadcast sink has made the
  same requests, so its outside world is the same, and notes the same failures, if need be
  in another order and not all of them yet; its counter of deliveries can be short.
\<close>

fun agrees :: "bool \<Rightarrow> 'h sink \<Rightarrow> 'h sink \<Rightarrow> 'h sink \<Rightarrow> bool" where
  "agrees through (Broadcast a) (Broadcast c) (Broadcast b) \<longleftrightarrow>
     b = c\<lparr>bc_failures := bc_failures b, bc_delivered := bc_delivered b\<rparr>
   \<and> (if through then mset (bc_failures b) = mset (bc_failures c) else mset (bc_failures b) \<subseteq># mset (bc_failures c))
   \<and> bc_delivered a \<le> bc_delivered b \<and> bc_delivered b \<le> bc_delivered c"
| "agrees through k0 k1 k \<longleftrightarrow> k = k1"

text \<open>The same with the threads that are inside the sink's emit: \<open>Q\<close> is where they are.\<close>

fun note_of :: "post_pc \<Rightarrow> broadcast_failure multiset" where
  "note_of (Noting f) = {#f#}"
| "note_of _ = {#}"

fun counting :: "post_pc \<Rightarrow> bool" where
  "counting Loading = True"
| "counting (Storing n) = True"
| "counting _ = False"

definition post_books :: "nat \<Rightarrow> 'h broadcast \<Rightarrow> 'h broadcast \<Rightarrow> post_pc multiset \<Rightarrow> bool" where
  "post_books d0 c b Q \<longleftrightarrow>
     b = c\<lparr>bc_failures := bc_failures b, bc_delivered := bc_delivered b\<rparr>
   \<and> mset (bc_failures b) + \<Sum>\<^sub># (image_mset note_of Q) = mset (bc_failures c)
   \<and> d0 \<le> bc_delivered b \<and> bc_delivered b + size (filter_mset counting Q) \<le> bc_delivered c
   \<and> (\<forall>n. Storing n \<in># Q \<longrightarrow> d0 \<le> n \<and> n + size (filter_mset counting Q) \<le> bc_delivered c)"

lemma post_books_same_requests:
  assumes "post_books d0 c b Q"
  shows "post_event fr e b = post_event fr e c"
proof -
  have "b = c\<lparr>bc_failures := bc_failures b, bc_delivered := bc_delivered b\<rparr>" using assms by (simp add: post_books_def)
  then have "bc_url b = bc_url c \<and> bc_bearer b = bc_bearer c \<and> bc_timeout b = bc_timeout c \<and> bc_open b = bc_open c
      \<and> bc_url_check b = bc_url_check c \<and> bc_host b = bc_host c"
    by (cases b; cases c) simp
  then show ?thesis by (simp add: post_event_def)
qed

lemma post_books_step:
  assumes st: "post_thread_step fr (q, b) (q', b')" and bk: "post_books d0 c b (add_mset q R)"
  shows "post_books d0 (case q of Posting e \<Rightarrow> snd (broadcast_emit fr e c) | _ \<Rightarrow> c) b' (add_mset q' R)"
proof -
  have eq: "b = c\<lparr>bc_failures := bc_failures b, bc_delivered := bc_delivered b\<rparr>" using bk by (simp add: post_books_def)
  have host: "b\<lparr>bc_host := h\<rparr> = c\<lparr>bc_host := h, bc_failures := bc_failures b, bc_delivered := bc_delivered b\<rparr>" for h
    using eq by (cases b; cases c) simp
  from st show ?thesis
  proof cases
    case (accepted e h)
    then have "post_event fr e c = (Inr None, h)" using post_books_same_requests [OF bk] by metis
    then show ?thesis using accepted bk host [of h] by (cases c) (auto simp: post_books_def broadcast_emit_def)
  next
    case (refused e rsn h)
    then have "post_event fr e c = (Inr (Some rsn), h)" using post_books_same_requests [OF bk] by metis
    then show ?thesis using refused bk host [of h] by (cases c) (auto simp: post_books_def broadcast_emit_def)
  next
    case (raises e x h)
    then have "post_event fr e c = (Inl x, h)" using post_books_same_requests [OF bk] by metis
    then show ?thesis using raises bk host [of h] by (cases c) (auto simp: post_books_def broadcast_emit_def)
  next
    case loads
    then show ?thesis using bk by (auto simp: post_books_def)
  next
    case (stores n)
    then have n: "d0 \<le> n" "n + size (filter_mset counting (add_mset q R)) \<le> bc_delivered c"
      using bk by (auto simp: post_books_def)
    then show ?thesis using stores bk eq by (cases b; cases c) (auto simp: post_books_def)
  next
    case (notes_failure f)
    then show ?thesis using bk eq by (cases b; cases c) (auto simp: post_books_def)
  qed
qed

fun sink_books :: "'h sink \<Rightarrow> 'h sink \<Rightarrow> 'h sink \<Rightarrow> post_pc multiset \<Rightarrow> bool" where
  "sink_books (Broadcast a) (Broadcast c) (Broadcast b) Q \<longleftrightarrow> post_books (bc_delivered a) c b Q"
| "sink_books k0 k1 k Q \<longleftrightarrow> k = k1"

lemma agrees_plain: "\<not> is_broadcast k \<Longrightarrow> agrees f k0 k1 k \<longleftrightarrow> k = k1"
  by (cases "(f, k0, k1, k)" rule: agrees.cases) auto

lemma sink_books_agree: "sink_books k0 k1 k Q \<Longrightarrow> agrees (Q = {#}) k0 k1 k"
proof (induction k0 k1 k Q rule: sink_books.induct)
  case (1 a c b Q)
  then have "mset (bc_failures b) + \<Sum>\<^sub># (image_mset note_of Q) = mset (bc_failures c)" by (simp add: post_books_def)
  then have "mset (bc_failures b) \<subseteq># mset (bc_failures c)" by (metis mset_subset_eq_add_left)
  then show ?case using 1 by (auto simp: post_books_def)
qed (auto simp: agrees_plain)

lemma agrees_weaken: "agrees True k0 k1 k \<Longrightarrow> agrees f k0 k1 k"
  by (induction f k0 k1 k rule: agrees.induct) auto

lemma sink_books_agrees: "sink_books k0 k1 k Q \<Longrightarrow> agrees False k0 k1 k"
  using sink_books_agree [of k0 k1 k Q] agrees_weaken by (cases "Q = {#}") auto

lemma sink_books_plain: "\<not> is_broadcast k \<Longrightarrow> sink_books k0 k1 k Q \<longleftrightarrow> k = k1"
  by (cases "(k0, k1, k, Q)" rule: sink_books.cases) auto

lemma sink_books_init: "sink_books k k k {#}"
  by (cases k) (simp_all add: post_books_def)

fun posts_at :: "nat \<Rightarrow> tee_pc \<Rightarrow> post_pc list" where
  "posts_at m (InPost e n q) = (if n = m then [q] else [])"
| "posts_at m p = []"

abbreviation posts :: "nat \<Rightarrow> tee_pc list \<Rightarrow> post_pc multiset" where
  "posts m ps \<equiv> mset (concat (map (posts_at m) ps))"

text \<open>Sink \<open>m\<close> agrees with emitting \<open>ord m\<close> to it one by one, and the rest is still to come.\<close>

definition tee_books ::
  "(rat \<Rightarrow> string) \<Rightarrow> trip_event list \<Rightarrow> 'h sink list \<Rightarrow> (nat \<Rightarrow> trip_event list) \<Rightarrow> ('h, 'b) tee_system \<Rightarrow> bool" where
  "tee_books fr es ss0 ord c = (case c of (ps, l, s) \<Rightarrow>
     \<exists>ss fs. sup_sink s = Tee ss fs \<and> length ss = length ss0
       \<and> (\<forall>m < length ss0. sink_books (ss0 ! m) (handed_all fr (ord m) (ss0 ! m)) (ss ! m) (posts m ps)
            \<and> mset (ord m) + mset (concat (map (not_yet m) ps)) = mset es))"

fun post_ok :: "'h sink list \<Rightarrow> tee_pc \<Rightarrow> bool" where
  "post_ok ss (Handing e m) = True"
| "post_ok ss (InPost e m q) \<longleftrightarrow> m < length ss \<and> is_broadcast (ss ! m)
     \<and> (\<forall>x. q = Sent (Some x) \<longrightarrow> is_Exception x) \<and> (\<forall>e'. q = Posting e' \<longrightarrow> e' = e)"
| "post_ok ss (Past q) \<longleftrightarrow> (\<forall>e. q \<noteq> Entered e)"

definition tame_threads :: "('h, 'b) tee_system \<Rightarrow> bool" where
  "tame_threads c = (case c of (ps, l, s) \<Rightarrow>
     \<exists>ss fs. sup_sink s = Tee ss fs \<and> list_all tame ss \<and> list_all (post_ok ss) ps)"

text \<open>One step of a thread over tame sinks: a hand-over, a part of a broadcast, or nothing for any sink.\<close>

lemma tee_thread_cases:
  assumes st: "tee_thread_step fr B i (p, l, s) (p', l', s')"
    and tee: "sup_sink s = Tee ss fs" and tame: "list_all tame ss" and ok: "post_ok ss p"
  obtains (hand) e m fs' where "p = Handing e m" "p' = Handing e (Suc m)" "m < length ss" "\<not> is_broadcast (ss ! m)"
      "s' = s\<lparr>sup_sink := Tee (ss[m := snd (emit fr e (ss ! m))]) fs'\<rparr>" "l' = l"
  | (begins) e m where "p = Handing e m" "p' = InPost e m (Posting e)" "m < length ss" "is_broadcast (ss ! m)" "s' = s" "l' = l"
  | (works) e m b q q' b' where "p = InPost e m q" "p' = InPost e m q'" "m < length ss" "ss ! m = Broadcast b"
      "post_thread_step fr (q, b) (q', b')" "s' = s\<lparr>sup_sink := Tee (ss[m := Broadcast b']) fs\<rparr>" "l' = l"
  | (leaves) e m r fs' where "p = InPost e m (Sent r)" "p' = Handing e (Suc m)" "s' = s\<lparr>sup_sink := Tee ss fs'\<rparr>" "l' = l"
  | (through) e m where "p = Handing e m" "p' = Past (Emitted e)" "length ss \<le> m" "s' = s" "l' = l"
  | (on) q q' where "p = Past q" "p' = Past q'" "\<forall>e. q \<noteq> Entered e" "thread_step (emit fr) B i (q, l, s) (q', l', s')"
  using st
proof cases
  case (stops ss1 fs1 m e x k)
  then have "tame (ss ! m)" using tame tee by (simp add: list_all_length)
  then show ?thesis using emit_tame(1) [of "ss ! m" fr e] stops tee by simp
next
  case (hands ss1 fs1 m e k)
  then show ?thesis using hand [of e m fs] tee by simp
next
  case (records_failure ss1 fs1 m e x k)
  then show ?thesis using hand [of e m "fs @ [(sink_name (ss ! m), x)]"] tee by simp
next
  case (posts ss1 fs1 m e)
  then show ?thesis using begins tee by simp
next
  case (in_post ss1 fs1 m b q q' b' e)
  then show ?thesis using works tee by simp
next
  case (posted e m)
  then show ?thesis using leaves [of e m None fs] tee by simp
next
  case (records_post_failure ss1 fs1 x e m)
  then show ?thesis using leaves [of e m "Some x"] tee by simp
next
  case (post_stops x e m)
  then show ?thesis using ok by simp
next
  case (handed ss1 fs1 m e)
  then show ?thesis using through tee by simp
qed (use on in blast)

lemma post_keeps_tame:
  assumes "post_thread_step fr (q, b) (q', b')" "tame (Broadcast b)"
  shows "tame (Broadcast b') \<and> (q' = Sent (Some x) \<longrightarrow> is_Exception x) \<and> q' \<noteq> Posting e"
  using assms(1)
proof cases
  case (raises d y h)
  then have "fst (emit fr d (Broadcast b)) = Inl y" by (simp add: broadcast_emit_def)
  then show ?thesis using emit_tame(1) [of "Broadcast b" fr d] assms(2) raises by auto
qed (use assms(2) in auto)

lemma post_ok_cong: "map is_broadcast ss' = map is_broadcast ss \<Longrightarrow> post_ok ss' p = post_ok ss p"
proof -
  assume m: "map is_broadcast ss' = map is_broadcast ss"
  then have l: "length ss' = length ss" by (rule map_eq_imp_length_eq)
  have "is_broadcast (ss' ! n) = is_broadcast (ss ! n)" if "n < length ss" for n
    using m l that by (metis nth_map)
  then show ?thesis using l by (cases p) auto
qed

lemma same_kinds: "m < length ss \<Longrightarrow> is_broadcast k = is_broadcast (ss ! m) \<Longrightarrow> map is_broadcast (ss[m := k]) = map is_broadcast ss"
  using list_update_id [of "map is_broadcast ss" m] by (simp add: map_update)

lemma tame_update: "list_all tame ss \<Longrightarrow> tame k \<Longrightarrow> list_all tame (ss[m := k])"
  by (auto simp: list_all_iff dest!: set_update_subset_insert [THEN subsetD])

lemma ok_update: "list_all (post_ok ss) ps \<Longrightarrow> post_ok ss p \<Longrightarrow> list_all (post_ok ss) (ps[i := p])"
  by (auto simp: list_all_iff dest!: set_update_subset_insert [THEN subsetD])

lemma ok_kinds: "map is_broadcast ss' = map is_broadcast ss \<Longrightarrow> list_all (post_ok ss') ps = list_all (post_ok ss) ps"
  using post_ok_cong [of ss' ss] by (simp add: list_all_iff)

lemma tame_threads_step: "tee_step fr B c c' \<Longrightarrow> tame_threads c \<Longrightarrow> tame_threads c'"
proof (induction rule: tee_step.induct)
  case (tee_interleave i ps l s p l' s')
  obtain ss fs where s: "sup_sink s = Tee ss fs" "list_all tame ss" "list_all (post_ok ss) ps"
    using tee_interleave(3) unfolding tame_threads_def prod.case by blast
  have ok: "post_ok ss (ps ! i)" using s(3) tee_interleave(1) by (simp add: list_all_length)
  have same: "tame_threads (ps[i := p], l', s')"
    if "sup_sink s' = Tee ss' fs'" "list_all tame ss'" "map is_broadcast ss' = map is_broadcast ss" "post_ok ss p" for ss' fs'
    using that ok_update [OF s(3) that(4)] ok_kinds [OF that(3)] by (simp add: tame_threads_def)
  from tee_interleave(2) s(1,2) ok show ?case
  proof (cases rule: tee_thread_cases)
    case (hand e m fs')
    have "tame (ss ! m)" using s(2) hand(3) by (simp add: list_all_length)
    then have "tame (snd (emit fr e (ss ! m)))" using emit_tame(1) by blast
    then show ?thesis using hand by (intro same [of "ss[m := snd (emit fr e (ss ! m))]" fs'] tame_update s(2) same_kinds) simp_all
  next
    case (begins e m)
    then show ?thesis using s by (intro same [of ss fs]) simp_all
  next
    case (works e m b q q' b')
    have "tame (Broadcast b)" using s(2) works(3,4) by (metis list_all_length)
    note t = post_keeps_tame [OF works(5) this]
    show ?thesis using works ok t
      by (intro same [of "ss[m := Broadcast b']" fs] tame_update s(2) same_kinds) auto
  next
    case (leaves e m r fs')
    then show ?thesis using s by (intro same [of ss fs']) simp_all
  next
    case (through e m)
    then show ?thesis using s by (intro same [of ss fs]) simp_all
  next
    case (on q q')
    then show ?thesis using s past_keeps_sink [OF on(4,3)] by (intro same [of ss fs]) simp_all
  qed
qed

section \<open>Every step keeps the books\<close>

lemma past_unpending: "\<forall>e. q \<noteq> Entered e \<Longrightarrow> pending q = []"
  by (cases q) auto

lemma posts_update:
  assumes "i < length ps"
  obtains R where "posts n ps = mset (posts_at n (ps ! i)) + R" "posts n (ps[i := p]) = mset (posts_at n p) + R"
proof -
  have e: "posts n (take i ps @ y # drop (Suc i) ps) = mset (posts_at n y) + posts n (take i ps @ drop (Suc i) ps)" for y
    by simp
  show ?thesis
    using that [OF trans [OF arg_cong [OF id_take_nth_drop [OF assms], of "posts n"] e]
        trans [OF arg_cong [OF upd_conv_take_nth_drop [OF assms], of "posts n"] e]] .
qed

lemma sink_books_begin: "sink_books k0 k1 k Q \<Longrightarrow> sink_books k0 k1 k (add_mset (Posting e) Q)"
  by (induction k0 k1 k Q rule: sink_books.induct) (auto simp: post_books_def sink_books_plain)

lemma sink_books_leave: "sink_books k0 k1 k (add_mset (Sent r) Q) \<Longrightarrow> sink_books k0 k1 k Q"
  by (cases "(k0, k1, k, Q)" rule: sink_books.cases) (auto simp: post_books_def)

lemma sink_books_work:
  assumes "post_thread_step fr (q, b) (q', b')" "sink_books k0 k1 (Broadcast b) (add_mset q R)" "is_broadcast k0" "is_broadcast k1"
  shows "sink_books k0 (case q of Posting e \<Rightarrow> snd (emit fr e k1) | _ \<Rightarrow> k1) (Broadcast b') (add_mset q' R)"
proof -
  obtain a c where k: "k0 = Broadcast a" "k1 = Broadcast c" using assms(3,4) by (cases k0; cases k1) auto
  have "(case q of Posting e \<Rightarrow> snd (emit fr e k1) | _ \<Rightarrow> k1) = Broadcast (case q of Posting e \<Rightarrow> snd (broadcast_emit fr e c) | _ \<Rightarrow> c)"
    using k(2) by (cases q) (simp_all split: prod.split)
  then show ?thesis using post_books_step [OF assms(1), of "bc_delivered a" c R] assms(2) k by simp
qed

text \<open>A step after which sink \<open>m\<close> was handed \<open>e\<close>, or none was handed anything.\<close>

lemma tee_books_moved:
  assumes bk: "tee_books fr es ss0 ord (ps, l, s)" and i: "i < length ps"
    and s: "sup_sink s = Tee ss fs" "sup_sink s' = Tee ss' fs'" "length ss' = length ss"
    and ord: "\<And>n. n < length ss0 \<Longrightarrow> mset (ord' n) + mset (not_yet n p) = mset (ord n) + mset (not_yet n (ps ! i))"
    and sinks: "\<And>n R. n < length ss0 \<Longrightarrow>
      sink_books (ss0 ! n) (handed_all fr (ord n) (ss0 ! n)) (ss ! n) (mset (posts_at n (ps ! i)) + R) \<Longrightarrow>
      sink_books (ss0 ! n) (handed_all fr (ord' n) (ss0 ! n)) (ss' ! n) (mset (posts_at n p) + R)"
  shows "tee_books fr es ss0 ord' (ps[i := p], l', s')"
proof -
  have len: "length ss = length ss0"
    and old: "\<And>n. n < length ss0 \<Longrightarrow> sink_books (ss0 ! n) (handed_all fr (ord n) (ss0 ! n)) (ss ! n) (posts n ps)"
      "\<And>n. n < length ss0 \<Longrightarrow> mset (ord n) + mset (concat (map (not_yet n) ps)) = mset es"
    using bk s(1) by (auto simp: tee_books_def)
  have "sink_books (ss0 ! n) (handed_all fr (ord' n) (ss0 ! n)) (ss' ! n) (posts n (ps[i := p]))" if n: "n < length ss0" for n
    by (rule posts_update [OF i, of n p]) (use sinks [OF n] old(1) [OF n] in simp)
  moreover have "mset (ord' n) + mset (concat (map (not_yet n) (ps[i := p]))) = mset es" if n: "n < length ss0" for n
    by (rule mset_transfer [OF ord [OF n] concat_update [OF i, of "not_yet n" p] old(2) [OF n]])
  ultimately show ?thesis using s len by (simp add: tee_books_def)
qed

lemma tee_books_step:
  "tee_step fr B c c' \<Longrightarrow> tame_threads c \<Longrightarrow> tee_books fr es ss0 ord c \<Longrightarrow> \<exists>ord'. tee_books fr es ss0 ord' c'"
proof (induction rule: tee_step.induct)
  case (tee_interleave i ps l s p l' s')
  obtain ss fs where s: "sup_sink s = Tee ss fs" "list_all tame ss" "list_all (post_ok ss) ps"
    using tee_interleave(3) unfolding tame_threads_def prod.case by blast
  have ok: "post_ok ss (ps ! i)" using s(3) tee_interleave(1) by (simp add: list_all_length)
  note moved = tee_books_moved [OF tee_interleave(4,1) s(1)]
  have len: "length ss = length ss0" using tee_interleave(4) s(1) by (auto simp: tee_books_def)
  from tee_interleave(2) s(1,2) ok show ?case
  proof (cases rule: tee_thread_cases)
    case (hand e m fs')
    show ?thesis
      by (rule exI [of _ "ord(m := ord m @ [e])"], rule moved [of s' "ss[m := snd (emit fr e (ss ! m))]" fs'])
        (use hand len in \<open>auto simp: sink_books_plain nth_list_update\<close>)
  next
    case (begins e m)
    show ?thesis
      by (rule exI [of _ ord], rule moved [of s' ss fs]) (use begins s in \<open>auto intro: sink_books_begin\<close>)
  next
    case (works e m b q q' b')
    let ?ord = "case q of Posting d \<Rightarrow> ord(m := ord m @ [d]) | _ \<Rightarrow> ord"
    have b0: "is_broadcast (ss0 ! m)"
    proof -
      have "sink_books (ss0 ! m) (handed_all fr (ord m) (ss0 ! m)) (ss ! m) (posts m ps)"
        using tee_interleave(4) s(1) works(3) by (auto simp: tee_books_def)
      then show ?thesis using works(4) by (cases "ss0 ! m") (auto dest: arg_cong [of _ _ is_broadcast])
    qed
    have pq: "q' \<noteq> Posting e" "\<forall>d. q = Posting d \<longrightarrow> d = e" using works(1,5) ok by (auto elim: post_thread_stepE)
    show ?thesis
    proof (rule exI [of _ ?ord], rule moved [of s' "ss[m := Broadcast b']" fs])
      fix n assume "n < length ss0"
      then show "mset (?ord n) + mset (not_yet n p) = mset (ord n) + mset (not_yet n (ps ! i))"
        using works(1,2) pq by (cases q) auto
    next
      fix n R assume n: "n < length ss0"
        and bk: "sink_books (ss0 ! n) (handed_all fr (ord n) (ss0 ! n)) (ss ! n) (mset (posts_at n (ps ! i)) + R)"
      show "sink_books (ss0 ! n) (handed_all fr (?ord n) (ss0 ! n)) (ss[m := Broadcast b'] ! n) (mset (posts_at n p) + R)"
      proof (cases "n = m")
        case True
        have "handed_all fr (?ord m) (ss0 ! m) =
            (case q of Posting d \<Rightarrow> snd (emit fr d (handed_all fr (ord m) (ss0 ! m))) | _ \<Rightarrow> handed_all fr (ord m) (ss0 ! m))"
          by (cases q) simp_all
        then show ?thesis
          using sink_books_work [OF works(5), of "ss0 ! m" "handed_all fr (ord m) (ss0 ! m)" R] bk b0 works(1-4) True by simp
      next
        case False
        then show ?thesis using bk works(1,2) by (cases q) simp_all
      qed
    qed (use works in simp_all)
  next
    case (leaves e m r fs')
    show ?thesis
      by (rule exI [of _ ord], rule moved [of s' ss fs']) (use leaves in \<open>auto dest: sink_books_leave split: if_splits\<close>)
  next
    case (through e m)
    show ?thesis
      by (rule exI [of _ ord], rule moved [of s' ss fs]) (use through s len in auto)
  next
    case (on q q')
    have "pending q = []" "pending q' = []" using past_unpending on(3) past_keeps_sink [OF on(4,3)] by blast+
    then show ?thesis
      by (intro exI [of _ ord], intro moved [of s' ss fs]) (use on s past_keeps_sink [OF on(4,3)] in auto)
  qed
qed

lemma tee_reachable:
  assumes "(tee_step fr B)\<^sup>*\<^sup>* (tee_start es s) c" "sup_sink s = Tee ss0 fs0" "list_all tame ss0"
  shows "tame_threads c \<and> (\<exists>ord. tee_books fr es ss0 ord c)"
  using assms(1)
proof (induction rule: rtranclp_induct)
  case base
  have c: "concat (map (not_yet m) (map (\<lambda>e. Handing e 0) es)) = es" "concat (map (posts_at m) (map (\<lambda>e. Handing e 0) es)) = []" for m
    by (induction es) simp_all
  have "tee_books fr es ss0 (\<lambda>_. []) (tee_start es s)"
    unfolding tee_books_def tee_start_def prod.case c using assms(2) by (simp add: sink_books_init)
  moreover have "list_all (post_ok ss0) (map (\<lambda>e. Handing e 0) es)" by (simp add: list_all_iff)
  ultimately show ?case using assms(2,3) by (auto simp: tame_threads_def tee_start_def)
next
  case (step c d)
  then show ?case using tame_threads_step [OF step.hyps(2)] tee_books_step [OF step.hyps(2)] by blast
qed

lemma not_yet_mono: "m \<le> n \<Longrightarrow> mset (concat (map (not_yet m) ps)) \<subseteq># mset (concat (map (not_yet n) ps))"
proof (induction ps)
  case (Cons p ps)
  moreover have "mset (not_yet m p) \<subseteq># mset (not_yet n p)" using Cons.prems by (cases p) auto
  ultimately show ?case by (simp add: subset_mset.add_mono)
qed simp

lemma earlier_first:
  assumes "f + u = (a :: 'a multiset)" "f' + u' = a" "u \<subseteq># u'"
  shows "f' \<subseteq># f"
proof (rule mset_subset_eqI)
  fix x
  have "count f x + count u x = count f' x + count u' x" using assms(1,2) by (metis count_union)
  then show "count f' x \<le> count f x" using mset_subset_eq_count [OF assms(3), of x] by simp
qed

abbreviation all_past :: "tee_pc list \<Rightarrow> bool" where
  "all_past ps \<equiv> \<forall>p \<in> set ps. \<exists>q. p = Past q"

lemma tee_order:
  assumes "(tee_step fr B)\<^sup>*\<^sup>* (tee_start es s0) (ps, l, s)" "sup_sink s0 = Tee ss0 fs0" "list_all tame ss0"
  shows "\<exists>ss fs ord. sup_sink s = Tee ss fs \<and> length ss = length ss0
    \<and> (\<forall>m < length ss0. agrees (all_past ps) (ss0 ! m) (handed_all fr (ord m) (ss0 ! m)) (ss ! m)
         \<and> mset (ord m) \<subseteq># mset es \<and> (\<forall>n < m. mset (ord m) \<subseteq># mset (ord n))
         \<and> (all_past ps \<longrightarrow> mset (ord m) = mset es))"
proof -
  obtain ord where tame: "tame_threads (ps, l, s)" and "tee_books fr es ss0 ord (ps, l, s)"
    using tee_reachable [OF assms] by blast
  then obtain ss fs where s: "sup_sink s = Tee ss fs" "length ss = length ss0"
    and bk: "\<And>m. m < length ss0 \<Longrightarrow> sink_books (ss0 ! m) (handed_all fr (ord m) (ss0 ! m)) (ss ! m) (posts m ps)"
      "\<And>m. m < length ss0 \<Longrightarrow> mset (ord m) + mset (concat (map (not_yet m) ps)) = mset es"
    unfolding tee_books_def prod.case by blast
  have "mset (ord m) \<subseteq># mset es" if "m < length ss0" for m
    using bk(2) [OF that] by (metis mset_subset_eq_add_left)
  moreover have "mset (ord m) \<subseteq># mset (ord n)" if "m < length ss0" "n < m" for m n
    using earlier_first [OF bk(2) [OF less_trans [OF that(2,1)]] bk(2) [OF that(1)] not_yet_mono] that(2) by simp
  moreover have "mset (ord m) = mset es" if "m < length ss0" "all_past ps" for m
  proof -
    have "list_all (post_ok ss) ps" using tame s(1) by (auto simp: tame_threads_def)
    then have "not_yet m p = []" if "p \<in> set ps" for p
      using past_unpending \<open>all_past ps\<close> that unfolding list_all_iff by fastforce
    then have c: "concat (map (not_yet m) ps) = []" by simp
    show ?thesis using bk(2) [OF that(1)] unfolding c by simp
  qed
  moreover have "agrees (all_past ps) (ss0 ! m) (handed_all fr (ord m) (ss0 ! m)) (ss ! m)" if "m < length ss0" for m
  proof (cases "all_past ps")
    case True
    then have "concat (map (posts_at m) ps) = []" by fastforce
    then show ?thesis using sink_books_agree [OF bk(1) [OF that]] True by simp
  next
    case False
    then show ?thesis using sink_books_agrees [OF bk(1) [OF that]] by (simp only: if_False)
  qed
  ultimately show ?thesis using s by blast
qed

text \<open>
  C12. Threads inside \<^verbatim>\<open>TeeSink.emit\<close> at the same time, over files, broadcast sinks and users' sinks
  that raise only \<^verbatim>\<open>Exception\<close>s. A file or a user's sink is at every moment in the state that
  some of the events, handed to it one after the other, leave. A broadcast sink has made the
  requests of some of the events one after the other, noted only their failures, and counted
  at most their deliveries and never fewer than before. A sink has been handed nothing that
  any sink before it was not. When all threads have left the emit, each sink was handed
  every event exactly once, and a broadcast sink has noted every failure.
\<close>
theorem tee_threads_books:
  assumes "(tee_step fr B)\<^sup>*\<^sup>* (tee_start es s0) (ps, l, s)" "sup_sink s0 = Tee ss0 fs0" "list_all tame ss0" "list_all leaf ss0"
  shows "\<exists>ss fs ord. sup_sink s = Tee ss fs \<and> length ss = length ss0
    \<and> (\<forall>m < length ss0. agrees (all_past ps) (ss0 ! m) (handed_all fr (ord m) (ss0 ! m)) (ss ! m)
         \<and> mset (ord m) \<subseteq># mset es \<and> (\<forall>n < m. mset (ord m) \<subseteq># mset (ord n))
         \<and> (all_past ps \<longrightarrow> mset (ord m) = mset es))"
  by (rule tee_order [OF assms(1-3)])

text \<open>When all threads have left the emit, every sink was served.\<close>

lemma tee_all_served:
  assumes "(tee_step fr B)\<^sup>*\<^sup>* (tee_start es s0) (ps, l, s)" "sup_sink s0 = Tee ss0 fs0" "list_all tame ss0" "all_past ps"
  shows "\<exists>ss fs. sup_sink s = Tee ss fs \<and> length ss = length ss0
    \<and> list_all2 (\<lambda>k0 k. \<exists>ord. mset ord = mset es \<and> agrees True k0 (handed_all fr ord k0) k) ss0 ss"
proof -
  have past: "all_past ps = True" using assms(4) by simp
  obtain ss fs ord where "sup_sink s = Tee ss fs" "length ss = length ss0"
      "\<And>m. m < length ss0 \<Longrightarrow> agrees True (ss0 ! m) (handed_all fr (ord m) (ss0 ! m)) (ss ! m) \<and> mset (ord m) = mset es"
    using tee_order [OF assms(1-3)] unfolding past by metis
  then show ?thesis by (auto simp: list_all2_conv_all_nth)
qed

section \<open>Each sink sees a run of reports\<close>

text \<open>The \<^verbatim>\<open>try\<close> around one sink: an \<^verbatim>\<open>Exception\<close> does not come out of it.\<close>

definition attempt :: "(rat \<Rightarrow> string) \<Rightarrow> trip_event \<Rightarrow> ('h sink, unit) py" where
  "attempt fr e k = (case emit fr e k of (Inl x, k') \<Rightarrow> (if is_Exception x then Inr () else Inl x, k') | (Inr _, k') \<Rightarrow> (Inr (), k'))"

lemma attempt_tame: "tame k \<Longrightarrow> attempt fr e k = (Inr (), snd (emit fr e k))"
  using emit_tame(1) [of k fr e] by (auto simp: attempt_def split: prod.splits sum.splits)

fun sink_at :: "nat \<Rightarrow> 'h sink \<Rightarrow> 'h sink" where
  "sink_at m (Tee ss fs) = ss ! m"
| "sink_at m k = k"

definition seen_by :: "nat \<Rightarrow> ('h, 'b) tee_system \<Rightarrow> ('h sink, 'b) system" where
  "seen_by m c = (case c of (ps, l, s) \<Rightarrow> (map (seen_from m) ps, l, s\<lparr>sup_sink := sink_at m (sup_sink s)\<rparr>))"

fun has_sink :: "nat \<Rightarrow> 'h sink \<Rightarrow> bool" where
  "has_sink m (Tee ss fs) \<longleftrightarrow> m < length ss \<and> \<not> is_broadcast (ss ! m)"
| "has_sink m k \<longleftrightarrow> False"

definition tee_sane :: "nat \<Rightarrow> ('h, 'b) tee_system \<Rightarrow> bool" where
  "tee_sane m c \<longleftrightarrow> tame_threads c \<and> has_sink m (sup_sink (snd (snd c)))"

text \<open>A thread past the emit does not look at the sink.\<close>

lemma past_other_sink:
  assumes "thread_step em B i (p, l, s) (p', l', s')" "\<forall>e. p \<noteq> Entered e"
  shows "thread_step em' B i (p, l, s\<lparr>sup_sink := k\<rparr>) (p', l', s'\<lparr>sup_sink := k\<rparr>)"
  using assms(1)
proof cases
  case (first_kill e)
  then show ?thesis using thread_step.first_kill [of "s\<lparr>sup_sink := k\<rparr>" em' B i e l] by (cases s) simp
next
  case (set_cause e)
  then show ?thesis using thread_step.set_cause [of em' B i e l "s\<lparr>sup_sink := k\<rparr>"] by (cases s) simp
next
  case (kill r e)
  then have "run_kill B (s\<lparr>sup_sink := k\<rparr>) = (r, s'\<lparr>sup_sink := k\<rparr>)"
    by (auto simp: py_simps split: prod.splits sum.splits)
  then show ?thesis using kill by (auto intro: thread_step.kill)
qed (use assms(2) in \<open>auto intro!: thread_step.intros\<close>)

lemma tee_shows:
  "tee_step fr B c d \<Longrightarrow> tee_sane m c \<Longrightarrow> seen_by m d = seen_by m c \<or> sys_step (attempt fr) B (seen_by m c) (seen_by m d)"
proof (induction rule: tee_step.induct)
  case (tee_interleave i ps l s p l' s')
  note i = tee_interleave(1)
  obtain ss fs where s: "sup_sink s = Tee ss fs" "list_all tame ss" "list_all (post_ok ss) ps"
    using tee_interleave(3) unfolding tee_sane_def tame_threads_def prod.case by blast
  have ok: "post_ok ss (ps ! i)" using s(3) i by (simp add: list_all_length)
  have m: "m < length ss" "\<not> is_broadcast (ss ! m)" using tee_interleave(3) s(1) by (simp_all add: tee_sane_def)
  have still: "seen_by m (ps[i := p], l, s') = seen_by m (ps, l, s)"
    if "seen_from m p = seen_from m (ps ! i)" "s'\<lparr>sup_sink := sink_at m (sup_sink s')\<rparr> = s\<lparr>sup_sink := sink_at m (sup_sink s)\<rparr>"
    using that i by (simp add: seen_by_def) (metis list_update_id map_update nth_map)
  have move: "sys_step (attempt fr) B (seen_by m (ps, l, s)) (seen_by m (ps[i := p], l', s'))"
    if "thread_step (attempt fr) B i (seen_from m (ps ! i), l, s\<lparr>sup_sink := sink_at m (sup_sink s)\<rparr>)
      (seen_from m p, l', s'\<lparr>sup_sink := sink_at m (sup_sink s')\<rparr>)"
    using interleave [of i "map (seen_from m) ps"] that i by (simp add: seen_by_def map_update)
  from tee_interleave(2) s(1,2) ok show ?case
  proof (cases rule: tee_thread_cases)
    case (hand e n fs')
    show ?thesis
    proof (cases "n = m")
      case True
      then have "tame (ss ! m)" using s(2) m(1) by (simp add: list_all_length)
      then have "attempt fr e (ss ! m) = (Inr (), snd (emit fr e (ss ! m)))" by (rule attempt_tame)
      then have "thread_step (attempt fr) B i (Entered e, l, s\<lparr>sup_sink := ss ! m\<rparr>)
          (Emitted e, l, s\<lparr>sup_sink := ss ! m, sup_sink := snd (emit fr e (ss ! m))\<rparr>)"
        by (intro emit_ok) simp
      then show ?thesis using hand True s(1) by (intro disjI2 move) simp
    next
      case False
      then have "seen_by m (ps[i := p], l, s') = seen_by m (ps, l, s)" by (intro still) (use hand s(1) in auto)
      then show ?thesis using hand by simp
    qed
  next
    case (begins e n)
    then have "seen_by m (ps[i := p], l, s') = seen_by m (ps, l, s)" by (intro still) (use m in auto)
    then show ?thesis using begins by simp
  next
    case (works e n b q q' b')
    have "n \<noteq> m" using works(4) m(2) by auto
    then have "seen_by m (ps[i := p], l, s') = seen_by m (ps, l, s)" by (intro still) (use works s(1) in auto)
    then show ?thesis using works by simp
  next
    case (leaves e n r fs')
    have "n \<noteq> m" using ok leaves(1) m(2) by auto
    then have "seen_by m (ps[i := p], l, s') = seen_by m (ps, l, s)" by (intro still) (use leaves s(1) in auto)
    then show ?thesis using leaves by simp
  next
    case (through e n)
    then have "seen_by m (ps[i := p], l, s') = seen_by m (ps, l, s)" by (intro still) (use m in auto)
    then show ?thesis using through by simp
  next
    case (on q q')
    have "sup_sink s' = sup_sink s" using past_keeps_sink [OF on(4,3)] by blast
    then show ?thesis using on past_other_sink [OF on(4,3), of "attempt fr" "sink_at m (sup_sink s)"]
      by (intro disjI2 move) simp
  qed
qed

lemma tee_sane_step: "tee_step fr B c d \<Longrightarrow> tee_sane m c \<Longrightarrow> tee_sane m d"
proof (induction rule: tee_step.induct)
  case (tee_interleave i ps l s p l' s')
  obtain ss fs where s: "sup_sink s = Tee ss fs" "list_all tame ss" "list_all (post_ok ss) ps"
    using tee_interleave(3) unfolding tee_sane_def tame_threads_def prod.case by blast
  have ok: "post_ok ss (ps ! i)" using s(3) tee_interleave(1) by (simp add: list_all_length)
  have m: "has_sink m (sup_sink s)" using tee_interleave(3) by (simp add: tee_sane_def)
  from tee_interleave(2) s(1,2) ok have "has_sink m (sup_sink s')"
  proof (cases rule: tee_thread_cases)
    case (hand e n fs')
    then show ?thesis using m s(1) by (auto simp: nth_list_update)
  next
    case (works e n b q q' b')
    then show ?thesis using m s(1) by (auto simp: nth_list_update)
  next
    case (on q q')
    then show ?thesis using m past_keeps_sink [OF on(4,3)] by simp
  qed (use m s(1) in simp_all)
  then show ?case using tame_threads_step [OF tee_step.tee_interleave [OF tee_interleave(1,2)]] tee_interleave(3)
    by (simp add: tee_sane_def)
qed

interpretation tee_sim: stutter_simulation "tee_step fr B" "sys_step (attempt fr) B" "seen_by m" "tee_sane m" for fr B m
  by unfold_locales (use tee_sane_step tee_shows in blast)+

lemma tee_sane_start: "sup_sink s = Tee ss fs \<Longrightarrow> list_all tame ss \<Longrightarrow> m < length ss \<Longrightarrow> \<not> is_broadcast (ss ! m) \<Longrightarrow>
    tee_sane m (tee_start es s)"
  by (auto simp: tee_sane_def tame_threads_def tee_start_def list_all_iff)

text \<open>
  C11. Refinement of the one-step emit: seen from any one sink of the tee that is not a broadcast
  sink, a run of threads inside \<^verbatim>\<open>TeeSink.emit\<close>, also inside the emit of its broadcast sinks,
  is a run of threads that report to that sink alone, each emit one step, with the same lock,
  flag, cause and backend.
\<close>
theorem tee_threads_refine:
  assumes "(tee_step fr B)\<^sup>*\<^sup>* (tee_start es s0) c" "sup_sink s0 = Tee ss0 fs0" "list_all tame ss0" "list_all leaf ss0"
    and "m < length ss0" "\<not> is_broadcast (ss0 ! m)"
  shows "(sys_step (attempt fr) B)\<^sup>*\<^sup>* (start es (s0\<lparr>sup_sink := ss0 ! m\<rparr>)) (seen_by m c)"
proof -
  have "seen_by m (tee_start es s0) = start es (s0\<lparr>sup_sink := ss0 ! m\<rparr>)"
    using assms(2) by (simp add: seen_by_def tee_start_def start_def)
  then show ?thesis using tee_sim.view_reachable [OF assms(1) tee_sane_start [OF assms(2,3,5,6)]] by metis
qed

section \<open>The kill behind a tee\<close>

lemma attempt_durable:
  assumes "durable fp k" "event_ok fr fp e"
  shows "attempt fr e k = emit fr e k"
  using disk.emit_total [OF assms] by (auto simp: attempt_def)

interpretation attempted: recording_sink "attempt fr" "durable fp" "event_ok fr fp" "durable_record fp" for fr fp
proof unfold_locales
  fix k :: "'a sink" and e
  assume "durable fp k" "event_ok fr fp e"
  then show "\<exists>k'. attempt fr e k = (Inr (), k') \<and> durable fp k'" using durable_emit attempt_durable by fastforce
next
  fix k k' :: "'a sink" and e
  assume "durable fp k" "event_ok fr fp e" "attempt fr e k = (Inr (), k')"
  then show "durable_record fp k' = durable_record fp k @ [e]" using durable_emit attempt_durable by fastforce
qed

interpretation attempted_gvisor: supervised "attempt fr" "durable fp" "event_ok fr fp" "durable_record fp"
  "logging gvisor_backend" "\<lambda>(b, cs). gvisor_total b" for fr fp
  by (intro supervised.intro attempted.recording_sink_axioms logging_total gvisor.total_backend_axioms)

lemma tee_file_run:
  assumes "readable fp j" "list_all tame ss"
    and "(tee_step fr B)\<^sup>*\<^sup>* (tee_start es (supervisor_init b (Tee (Jsonl j # ss) fs) run creds)) c"
  shows "tee_sane 0 c \<and> (sys_step (attempt fr) B)\<^sup>*\<^sup>* (start es (supervisor_init b (Jsonl j) run creds)) (seen_by 0 c)"
proof -
  let ?s = "supervisor_init b (Tee (Jsonl j # ss) fs) run creds"
  have "tee_sane 0 (tee_start es ?s)"
    using assms(1,2) by (intro tee_sane_start [of _ "Jsonl j # ss" fs]) (auto simp: supervisor_init_def readable_def)
  moreover have "seen_by 0 (tee_start es ?s) = start es (supervisor_init b (Jsonl j) run creds)"
    by (simp add: seen_by_def tee_start_def start_def supervisor_init_def)
  ultimately show ?thesis using tee_sim.view_reachable [OF assms(3)] by metis
qed

text \<open>
  C10. gVisor behind a \<^verbatim>\<open>TeeSink\<close> whose first sink is a file that takes its writes, threads
  anywhere inside the emit: at every moment the backend was called for one whole kill or for
  none, and the cause is a reported \<open>KILL\<close> event that is already in the file.
\<close>
theorem tee_threads_single_kill:
  assumes "readable fp j" "list_all tame ss" "list_all (event_ok fr fp) es" "gvisor_total g"
    and "(tee_step fr (logging gvisor_backend))\<^sup>*\<^sup>*
      (tee_start es (supervisor_init (g, []) (Tee (Jsonl j # ss) fs) run (Some creds))) (ps, l, s)"
  shows "snd (sup_backend s) \<in> {[], gvisor_plan run creds}
    \<and> (case sup_cause s of None \<Rightarrow> True
       | Some e \<Rightarrow> e \<in> set es \<and> is_kill e \<and> e \<in> set (durable_record fp (sink_at 0 (sup_sink s))))"
proof -
  have d: "durable fp (Jsonl j)" using assms(1) by simp
  have "(sys_step (attempt fr) (logging gvisor_backend))\<^sup>*\<^sup>*
      (start es (supervisor_init (g, []) (Jsonl j) run (Some creds))) (seen_by 0 (ps, l, s))"
    using tee_file_run [OF assms(1,2,5)] by blast
  from supervised_single_kill [OF attempted_gvisor.supervised_axioms gvisor.total_backend_axioms d assms(3,4) this]
  show ?thesis by (simp add: single_kill_def seen_by_def program_plans cong: option.case_cong)
qed

section \<open>Every run ends, with every sink served\<close>

fun width :: "'h sink \<Rightarrow> nat" where
  "width (Tee ss fs) = length ss"
| "width k = 0"

fun post_rank :: "post_pc \<Rightarrow> nat" where
  "post_rank (Posting e) = 4"
| "post_rank Loading = 3"
| "post_rank (Storing n) = 2"
| "post_rank (Noting f) = 2"
| "post_rank (Sent r) = 1"

fun tee_rank :: "nat \<Rightarrow> tee_pc \<Rightarrow> nat" where
  "tee_rank n (Handing e m) = 7 + 6 * (n - m)"
| "tee_rank n (InPost e m q) = 7 + 6 * (n - Suc m) + post_rank q"
| "tee_rank n (Past p) = rank p"

definition tee_work :: "('h, 'b) tee_system \<Rightarrow> nat" where
  "tee_work c = (case c of (ps, l, s) \<Rightarrow> sum_list (map (tee_rank (width (sup_sink s))) ps))"

lemma post_thread_rank: "post_thread_step fr (q, b) (q', b') \<Longrightarrow> post_rank q' < post_rank q"
  by (erule post_thread_stepE) auto

lemma tee_thread_rank:
  "tee_thread_step fr B i (p, l, s) (p', l', s') \<Longrightarrow>
     width (sup_sink s') = width (sup_sink s) \<and> tee_rank (width (sup_sink s)) p' < tee_rank (width (sup_sink s)) p"
  by (erule tee_thread_stepE) (auto simp: thread_step_rank post_thread_rank dest: past_keeps_sink)

interpretation tee_threads: ending_steps "tee_step fr B" tee_work for fr B
proof unfold_locales
  fix c d
  assume "tee_step fr B c d"
  then show "tee_work d < tee_work c"
    by (induction rule: tee_step.induct) (use tee_thread_rank in \<open>fastforce simp: tee_work_def intro: sum_list_step\<close>)
qed

lemma post_can_go: "(\<nexists>r. q = Sent r) \<Longrightarrow> \<exists>q' b'. post_thread_step fr (q, b) (q', b')"
proof (cases q)
  case (Posting e)
  obtain r h where p: "post_event fr e b = (r, h)" by fastforce
  consider (ok) "r = Inr None" | (no) rsn where "r = Inr (Some rsn)" | (exn) x where "r = Inl x"
    by (cases r) (metis not_None_eq)+
  then show ?thesis unfolding Posting using p by cases (blast intro: accepted refused raises)+
qed (blast intro: loads stores notes_failure)+

lemma tee_can_hand:
  assumes "sup_sink s = Tee ss fs"
  shows "\<exists>y. tee_thread_step fr B i (Handing e m, l, s) y"
proof (cases "m < length ss")
  case True
  consider (post) "is_broadcast (ss ! m)" | (ok) k where "\<not> is_broadcast (ss ! m)" "emit fr e (ss ! m) = (Inr (), k)"
    | (fails) x k where "\<not> is_broadcast (ss ! m)" "emit fr e (ss ! m) = (Inl x, k)"
    by (cases "emit fr e (ss ! m)", rename_tac r k, case_tac r) auto
  then show ?thesis
  proof cases
    case post
    then show ?thesis using posts [OF assms True] by blast
  next
    case ok
    then show ?thesis using hands [OF assms True] by blast
  next
    case (fails x k)
    then show ?thesis using records_failure [OF assms True fails] stops [OF assms True fails] by blast
  qed
next
  case False
  then have "length ss \<le> m" by simp
  from handed [OF assms this] show ?thesis by blast
qed

lemma tee_can_post:
  assumes "sup_sink s = Tee ss fs" "post_ok ss (InPost e m q)"
  shows "\<exists>y. tee_thread_step fr B i (InPost e m q, l, s) y"
proof (cases "\<exists>r. q = Sent r")
  case True
  then obtain r where r: "q = Sent r" by blast
  show ?thesis
  proof (cases r)
    case None
    then show ?thesis using posted unfolding r by blast
  next
    case (Some x)
    then have "is_Exception x" using assms(2) r by simp
    from records_post_failure [OF assms(1) this] show ?thesis unfolding r Some by blast
  qed
next
  case False
  obtain b where b: "ss ! m = Broadcast b" using assms(2) by (cases "ss ! m") auto
  obtain q' b' where "post_thread_step fr (q, b) (q', b')" using post_can_go [OF False] by blast
  moreover have "m < length ss" using assms(2) by simp
  ultimately show ?thesis using in_post [OF assms(1) _ b, of fr q q' b' B i e l] by blast
qed

lemma tee_stuck:
  assumes sane: "tee_sane m (ps, l, s)" and stuck: "\<nexists>d. tee_step fr B (ps, l, s) d"
  shows "all_past ps \<and> (\<nexists>d. sys_step (attempt fr) B (seen_by m (ps, l, s)) d)"
proof -
  obtain ss fs where tee: "sup_sink s = Tee ss fs" "list_all (post_ok ss) ps"
    using sane unfolding tee_sane_def tame_threads_def prod.case by blast
  have ok: "post_ok ss (ps ! i)" if "i < length ps" for i using tee(2) that by (simp add: list_all_length)
  have none: "\<nexists>y. tee_thread_step fr B i (ps ! i, l, s) y" if "i < length ps" for i
    using stuck tee_interleave [OF that, of fr B l s] by (metis prod_cases3)
  have past: "\<exists>q. ps ! i = Past q" if "i < length ps" for i
  proof (cases "ps ! i")
    case (Handing e n)
    then show ?thesis using none [OF that] tee_can_hand [OF tee(1), of fr B i e n l] by simp
  next
    case (InPost e n q)
    then show ?thesis using none [OF that] tee_can_post [OF tee(1), of e n q fr B i l] ok [OF that] by simp
  qed blast
  have "\<not> thread_step (attempt fr) B i (map (seen_from m) ps ! i, l, s\<lparr>sup_sink := k\<rparr>) (p', l', s')"
    if i: "i < length ps" for i k p' l' s'
  proof
    assume st: "thread_step (attempt fr) B i (map (seen_from m) ps ! i, l, s\<lparr>sup_sink := k\<rparr>) (p', l', s')"
    obtain q where q: "ps ! i = Past q" using past [OF i] by blast
    then have n: "\<forall>e. q \<noteq> Entered e" using ok [OF i] by simp
    have "thread_step (emit fr) B i (q, l, s) (p', l', s'\<lparr>sup_sink := sup_sink s\<rparr>)"
      using past_other_sink [of "attempt fr" B i q l "s\<lparr>sup_sink := k\<rparr>" p' l' s' "emit fr" "sup_sink s"] st q i n by simp
    then show False using none [OF i] goes_on [OF n] q by fastforce
  qed
  then have "\<nexists>d. sys_step (attempt fr) B (seen_by m (ps, l, s)) d"
    by (auto simp: seen_by_def elim!: sys_stepE)
  then show ?thesis using past by (auto simp: in_set_conv_nth)
qed

lemma map_replicate_past:
  assumes "all_past ps" "map (seen_from m) ps = replicate n q"
  shows "ps = replicate n (Past q)"
proof -
  have "p = Past q" if p: "p \<in> set ps" for p
  proof -
    have "seen_from m p \<in> set (map (seen_from m) ps)" using p by simp
    then have "seen_from m p = q" unfolding assms(2) by (auto split: if_splits)
    then show ?thesis using assms(1) p by fastforce
  qed
  moreover have "length ps = n" using arg_cong [OF assms(2), of length] by simp
  ultimately show ?thesis by (metis replicate_eqI)
qed

text \<open>
  C9. When no thread behind the tee can go on, all have returned without an exception, the
  lock is free, every sink was handed every event exactly once, each in some order of its
  own, the file reads back as all of them, and the kill ran if and only if one was a \<open>KILL\<close>.
  A broadcast sink has made every request and noted every failure, and its counter of
  deliveries is at most what they were and not below where it started.
\<close>
theorem tee_threads_complete:
  assumes "readable fp j" "list_all tame ss" "list_all leaf ss" "list_all (event_ok fr fp) es" "gvisor_total g"
    and "(tee_step fr (logging gvisor_backend))\<^sup>*\<^sup>*
      (tee_start es (supervisor_init (g, []) (Tee (Jsonl j # ss) fs) run (Some creds))) (ps, l, s)"
    and "\<nexists>d. tee_step fr (logging gvisor_backend) (ps, l, s) d"
  shows "ps = replicate (length es) (Past (Finished None)) \<and> l = None
    \<and> (\<exists>ks fs'. sup_sink s = Tee ks fs'
        \<and> list_all2 (\<lambda>k0 k. \<exists>ord. mset ord = mset es \<and> agrees True k0 (handed_all fr ord k0) k) (Jsonl j # ss) ks
        \<and> mset (durable_record fp (hd ks)) = mset (file_record fp j) + mset es)
    \<and> sup_killed s = (\<exists>e \<in> set es. is_kill e)
    \<and> snd (sup_backend s) = (if sup_killed s then gvisor_plan run creds else [])"
proof -
  let ?B = "logging gvisor_backend"
  note run = tee_file_run [OF assms(1,2,6)]
  have sane: "tee_sane 0 (ps, l, s)" and reach: "(sys_step (attempt fr) ?B)\<^sup>*\<^sup>*
      (start es (supervisor_init (g, []) (Jsonl j) run (Some creds))) (seen_by 0 (ps, l, s))"
    using run by blast+
  have d: "durable fp (Jsonl j)" using assms(1) by simp
  note stuck = tee_stuck [OF sane assms(7)]
  have past: "all_past ps" and "\<nexists>d. sys_step (attempt fr) ?B (seen_by 0 (ps, l, s)) d"
    using stuck by blast+
  from supervised_completion [OF attempted_gvisor.supervised_axioms gvisor.total_backend_axioms d assms(4,5) reach this(2)]
  have C: "map (seen_from 0) ps = replicate (length es) (Finished None)" "l = None"
    "mset (durable_record fp (sink_at 0 (sup_sink s))) = mset (file_record fp j) + mset es"
    "sup_killed s = (\<exists>e \<in> set es. is_kill e)"
    "snd (sup_backend s) = (if sup_killed s then gvisor_plan run creds else [])"
    by (simp_all add: completed_def seen_by_def program_plans)
  have "ps = replicate (length es) (Past (Finished None))"
    using past C(1) by (intro map_replicate_past)
  moreover obtain ks fs' where k: "sup_sink s = Tee ks fs'" "length ks = length (Jsonl j # ss)"
    and served: "list_all2 (\<lambda>k0 k. \<exists>ord. mset ord = mset es \<and> agrees True k0 (handed_all fr ord k0) k) (Jsonl j # ss) ks"
    using tee_all_served [OF assms(6) _ _ past, of "Jsonl j # ss" fs] assms(1,2)
    by (auto simp: supervisor_init_def readable_def)
  moreover have "hd ks = ks ! 0" using k(2) by (cases ks) auto
  ultimately show ?thesis using C(2-5) by auto
qed

section \<open>Two threads\<close>

text \<open>
  Each sink has the events in an order of its own: two threads, two sinks that note what
  they are handed, and the second sink is handed the events the other way round.
\<close>

definition spy :: "trip_event list \<Rightarrow> 'h sink" where
  "spy es = UserSink ''Spy'' (\<lambda>_. None) es"

lemma emit_spy [simp]: "emit fr e (spy es) = (Inr (), spy (es @ [e]))"
  by (simp add: spy_def)

lemma hand_at:
  assumes "i < length ps" "ps ! i = Handing e m" "sup_sink s = Tee ss fs" "m < length ss" "ss ! m = spy es"
  shows "tee_step fr B (ps, l, s) (ps[i := Handing e (Suc m)], l, s\<lparr>sup_sink := Tee (ss[m := spy (es @ [e])]) fs\<rparr>)"
  using assms hands [of s ss fs m fr e "spy (es @ [e])" B i l] by (intro tee_interleave) (simp_all add: spy_def)

theorem tee_orders_differ:
  "\<exists>ps s. (tee_step fr B)\<^sup>*\<^sup>* (tee_start [a, b] (supervisor_init g (Tee [spy [], spy []] []) run creds)) (ps, None, s)
     \<and> sup_sink s = Tee [spy [a, b], spy [b, a]] []"
proof -
  let ?s = "\<lambda>x y. (supervisor_init g (Tee [spy [], spy []] []) run creds)\<lparr>sup_sink := Tee [spy x, spy y] []\<rparr>"
  have 0: "tee_start [a, b] (supervisor_init g (Tee [spy [], spy []] []) run creds) = ([Handing a 0, Handing b 0], None, ?s [] [])"
    by (simp add: tee_start_def supervisor_init_def)
  have 1: "tee_step fr B ([Handing a 0, Handing b 0], None, ?s [] []) ([Handing a 1, Handing b 0], None, ?s [a] [])"
    using hand_at [of 0 "[Handing a 0, Handing b 0]" a 0 "?s [] []" "[spy [], spy []]" "[]" "[]" fr B None] by simp
  have 2: "tee_step fr B ([Handing a 1, Handing b 0], None, ?s [a] []) ([Handing a 1, Handing b 1], None, ?s [a, b] [])"
    using hand_at [of 1 "[Handing a 1, Handing b 0]" b 0 "?s [a] []" "[spy [a], spy []]" "[]" "[a]" fr B None] by simp
  have 3: "tee_step fr B ([Handing a 1, Handing b 1], None, ?s [a, b] []) ([Handing a 1, Handing b 2], None, ?s [a, b] [b])"
    using hand_at [of 1 "[Handing a 1, Handing b 1]" b 1 "?s [a, b] []" "[spy [a, b], spy []]" "[]" "[]" fr B None]
    by (simp add: numeral_2_eq_2)
  have 4: "tee_step fr B ([Handing a 1, Handing b 2], None, ?s [a, b] [b]) ([Handing a 2, Handing b 2], None, ?s [a, b] [b, a])"
    using hand_at [of 0 "[Handing a 1, Handing b 2]" a 1 "?s [a, b] [b]" "[spy [a, b], spy [b]]" "[]" "[b]" fr B None]
    by (simp add: numeral_2_eq_2)
  have "(tee_step fr B)\<^sup>*\<^sup>* ([Handing a 0, Handing b 0], None, ?s [] []) ([Handing a 2, Handing b 2], None, ?s [a, b] [b, a])"
    by (rule converse_rtranclp_into_rtranclp [OF 1 converse_rtranclp_into_rtranclp [OF 2
          converse_rtranclp_into_rtranclp [OF 3 r_into_rtranclp [of "tee_step fr B", OF 4]]]])
  then show ?thesis unfolding 0
    by (rule exI [where x = "[Handing a 2, Handing b 2]", OF exI [where x = "?s [a, b] [b, a]", OF conjI]]) simp
qed

text \<open>A file first, a sink that fails every time behind it, and an endpoint last.\<close>

definition demo_pair :: "nat sink list" where
  "demo_pair = [Jsonl \<lparr>js_file = None, js_disk = []\<rparr>, UserSink ''Spy'' (\<lambda>_. Some disk_full) [], Broadcast demo_endpoint]"

abbreviation demo_tee_start :: "(nat, unit gvisor \<times> kill_call list) tee_system" where
  "demo_tee_start \<equiv> tee_start [demo_event, demo_event]
     (supervisor_init (demo_gvisor, []) (Tee demo_pair []) ''run-1'' (Some [''tok-1'']))"

abbreviation demo_tee_step :: "(nat, unit gvisor \<times> kill_call list) tee_system \<Rightarrow> _ \<Rightarrow> bool" where
  "demo_tee_step \<equiv> tee_step demo_fr (logging gvisor_backend)"

lemma demo_endpoint_tame: "opener_raises_exceptions (bc_open demo_endpoint)" "url_check_tame (bc_url_check demo_endpoint)"
  by (simp_all add: demo_endpoint_def broadcast_init_def opener_raises_exceptions_def url_check_tame_def)

lemma demo_pair_tame: "list_all tame demo_pair" "list_all leaf demo_pair"
  by (simp_all add: demo_pair_def disk_full_def is_Exception_def demo_endpoint_tame)

lemma demo_tee_ends:
  obtains ps l s where "demo_tee_step\<^sup>*\<^sup>* demo_tee_start (ps, l, s)" "\<nexists>d. demo_tee_step (ps, l, s) d"
  using tee_threads.steps_halt [of demo_fr "logging gvisor_backend" demo_tee_start] by (metis prod_cases3)

lemma demo_pair_laws:
  "readable demo_fp \<lparr>js_file = None, js_disk = []\<rparr>" "list_all tame [UserSink ''Spy'' (\<lambda>_. Some disk_full) [], Broadcast demo_endpoint]"
  "list_all leaf [UserSink ''Spy'' (\<lambda>_. Some disk_full) [], Broadcast demo_endpoint]"
  by (simp_all add: readable_def disk_full_def is_Exception_def demo_endpoint_tame)

lemmas demo_tee_laws = demo_pair_laws demo_events_ok demo_gvisor_total

theorem tee_threads_books_witness:
  "\<exists>ps l s. demo_tee_step\<^sup>*\<^sup>* demo_tee_start (ps, l, s) \<and> (\<nexists>d. demo_tee_step (ps, l, s) d)
    \<and> (\<exists>ss fs. sup_sink s = Tee ss fs \<and> length ss = 3)"
proof -
  obtain ps l s where r: "demo_tee_step\<^sup>*\<^sup>* demo_tee_start (ps, l, s)" "\<nexists>d. demo_tee_step (ps, l, s) d"
    by (rule demo_tee_ends)
  have "sup_sink (supervisor_init (demo_gvisor, [] :: kill_call list) (Tee demo_pair []) ''run-1'' (Some [''tok-1''])) = Tee demo_pair []"
    by (simp add: supervisor_init_def)
  from tee_threads_books [OF r(1) this demo_pair_tame(1,2)] have "\<exists>ss fs. sup_sink s = Tee ss fs \<and> length ss = length demo_pair"
    by blast
  then show ?thesis using r by (intro exI [of _ ps] exI [of _ l] exI [of _ s]) (simp add: demo_pair_def numeral_3_eq_3)
qed

theorem tee_threads_refine_witness:
  "\<exists>c. demo_tee_step\<^sup>*\<^sup>* demo_tee_start c \<and> (\<nexists>d. demo_tee_step c d)
    \<and> (sys_step (attempt demo_fr) (logging gvisor_backend))\<^sup>*\<^sup>*
        (start [demo_event, demo_event] (supervisor_init (demo_gvisor, []) (demo_pair ! 1) ''run-1'' (Some [''tok-1''])))
        (seen_by 1 c)"
proof -
  obtain ps l s where r: "demo_tee_step\<^sup>*\<^sup>* demo_tee_start (ps, l, s)" "\<nexists>d. demo_tee_step (ps, l, s) d"
    by (rule demo_tee_ends)
  have i: "sup_sink (supervisor_init (demo_gvisor, [] :: kill_call list) (Tee demo_pair []) ''run-1'' (Some [''tok-1''])) = Tee demo_pair []"
    "1 < length demo_pair" "\<not> is_broadcast (demo_pair ! 1)" by (simp_all add: supervisor_init_def demo_pair_def)
  show ?thesis
    using tee_threads_refine [OF r(1) i(1) demo_pair_tame(1,2) i(2,3)] r by (auto simp: supervisor_init_def)
qed

lemma demo_pair_start:
  "demo_tee_start = tee_start [demo_event, demo_event] (supervisor_init (demo_gvisor, [])
     (Tee (Jsonl \<lparr>js_file = None, js_disk = []\<rparr> # [UserSink ''Spy'' (\<lambda>_. Some disk_full) [], Broadcast demo_endpoint]) []) ''run-1'' (Some [''tok-1'']))"
  by (simp add: demo_pair_def)

theorem tee_threads_single_kill_witness:
  "\<exists>ps l s. demo_tee_step\<^sup>*\<^sup>* demo_tee_start (ps, l, s) \<and> (\<nexists>d. demo_tee_step (ps, l, s) d)
    \<and> snd (sup_backend s) \<in> {[], [Revoke ''tok-1'', Sever ''run-1'', Terminate ''run-1'']}"
proof -
  obtain ps l s where r: "demo_tee_step\<^sup>*\<^sup>* demo_tee_start (ps, l, s)" "\<nexists>d. demo_tee_step (ps, l, s) d"
    by (rule demo_tee_ends)
  from tee_threads_single_kill [OF demo_tee_laws(1,2,4,5) r(1) [unfolded demo_pair_start]] show ?thesis using r by auto
qed

theorem tee_threads_complete_witness:
  "\<exists>ps l s. demo_tee_step\<^sup>*\<^sup>* demo_tee_start (ps, l, s)
    \<and> ps = [Past (Finished None), Past (Finished None)]
    \<and> (\<exists>ks fs. sup_sink s = Tee ks fs \<and> mset (durable_record demo_fp (hd ks)) = {#demo_event, demo_event#})
    \<and> snd (sup_backend s) = [Revoke ''tok-1'', Sever ''run-1'', Terminate ''run-1'']"
proof -
  obtain ps l s where r: "demo_tee_step\<^sup>*\<^sup>* demo_tee_start (ps, l, s)" "\<nexists>d. demo_tee_step (ps, l, s) d"
    by (rule demo_tee_ends)
  have d: "is_kill demo_event" "file_record demo_fp \<lparr>js_file = None, js_disk = []\<rparr> = []"
    by (simp_all add: demo_event_def make_event_def file_record_def read_all_def)
  note c = tee_threads_complete [OF demo_tee_laws r(1) [unfolded demo_pair_start] r(2)]
  then have "sup_killed s" using d(1) by simp
  then show ?thesis using c r(1) d(2) by (intro exI [of _ ps] exI [of _ l] exI [of _ s]) (auto simp: numeral_2_eq_2)
qed

end
