(* ===== verification/Spec2Isabelle.thy ===== *)
theory Spec2Isabelle
  imports BroadcastThreads Credentials Https LeafThreads Monitor Netns Pumps Stopping TeeThreads
begin

text \<open>
  HALT is a circuit breaker for agents that run in a sandbox. The sandbox's traffic is routed
  into a proxy; the proxy asks a policy gate about each connection; the gate and the other
  fuses report events to one supervisor; the first event of severity \<open>KILL\<close> makes the
  supervisor revoke the run's credentials, sever its network and terminate it; every event
  goes to a forensic record first.

  \<^bold>\<open>Theories and the code they model\<close> (paths under \<^verbatim>\<open>src/halt/\<close>).

  \<^item> Prelude: what the code uses of Python. A method is \<open>'s \<Rightarrow> (py_exn + 'a) \<times> 's\<close> (type
    \<open>('s, 'a) py\<close>): the exception or the value, and the object it left; \<^verbatim>\<open>try\<close>,
    \<^verbatim>\<open>except\<close>, \<^verbatim>\<open>finally\<close> and \<^verbatim>\<open>for\<close> are combinators. Strings and bytes are char lists
    (Latin-1); \<^verbatim>\<open>split\<close>, \<^verbatim>\<open>strip\<close>, \<^verbatim>\<open>isdigit\<close> and \<^verbatim>\<open>int\<close> are written out.
  \<^item> Json, Http: \<^verbatim>\<open>json.dumps\<close>/\<^verbatim>\<open>loads\<close> and the POST request shared by the revoker and the
    broadcast sink.
  \<^item> Events (\<^verbatim>\<open>events.py\<close>), Glob and Policy (\<^verbatim>\<open>policy.py\<close>, with \<^verbatim>\<open>fnmatch\<close>), Fuses
    (\<^verbatim>\<open>fuses/\<close>), Credentials (\<^verbatim>\<open>credentials.py\<close>).
  \<^item> Kill (\<^verbatim>\<open>kill.py\<close>): \<open>execute_kill\<close> over any backend, \<open>local_backend\<close>. Backends
    (\<^verbatim>\<open>backends/\<close>): gVisor and Firecracker, whose commands go through the injected runner.
  \<^item> Sinks (\<^verbatim>\<open>sinks.py\<close>), Supervisor (\<^verbatim>\<open>supervisor.py\<close>, \<open>report\<close> as one caller runs it),
    Concurrency (\<^verbatim>\<open>report\<close> as a step relation over threads and the lock), TeeThreads (the
    same with the threads inside \<^verbatim>\<open>TeeSink.emit\<close>, one hand-over to one sink at a time and inside the
    emit of its broadcast sinks), BroadcastThreads (threads inside \<^verbatim>\<open>ExternalBroadcastSink.emit\<close>).
  \<^item> Monitor: all four fuses in front of the supervisor.
  \<^item> Connection and Proxy (\<^verbatim>\<open>intercept/proxy.py\<close>), Gate (\<^verbatim>\<open>intercept/gate.py\<close>), HttpHead,
    Relay and Terminate (\<^verbatim>\<open>intercept/terminate.py\<close>), Certs (\<^verbatim>\<open>intercept/certs.py\<close>) and
    LeafThreads (\<^verbatim>\<open>leaf_for\<close> called by several handshakes, against its lock),
    Netns (\<^verbatim>\<open>intercept/netns.py\<close>).
  \<^item> Relay has the two pumps of \<^verbatim>\<open>_relay\<close> call by call, over sockets whose TLS layer \<^verbatim>\<open>shutdown()\<close>
    drops, and \<^verbatim>\<open>_relay\<close> as a function of a schedule: whose turn it is, and when the time of
    the final \<^verbatim>\<open>join\<close> is over. Pumps: the same as a step relation, whose runs are the schedules.
    Terminate and all above it take the schedule of each connection's relay as an input,
    and their claims hold for every schedule.
  \<^item> Egress, Https and Session: the terminating proxy with the policy gate, the supervisor, a
    tee of sinks and the gVisor backend put together, for one HTTP request, one HTTPS
    request and a whole session.
  \<^item> Handlers and Schedules: the same program with its threads. The accept loop, one handler
    thread per connection (\<^verbatim>\<open>_run_handler\<close>) and the \<^verbatim>\<open>report\<close> inside each handler's \<^verbatim>\<open>decide\<close>
    are one step relation (\<open>handler_step\<close>, \<open>world_step\<close>), which uses Concurrency's for the
    reports; Schedules shows the sequential model to be one of its schedules. Stopping: the
    thread that calls \<^verbatim>\<open>stop()\<close>, with its \<^verbatim>\<open>join\<close>s, beside all of them, or beside those of them
    that are not blocked (\<open>moves\<close>).

  Each record has the attributes of its class under a two-letter prefix; each operation has
  its method's name. What is outside the repository is a parameter: the command runner, the
  URL opener, \<^verbatim>\<open>os.kill\<close>, the file system under a sink, \<^verbatim>\<open>openssl\<close>, the answers of socket
  calls. The last are scripts: a stream of segments and exceptions for \<^verbatim>\<open>recv\<close>, a list of
  outcomes for \<^verbatim>\<open>sendall\<close>, a list of accept events for a listener.

  \<^bold>\<open>Interfaces.\<close> \<open>fuse_contract\<close> (Fuses) is what a fuse promises, interpreted by all four
  and, in Monitor, by their union. \<open>ending_steps\<close> (Prelude) is a step relation with a
  measure, interpreted by five thread models; \<open>stutter_simulation\<close> (Prelude) a step
  relation that refines another, interpreted by a tee's threads as each sink sees them.
  \<open>total_backend\<close> (Kill) and \<open>total_sink\<close>, \<open>recording_sink\<close> (Sinks) are what the
  supervisor needs of its parts; \<open>reporting\<close> and \<open>supervised\<close> (Supervisor) combine them
  and carry the lemmas about runs of reports, sequential and concurrent, interpreted on the
  tee of sinks and each backend. \<open>decider\<close> (Connection) is what the terminating proxy
  needs of its \<^verbatim>\<open>decide\<close> callback, interpreted by the gate over gVisor and over Firecracker.

  \<^bold>\<open>What is shown.\<close>

  \<^item> Nothing leaves unless the policy lists it, by a path from the connection's own request
    line, and nothing is forwarded that was not recorded as allowed (Egress, Session; for
    every interleaving of the threads, Handlers). What is forwarded is bytes of that
    connection, in order: a prefix of them when it is plain; over TLS a prefix of the
    cleartext, or a cut of it followed by raw bytes of the same connection (\<open>tape\<close>, Relay).
  \<^item> A denial, or what any other fuse trips on, kills (Monitor, Gate): credentials first, then the network and the process in the order the
    backend needs, once, whatever is reported afterwards or at the same time (Kill,
    Backends, Supervisor, Concurrency). No schedule of the threads hangs: where nothing
    can move, every accepted connection is closed and every question recorded (Schedules);
    a \<^verbatim>\<open>stop()\<close> none of whose \<^verbatim>\<open>join\<close>s gave up leaves exactly that, and \<^verbatim>\<open>stop()\<close> returns also
    beside threads that are blocked for good (Stopping).
  \<^item> The record holds every event, in order, and reads back (Sinks, Events, Json); one
    failing sink does not stop the others. With threads inside the tee, each sink has the
    events in an order of its own, and none has an event that a sink before it has not; a
    broadcast sink's list of failures is complete then, its counter need not be (TeeThreads).
  \<^item> The lock of the certificate authority makes \<^verbatim>\<open>leaf_for\<close> atomic: one leaf per hostname,
    whatever the handshakes (LeafThreads, Certs).
  \<^item> The request head is read within its bound, parsed exactly, and no byte is lost between
    head and relay (HttpHead, Terminate); between plain sockets the relay loses nothing
    but, on a timeout of its \<^verbatim>\<open>join\<close>, the end of the answer (Relay, Pumps); the original destination is recovered exactly
    (Connection); \<^verbatim>\<open>destroy()\<close> restores the host's rules and the non-TCP fuse counts what the
    listing shows (Netns).
  \<^item> Where the code falls short of this it is shown too: connections that reach no decision
    (silent, or with a port \<^verbatim>\<open>int()\<close> refuses), paths with dot segments, a Host header that
    says nothing about the address dialled, a sink that blocks the kill, a failed kill that
    is never retried, a revocation that raises on an answer without a status, a proxy that
    does not restart, leaf files that collide, an answer cut off by a timeout, a TLS client
    whose raw records are sent on as its request when the upstream ends first (Pumps), a
    handler that goes on after \<^verbatim>\<open>stop()\<close> has returned (Stopping), a counter of deliveries
    that misses one (BroadcastThreads).

  \<^bold>\<open>Bounds and termination.\<close> There is no fuel. \<open>read_head_loop\<close> ends because the buffer
  grows up to the 64 KiB limit, the relay because its pumps take data off their
  streams and drop a TLS layer at most once each (\<open>relay_less\<close>, lexicographic),
  \<open>serve\<close> follows the script of accept events; the step relation of Concurrency is shown to
  take at most seven steps per report; those of Handlers, TeeThreads, LeafThreads
  and Stopping have measures of the same kind, that of Pumps the relay's order. Socket addresses are 8-bit words and ports of the
  kernel 16-bit words; other integers of Python are unbounded, with the 4300-digit limit of
  \<^verbatim>\<open>int()\<close> and \<^verbatim>\<open>str()\<close> written out.

  \<^bold>\<open>Abstractions.\<close> Times are rationals, with their JSON text a parameter instead of binary
  floats. In Concurrency one \<^verbatim>\<open>emit\<close> and one \<^verbatim>\<open>execute_kill\<close> is one step each, in TeeThreads the
  emit of one file, of one user's sink and of a tee inside the tee; in Stopping a turn of the accept loop, from its test of \<^verbatim>\<open>_stop\<close> on, is one. In Terminate a
  handler's steps are run when its thread is started; in Handlers one call of the observer,
  one reading of a connection (its own sockets, and the certificate authority under its
  lock, which LeafThreads justifies) and one forwarding, its relay under any schedule, is one step each.
  The records a TLS socket yields once its layer is off are a function of the data not yet
  read through it. When a relay has returned its sockets are not followed further. A socket
  counts as closed when \<^verbatim>\<open>close()\<close> was called on it, which does not end a connection whose
  socket \<^verbatim>\<open>wrap_socket\<close> has detached. Strings are Latin-1.

  \<^bold>\<open>Not modelled.\<close> Socket timeouts other than as exceptions of a call, the time a \<^verbatim>\<open>join\<close> waits
  (it returns at the end of its thread, or at any moment), the default arguments that only
  name library functions (\<^verbatim>\<open>subprocess.run\<close>), two threads inside one
  \<^verbatim>\<open>LocalJsonlSink.emit\<close>, the cryptography of TLS,
  re-exporting modules, the tests.
\<close>

end
